(* ===== verification/Prelude.thy ===== *)
theory Prelude
  imports Main "HOL-Library.Multiset" "HOL-Library.Word"
begin

text \<open>
  What every theory of the development shares: executions of interleaved agents as schedules, the
  locales that turn a step function with an invariant (and a decreasing measure) into facts about
  all of its executions, and generic lemmas on lists, multisets and sums.
\<close>

named_theorems upd_simps \<open>counting and collecting over an updated list\<close>

section \<open>Schedules\<close>

text \<open>
  A program of several coroutines is a step function: \<open>step k s\<close> is the state after agent
  \<open>k\<close> runs to its next suspension point, and \<open>None\<close> if agent \<open>k\<close> cannot run in \<open>s\<close>
  (it is suspended or has returned). A schedule is the list of the agents that ran.
\<close>

type_synonym ('k, 's) stepper = "'k \<Rightarrow> 's \<Rightarrow> 's option"

fun run_steps :: "('k, 's) stepper \<Rightarrow> 'k list \<Rightarrow> 's \<Rightarrow> 's option" where
  "run_steps step [] s = Some s"
| "run_steps step (k # ks) s = (case step k s of None \<Rightarrow> None | Some t \<Rightarrow> run_steps step ks t)"

definition stuck :: "('k, 's) stepper \<Rightarrow> 's \<Rightarrow> bool" where
  "stuck step s \<longleftrightarrow> (\<forall>k. step k s = None)"

lemma stuckD: "stuck step s \<Longrightarrow> step k s = None"
  by (simp add: stuck_def)

lemma run_steps_append:
  "run_steps step (ks @ ls) s =
     (case run_steps step ks s of None \<Rightarrow> None | Some t \<Rightarrow> run_steps step ls t)"
  by (induction ks arbitrary: s) (auto split: option.splits)

lemma run_steps_snoc:
  "run_steps step ks s = Some t \<Longrightarrow> step k t = Some u \<Longrightarrow> run_steps step (ks @ [k]) s = Some u"
  by (simp add: run_steps_append)

text \<open>A contract shared by all the components: an invariant that every step keeps.\<close>

locale invariant_system =
  fixes step :: "'k \<Rightarrow> 's \<Rightarrow> 's option"
    and inv :: "'s \<Rightarrow> bool"
  assumes step_inv: "inv s \<Longrightarrow> step k s = Some t \<Longrightarrow> inv t"
begin

lemma run_inv: "inv s \<Longrightarrow> run_steps step ks s = Some t \<Longrightarrow> inv t"
  by (induction ks arbitrary: s) (auto split: option.splits dest: step_inv)

end

text \<open>
  The stronger contract of the components that must finish: every step decreases a measure, and a
  state in which nothing can run is a final one.
\<close>

locale terminating_system = invariant_system step inv
  for step :: "'k \<Rightarrow> 's \<Rightarrow> 's option" and inv :: "'s \<Rightarrow> bool" +
  fixes work :: "'s \<Rightarrow> nat"
    and final :: "'s \<Rightarrow> bool"
  assumes step_work: "inv s \<Longrightarrow> step k s = Some t \<Longrightarrow> work t < work s"
    and progress: "inv s \<Longrightarrow> stuck step s \<Longrightarrow> final s"
begin

lemma run_bound: "inv s \<Longrightarrow> run_steps step ks s = Some t \<Longrightarrow> length ks + work t \<le> work s"
proof (induction ks arbitrary: s)
  case Nil
  then show ?case by simp
next
  case (Cons k ks)
  then obtain u where u: "step k s = Some u" and r: "run_steps step ks u = Some t"
    by (auto split: option.splits)
  have "length ks + work t \<le> work u"
    using Cons.IH [OF step_inv [OF Cons.prems(1) u] r] .
  with step_work [OF Cons.prems(1) u] show ?case by simp
qed

lemma maximal_final: "inv s \<Longrightarrow> run_steps step ks s = Some t \<Longrightarrow> stuck step t \<Longrightarrow> final t"
  using progress run_inv by blast

lemma reaches_stuck: "inv s \<Longrightarrow> \<exists>ks t. run_steps step ks s = Some t \<and> stuck step t"
proof (induction "work s" arbitrary: s rule: less_induct)
  case less
  show ?case
  proof (cases "stuck step s")
    case True
    then have "run_steps step [] s = Some s \<and> stuck step s" by simp
    then show ?thesis by blast
  next
    case False
    then obtain k u where u: "step k s = Some u" by (auto simp: stuck_def)
    obtain ks t where "run_steps step ks u = Some t" and "stuck step t"
      using less.hyps [OF step_work [OF less.prems u] step_inv [OF less.prems u]] by blast
    with u have "run_steps step (k # ks) s = Some t \<and> stuck step t" by simp
    then show ?thesis by blast
  qed
qed

lemma can_finish:
  assumes "inv s" and "run_steps step ks s = Some t"
  shows "\<exists>ls u. run_steps step (ks @ ls) s = Some u \<and> final u"
proof -
  have "inv t" using run_inv assms .
  then obtain ls u where u: "run_steps step ls t = Some u" "stuck step u"
    using reaches_stuck by blast
  with \<open>inv t\<close> have "final u" using maximal_final by blast
  with u assms(2) have "run_steps step (ks @ ls) s = Some u \<and> final u"
    by (simp add: run_steps_append)
  then show ?thesis by blast
qed

end

section \<open>Updated lists\<close>

lemma sum_list_update_nat [upd_simps]:
  fixes xs :: "nat list"
  shows "i < length xs \<Longrightarrow> sum_list (xs[i := y]) + xs ! i = sum_list xs + y"
  by (induction xs arbitrary: i) (auto split: nat.splits)

lemma sum_map_exchange:
  fixes f :: "'a \<Rightarrow> 'b :: comm_monoid_add"
  shows "i < length xs \<Longrightarrow>
    sum_list (map f (xs[i := y])) + f (xs ! i) = sum_list (map f xs) + f y"
  by (induction xs arbitrary: i) (auto split: nat.splits simp: ac_simps)

lemma sum_map_update [upd_simps]:
  fixes f :: "'a \<Rightarrow> nat"
  shows "i < length xs \<Longrightarrow>
    sum_list (map f (xs[i := y])) + f (xs ! i) = sum_list (map f xs) + f y"
  by (rule sum_map_exchange)

lemma sum_mset_map_update [upd_simps]:
  fixes f :: "'a \<Rightarrow> 'b multiset"
  shows "i < length xs \<Longrightarrow>
    sum_list (map f (xs[i := y])) + f (xs ! i) = sum_list (map f xs) + f y"
  by (rule sum_map_exchange)

lemma sum_map_member: "x \<in> set xs \<Longrightarrow> (f :: 'a \<Rightarrow> nat) x \<le> sum_list (map f xs)"
  by (simp add: member_le_sum_list)

lemma sum_map_zero_iff: "sum_list (map (f :: 'a \<Rightarrow> nat) xs) = 0 \<longleftrightarrow> (\<forall>x\<in>set xs. f x = 0)"
  by (auto simp: sum_list_eq_0_iff)

lemma set_update_le: "x \<in> set (xs[i := y]) \<Longrightarrow> x = y \<or> x \<in> set xs"
  using set_update_subset_insert by fastforce

lemma all_set_update: "(\<forall>x\<in>set xs. P x) \<Longrightarrow> P y \<Longrightarrow> \<forall>x\<in>set (xs[i := y]). P x"
  using set_update_le by fastforce

section \<open>Sums in which one or two summands change\<close>

lemma sum_change_one:
  fixes f g :: "nat \<Rightarrow> 'a :: comm_monoid_add"
  assumes "k \<le> n" and "\<And>j. j \<le> n \<Longrightarrow> j \<noteq> k \<Longrightarrow> g j = f j" and "g k + c = f k + d"
  shows "(\<Sum>j\<le>n. g j) + c = (\<Sum>j\<le>n. f j) + d"
proof -
  have "(\<Sum>j\<in>{..n} - {k}. g j) = (\<Sum>j\<in>{..n} - {k}. f j)"
    using assms(2) by (intro sum.cong) auto
  moreover have "(\<Sum>j\<le>n. g j) = g k + (\<Sum>j\<in>{..n} - {k}. g j)"
    and "(\<Sum>j\<le>n. f j) = f k + (\<Sum>j\<in>{..n} - {k}. f j)"
    using assms(1) by (simp_all add: sum.remove)
  ultimately show ?thesis
    using assms(3) by (metis (no_types, lifting) add.assoc add.commute)
qed

lemma sum_change_two:
  fixes f g :: "nat \<Rightarrow> 'a :: comm_monoid_add"
  assumes "Suc k \<le> n" and "\<And>j. j \<le> n \<Longrightarrow> j \<noteq> k \<Longrightarrow> j \<noteq> Suc k \<Longrightarrow> g j = f j"
    and "g k + g (Suc k) = f k + f (Suc k)"
  shows "(\<Sum>j\<le>n. g j) = (\<Sum>j\<le>n. f j)"
proof -
  have *: "(\<Sum>j\<le>n. h j) = (h k + h (Suc k)) + (\<Sum>j\<in>{..n} - {k} - {Suc k}. h j)"
    for h :: "nat \<Rightarrow> 'a"
    using assms(1) by (simp add: sum.remove [of _ k] sum.remove [of _ "Suc k"] add.assoc)
  have "(\<Sum>j\<in>{..n} - {k} - {Suc k}. g j) = (\<Sum>j\<in>{..n} - {k} - {Suc k}. f j)"
    using assms(2) by (intro sum.cong) auto
  then show ?thesis unfolding * using assms(3) by simp
qed

lemma sum_change_one_slack:
  fixes f g :: "nat \<Rightarrow> nat"
  assumes "k \<le> n" and "\<And>j. j \<le> n \<Longrightarrow> j \<noteq> k \<Longrightarrow> g j = f j" and "g k + c < f k + d"
  shows "(\<Sum>j\<le>n. g j) + c < (\<Sum>j\<le>n. f j) + d"
  using sum_change_one [of k n g f "f k" "g k"] assms by simp

lemma sum_change_two_slack:
  fixes f g :: "nat \<Rightarrow> nat"
  assumes "Suc k \<le> n" and "\<And>j. j \<le> n \<Longrightarrow> j \<noteq> k \<Longrightarrow> j \<noteq> Suc k \<Longrightarrow> g j = f j"
    and "g k + g (Suc k) + c < f k + f (Suc k) + d"
  shows "(\<Sum>j\<le>n. g j) + c < (\<Sum>j\<le>n. f j) + d"
proof -
  have *: "(\<Sum>j\<le>n. h j) = (h k + h (Suc k)) + (\<Sum>j\<in>{..n} - {k} - {Suc k}. h j)"
    for h :: "nat \<Rightarrow> nat"
    using assms(1) by (simp add: sum.remove [of _ k] sum.remove [of _ "Suc k"] add.assoc)
  have "(\<Sum>j\<in>{..n} - {k} - {Suc k}. g j) = (\<Sum>j\<in>{..n} - {k} - {Suc k}. f j)"
    using assms(2) by (intro sum.cong) auto
  then show ?thesis unfolding * using assms(3) by simp
qed

lemmas sum_change_one_less = sum_change_one_slack [where c = 0 and d = 0, simplified]
lemmas sum_change_two_less = sum_change_two_slack [where c = 0 and d = 0, simplified]

lemma sum_list_replicate_empty [simp]: "sum_list (replicate n {#}) = {#}"
  by (induction n) auto

lemma mset_exchange:
  fixes a b c x y :: "'a multiset"
  assumes "a' + b' + c' = a + b + c" and "x' + b = x + b'"
  shows "(a' + x') + (c' + y) = (a + x) + (c + y)"
proof (rule multiset_eqI)
  fix z
  have "count (a' + b' + c') z = count (a + b + c) z" and "count (x' + b) z = count (x + b') z"
    using assms by simp_all
  then show "count ((a' + x') + (c' + y)) z = count ((a + x) + (c + y)) z" by simp
qed

section \<open>Chains of processing functions\<close>

text \<open>The composition of the processing functions that a value entering stage \<open>k\<close> still has to pass.\<close>

definition through :: "('v \<Rightarrow> 'v) list \<Rightarrow> nat \<Rightarrow> 'v \<Rightarrow> 'v" where
  "through funcs k v = fold (\<lambda>f x. f x) (drop k funcs) v"

lemma through_last [simp]: "length funcs \<le> k \<Longrightarrow> through funcs k v = v"
  by (simp add: through_def)

lemma through_step: "k < length funcs \<Longrightarrow> through funcs k v = through funcs (Suc k) ((funcs ! k) v)"
  by (simp add: through_def Cons_nth_drop_Suc [symmetric])

end
