(* ===== verification/Tmc.thy ===== *)
theory Tmc
  imports Prelude
begin

text \<open>
  The interface of the TooManyCooks primitives the programs use. The library is not part of the
  repository, so its primitives are parameters: a record of operations, and a predicate that states
  what the library documents about them. The definitions at the end (\<open>list_\<dots>\<close>) are concrete
  operations that satisfy the laws; they serve the closed examples of the development only.
\<close>

section \<open>Multi-producer multi-consumer channel (\<open>tmc::channel\<close>)\<close>

text \<open>
  \<open>ch_pull\<close> is one attempt of \<open>co_await chan.pull()\<close>: it delivers an element, or suspends
  (\<open>Suspended\<close>, the channel is empty and open), or returns an empty optional (\<open>Exhausted\<close>,
  the channel is closed and empty). \<open>ch_drained\<close> is the condition on which \<open>drain()\<close>
  resumes its caller after closing the channel.
\<close>

datatype 'a pulled = Item 'a | Suspended | Exhausted

record ('c, 'a) chan_ops =
  ch_make :: "'c"
  ch_post :: "'a \<Rightarrow> 'c \<Rightarrow> 'c"
  ch_pull :: "'c \<Rightarrow> 'a pulled \<times> 'c"
  ch_close :: "'c \<Rightarrow> 'c"
  ch_drained :: "'c \<Rightarrow> bool"

text \<open>
  The documented behaviour, through two observations of a channel: the multiset of the elements
  in it and whether it is closed. The order in which elements come out is left open.
\<close>

definition chan_laws ::
    "('c, 'a) chan_ops \<Rightarrow> ('c \<Rightarrow> 'a multiset) \<Rightarrow> ('c \<Rightarrow> bool) \<Rightarrow> bool" where
  "chan_laws C items closed \<longleftrightarrow>
     items (ch_make C) = {#} \<and> \<not> closed (ch_make C) \<and>
     (\<forall>c x. \<not> closed c \<longrightarrow>
        items (ch_post C x c) = add_mset x (items c) \<and> \<not> closed (ch_post C x c)) \<and>
     (\<forall>c. case ch_pull C c of
            (Item x, c') \<Rightarrow> x \<in># items c \<and> items c' = items c - {#x#} \<and> closed c' = closed c
          | (Suspended, c') \<Rightarrow> items c = {#} \<and> \<not> closed c
          | (Exhausted, c') \<Rightarrow>
              items c = {#} \<and> closed c \<and> items c' = {#} \<and> closed c') \<and>
     (\<forall>c. items (ch_close C c) = items c \<and> closed (ch_close C c)) \<and>
     (\<forall>c. closed c \<longrightarrow> ch_drained C c = (items c = {#}))"

lemma chan_make:
  assumes "chan_laws C items closed"
  shows "items (ch_make C) = {#}" and "\<not> closed (ch_make C)"
  using assms by (auto simp: chan_laws_def)

lemma chan_post:
  assumes "chan_laws C items closed" and "\<not> closed c"
  shows "items (ch_post C x c) = add_mset x (items c)" and "\<not> closed (ch_post C x c)"
  using assms by (auto simp: chan_laws_def)

lemma chan_close:
  assumes "chan_laws C items closed"
  shows "items (ch_close C c) = items c" and "closed (ch_close C c)"
  using assms by (auto simp: chan_laws_def)

lemma chan_drained:
  "chan_laws C items closed \<Longrightarrow> closed c \<Longrightarrow> ch_drained C c = (items c = {#})"
  by (auto simp: chan_laws_def)

lemma chan_pull_law:
  "chan_laws C items closed \<Longrightarrow>
     (case ch_pull C c of
        (Item x, c') \<Rightarrow> x \<in># items c \<and> items c' = items c - {#x#} \<and> closed c' = closed c
      | (Suspended, c') \<Rightarrow> items c = {#} \<and> \<not> closed c
      | (Exhausted, c') \<Rightarrow> items c = {#} \<and> closed c \<and> items c' = {#} \<and> closed c')"
  by (simp add: chan_laws_def)

lemma chan_pull_Item:
  "chan_laws C items closed \<Longrightarrow> ch_pull C c = (Item x, c') \<Longrightarrow>
   items c = add_mset x (items c') \<and> closed c' = closed c"
  using chan_pull_law [of C items closed c] by auto

lemma chan_pull_Exhausted:
  "chan_laws C items closed \<Longrightarrow> ch_pull C c = (Exhausted, c') \<Longrightarrow>
   items c = {#} \<and> closed c \<and> items c' = {#} \<and> closed c'"
  using chan_pull_law [of C items closed c] by auto

lemma chan_pull_Suspended:
  "chan_laws C items closed \<Longrightarrow> ch_pull C c = (Suspended, c') \<Longrightarrow> items c = {#} \<and> \<not> closed c"
  using chan_pull_law [of C items closed c] by auto

section \<open>Counting semaphore (\<open>tmc::semaphore\<close>)\<close>

text \<open>
  \<open>sm_acquire\<close> is one attempt of \<open>co_await sem\<close>; \<open>None\<close> means that the caller suspends.
\<close>

record 's sem_ops =
  sm_make :: "nat \<Rightarrow> 's"
  sm_release :: "nat \<Rightarrow> 's \<Rightarrow> 's"
  sm_acquire :: "'s \<Rightarrow> 's option"

definition sem_laws :: "'s sem_ops \<Rightarrow> ('s \<Rightarrow> nat) \<Rightarrow> bool" where
  "sem_laws S permits \<longleftrightarrow>
     (\<forall>n. permits (sm_make S n) = n) \<and>
     (\<forall>n s. permits (sm_release S n s) = permits s + n) \<and>
     (\<forall>s. case sm_acquire S s of
            None \<Rightarrow> permits s = 0
          | Some s' \<Rightarrow> permits s = Suc (permits s'))"

lemma sem_make: "sem_laws S permits \<Longrightarrow> permits (sm_make S n) = n"
  by (simp add: sem_laws_def)

lemma sem_release: "sem_laws S permits \<Longrightarrow> permits (sm_release S n s) = permits s + n"
  by (simp add: sem_laws_def)

lemma sem_acquire_law:
  "sem_laws S permits \<Longrightarrow>
     (case sm_acquire S s of None \<Rightarrow> permits s = 0 | Some s' \<Rightarrow> permits s = Suc (permits s'))"
  by (simp add: sem_laws_def)

lemma sem_acquire_Some:
  "sem_laws S permits \<Longrightarrow> sm_acquire S s = Some s' \<Longrightarrow> permits s = Suc (permits s')"
  using sem_acquire_law [of S permits s] by simp

lemma sem_acquire_None:
  "sem_laws S permits \<Longrightarrow> sm_acquire S s = None \<Longrightarrow> permits s = 0"
  using sem_acquire_law [of S permits s] by simp

section \<open>Bounded single-producer single-consumer queue (\<open>tmc::qu_spsc_bounded\<close>)\<close>

text \<open>
  \<open>sq_push\<close> is one attempt of \<open>co_await queue->push(x)\<close> (\<open>None\<close>: the queue is full and the
  producer suspends). \<open>sq_pull\<close> hands out a scope on the oldest element; the slot of the element
  stays occupied until the scope ends (\<open>sq_release\<close>), and only one scope is alive at a time.
\<close>

record ('q, 'e) spsc_ops =
  sq_make :: "nat \<Rightarrow> 'q"
  sq_push :: "'e \<Rightarrow> 'q \<Rightarrow> 'q option"
  sq_pull :: "'q \<Rightarrow> 'e pulled \<times> 'q"
  sq_release :: "'q \<Rightarrow> 'q"
  sq_close :: "'q \<Rightarrow> 'q"

text \<open>What can be observed of a queue.\<close>

record 'e qview =
  elems :: "'e list"      \<comment> \<open>pushed and not yet handed out, oldest first\<close>
  held :: bool            \<comment> \<open>a scope is alive\<close>
  cap :: nat
  shut :: bool

definition fill :: "'e qview \<Rightarrow> nat" where
  "fill v = length (elems v) + of_bool (held v)"

definition spsc_laws :: "('q, 'e) spsc_ops \<Rightarrow> ('q \<Rightarrow> 'e qview) \<Rightarrow> bool" where
  "spsc_laws Q view \<longleftrightarrow>
     (\<forall>n. view (sq_make Q n) = \<lparr>elems = [], held = False, cap = n, shut = False\<rparr>) \<and>
     (\<forall>q x. \<not> shut (view q) \<longrightarrow>
        (case sq_push Q x q of
           None \<Rightarrow> cap (view q) \<le> fill (view q)
         | Some q' \<Rightarrow> fill (view q) < cap (view q) \<and>
             view q' = (view q)\<lparr>elems := elems (view q) @ [x]\<rparr>)) \<and>
     (\<forall>q. \<not> held (view q) \<longrightarrow>
        (case sq_pull Q q of
           (Item x, q') \<Rightarrow> elems (view q) \<noteq> [] \<and> x = hd (elems (view q)) \<and>
             view q' = (view q)\<lparr>elems := tl (elems (view q)), held := True\<rparr>
         | (Suspended, q') \<Rightarrow> elems (view q) = [] \<and> \<not> shut (view q)
         | (Exhausted, q') \<Rightarrow> elems (view q) = [] \<and> shut (view q) \<and> view q' = view q)) \<and>
     (\<forall>q. view (sq_release Q q) = (view q)\<lparr>held := False\<rparr>) \<and>
     (\<forall>q. view (sq_close Q q) = (view q)\<lparr>shut := True\<rparr>)"

lemma spsc_make: "spsc_laws Q view \<Longrightarrow>
    view (sq_make Q n) = \<lparr>elems = [], held = False, cap = n, shut = False\<rparr>"
  by (simp add: spsc_laws_def)

lemma spsc_push_law:
  "spsc_laws Q view \<Longrightarrow> \<not> shut (view q) \<Longrightarrow>
     (case sq_push Q x q of
        None \<Rightarrow> cap (view q) \<le> fill (view q)
      | Some q' \<Rightarrow> fill (view q) < cap (view q) \<and>
          view q' = (view q)\<lparr>elems := elems (view q) @ [x]\<rparr>)"
  by (simp add: spsc_laws_def)

lemma spsc_push_Some:
  "spsc_laws Q view \<Longrightarrow> sq_push Q x q = Some q' \<Longrightarrow> \<not> shut (view q) \<Longrightarrow>
   fill (view q) < cap (view q) \<and> view q' = (view q)\<lparr>elems := elems (view q) @ [x]\<rparr>"
  using spsc_push_law [of Q view q x] by simp

lemma spsc_push_None:
  "spsc_laws Q view \<Longrightarrow> sq_push Q x q = None \<Longrightarrow> \<not> shut (view q) \<Longrightarrow> cap (view q) \<le> fill (view q)"
  using spsc_push_law [of Q view q x] by simp

lemma spsc_pull_law:
  "spsc_laws Q view \<Longrightarrow> \<not> held (view q) \<Longrightarrow>
     (case sq_pull Q q of
        (Item x, q') \<Rightarrow> elems (view q) \<noteq> [] \<and> x = hd (elems (view q)) \<and>
          view q' = (view q)\<lparr>elems := tl (elems (view q)), held := True\<rparr>
      | (Suspended, q') \<Rightarrow> elems (view q) = [] \<and> \<not> shut (view q)
      | (Exhausted, q') \<Rightarrow> elems (view q) = [] \<and> shut (view q) \<and> view q' = view q)"
  by (simp add: spsc_laws_def)

lemma spsc_pull_Item:
  "spsc_laws Q view \<Longrightarrow> sq_pull Q q = (Item x, q') \<Longrightarrow> \<not> held (view q) \<Longrightarrow>
   \<exists>es. elems (view q) = x # es \<and> view q' = (view q)\<lparr>elems := es, held := True\<rparr>"
  using spsc_pull_law [of Q view q] by (cases "elems (view q)") auto

lemma spsc_pull_Suspended:
  "spsc_laws Q view \<Longrightarrow> sq_pull Q q = (Suspended, q') \<Longrightarrow> \<not> held (view q) \<Longrightarrow>
   elems (view q) = [] \<and> \<not> shut (view q)"
  using spsc_pull_law [of Q view q] by auto

lemma spsc_pull_Exhausted:
  "spsc_laws Q view \<Longrightarrow> sq_pull Q q = (Exhausted, q') \<Longrightarrow> \<not> held (view q) \<Longrightarrow>
   elems (view q) = [] \<and> shut (view q) \<and> view q' = view q"
  using spsc_pull_law [of Q view q] by auto

lemma spsc_release: "spsc_laws Q view \<Longrightarrow> view (sq_release Q q) = (view q)\<lparr>held := False\<rparr>"
  by (simp add: spsc_laws_def)

lemma spsc_close: "spsc_laws Q view \<Longrightarrow> view (sq_close Q q) = (view q)\<lparr>shut := True\<rparr>"
  by (simp add: spsc_laws_def)

section \<open>Concrete instances for closed examples\<close>

definition list_chan :: "('a list \<times> bool, 'a) chan_ops" where
  "list_chan = \<lparr>
     ch_make = ([], False),
     ch_post = (\<lambda>x (xs, cl). (xs @ [x], cl)),
     ch_pull = (\<lambda>(xs, cl). case xs of
        [] \<Rightarrow> (if cl then Exhausted else Suspended, (xs, cl))
      | y # ys \<Rightarrow> (Item y, (ys, cl))),
     ch_close = (\<lambda>(xs, cl). (xs, True)),
     ch_drained = (\<lambda>(xs, cl). xs = []) \<rparr>"

definition list_items :: "'a list \<times> bool \<Rightarrow> 'a multiset" where
  "list_items c = mset (fst c)"

lemma list_chan_laws: "chan_laws list_chan list_items snd"
  by (auto simp: chan_laws_def list_chan_def list_items_def split: list.splits)

definition nat_sem :: "nat sem_ops" where
  "nat_sem = \<lparr> sm_make = (\<lambda>n. n), sm_release = (\<lambda>n s. s + n),
               sm_acquire = (\<lambda>s. case s of 0 \<Rightarrow> None | Suc s' \<Rightarrow> Some s') \<rparr>"

lemma nat_sem_laws: "sem_laws nat_sem (\<lambda>s. s)"
  by (auto simp: sem_laws_def nat_sem_def split: nat.splits)

definition view_spsc :: "('e qview, 'e) spsc_ops" where
  "view_spsc = \<lparr>
     sq_make = (\<lambda>n. \<lparr>elems = [], held = False, cap = n, shut = False\<rparr>),
     sq_push = (\<lambda>x v. if fill v < cap v then Some (v\<lparr>elems := elems v @ [x]\<rparr>) else None),
     sq_pull = (\<lambda>v. case elems v of
        [] \<Rightarrow> (if shut v then Exhausted else Suspended, v)
      | x # xs \<Rightarrow> (Item x, v\<lparr>elems := xs, held := True\<rparr>)),
     sq_release = (\<lambda>v. v\<lparr>held := False\<rparr>),
     sq_close = (\<lambda>v. v\<lparr>shut := True\<rparr>) \<rparr>"

lemma view_spsc_laws: "spsc_laws view_spsc (\<lambda>v. v)"
  by (auto simp: spsc_laws_def view_spsc_def split: list.splits)

end
