(* ===== verification/Pipeline.thy ===== *)
theory Pipeline
  imports Tmc
begin

text \<open>
  The out-of-order pipeline of \<open>examples/pipeline.hpp\<close> and the producer of
  \<open>examples/pipeline.cpp\<close>: stages of concurrent workers joined by channels, with one semaphore
  per channel for backpressure. The channels and semaphores are the library's (theory \<open>Tmc\<close>).
  A step is one coroutine running to its next suspension point or visible effect.
\<close>

section \<open>Workers\<close>

text \<open>
  Where a worker is in the body of its \<open>while (auto input = co_await inChan.pull())\<close> loop, with
  the value it holds: waiting for an input, about to release the input semaphore, waiting for the
  output semaphore, about to call the processing function, about to post the result, returned.
\<close>

datatype ('a, 'b) wpc = WPull | WRelease 'a | WAcquire 'a | WProcess 'a | WPost 'b | WDone

text \<open>
  \<open>pipeline_stage::worker\<close>. The semaphore arguments are pointers that may be null. The processing
  function may be a coroutine or a regular function; either way its result is posted.
\<close>

fun stage_worker ::
    "('ci, 'a) chan_ops \<Rightarrow> ('co, 'b) chan_ops \<Rightarrow> 's sem_ops \<Rightarrow> ('a \<Rightarrow> 'b) \<Rightarrow>
     ('a, 'b) wpc \<Rightarrow> 'ci \<Rightarrow> 's option \<Rightarrow> 'co \<Rightarrow> 's option \<Rightarrow>
     (('a, 'b) wpc \<times> 'ci \<times> 's option \<times> 'co \<times> 's option) option" where
  "stage_worker CI CO S func WPull inChan inSem outChan outSem =
     (case ch_pull CI inChan of
        (Item v, inChan') \<Rightarrow> Some (WRelease v, inChan', inSem, outChan, outSem)
      | (Suspended, _) \<Rightarrow> None
      | (Exhausted, inChan') \<Rightarrow> Some (WDone, inChan', inSem, outChan, outSem))"
| "stage_worker CI CO S func (WRelease v) inChan inSem outChan outSem =
     Some (WAcquire v, inChan, map_option (sm_release S 1) inSem, outChan, outSem)"
| "stage_worker CI CO S func (WAcquire v) inChan inSem outChan outSem =
     (case outSem of
        None \<Rightarrow> Some (WProcess v, inChan, inSem, outChan, None)
      | Some os \<Rightarrow>
          (case sm_acquire S os of
             None \<Rightarrow> None
           | Some os' \<Rightarrow> Some (WProcess v, inChan, inSem, outChan, Some os')))"
| "stage_worker CI CO S func (WProcess v) inChan inSem outChan outSem =
     Some (WPost (func v), inChan, inSem, outChan, outSem)"
| "stage_worker CI CO S func (WPost r) inChan inSem outChan outSem =
     Some (WPull, inChan, inSem, ch_post CO r outChan, outSem)"
| "stage_worker CI CO S func WDone inChan inSem outChan outSem = None"

text \<open>
  \<open>pipeline_end_stage::worker\<close>. Its semaphore is never null, and its function acts on state the
  caller captured (\<open>'x\<close>) instead of returning a value.
\<close>

fun end_worker ::
    "('ci, 'a) chan_ops \<Rightarrow> 's sem_ops \<Rightarrow> ('a \<Rightarrow> 'x \<Rightarrow> 'x) \<Rightarrow>
     ('a, 'b) wpc \<Rightarrow> 'ci \<Rightarrow> 's \<Rightarrow> 'x \<Rightarrow> (('a, 'b) wpc \<times> 'ci \<times> 's \<times> 'x) option" where
  "end_worker CI S func WPull inChan inSem x =
     (case ch_pull CI inChan of
        (Item v, inChan') \<Rightarrow> Some (WRelease v, inChan', inSem, x)
      | (Suspended, _) \<Rightarrow> None
      | (Exhausted, inChan') \<Rightarrow> Some (WDone, inChan', inSem, x))"
| "end_worker CI S func (WRelease v) inChan inSem x =
     Some (WProcess v, inChan, sm_release S 1 inSem, x)"
| "end_worker CI S func (WProcess v) inChan inSem x = Some (WPull, inChan, inSem, func v x)"
| "end_worker CI S func _ inChan inSem x = None"

section \<open>The whole pipeline\<close>

text \<open>
  The task each stage forks to close its output channel: joining the workers of the stage,
  closing the channel (\<open>drain()\<close> closes it), waiting for the channel to drain, returned.
\<close>

datatype closer = CJoin | CClose | CDrain | CDone

text \<open>
  The producer of \<open>pipeline.cpp\<close>: at the head of its loop (\<open>co_await inputSem\<close>), about to post,
  about to close the channel, waiting for it to drain, awaiting the fork group, returned.
\<close>

datatype 'v driver = DLoop | DPost 'v | DClose | DDrain | DJoin | DDone

record ('v, 'c, 's, 'x) pipe =
  pending :: "'v list"
  driver :: "'v driver"
  chans :: "'c list"              \<comment> \<open>channel \<open>k\<close> is the input of stage \<open>k\<close>\<close>
  sems :: "'s list"               \<comment> \<open>semaphore \<open>k\<close> bounds channel \<open>k\<close>\<close>
  workers :: "('v, 'v) wpc list list"
  closers :: "closer list"
  sink :: "'x"

datatype agent = Driver | Worker nat nat | Closer nat

subsection \<open>Construction\<close>

text \<open>
  The caller's channel and \<open>tmc::semaphore inputSem(0)\<close>; then the constructor of
  \<open>pipeline_stage\<close> for each stage, which raises the capacity of the stage's input semaphore and
  makes an output channel and a semaphore of capacity 0; then that of \<open>pipeline_end_stage\<close>.
\<close>

definition pipe_source :: "('c, 'v) chan_ops \<Rightarrow> 's sem_ops \<Rightarrow> 'v list \<Rightarrow> 'x \<Rightarrow> ('v, 'c, 's, 'x) pipe" where
  "pipe_source C S inputs x0 =
     \<lparr> pending = inputs, driver = DLoop, chans = [ch_make C], sems = [sm_make S 0],
       workers = [], closers = [], sink = x0 \<rparr>"

definition pipeline_stage ::
    "('c, 'v) chan_ops \<Rightarrow> 's sem_ops \<Rightarrow> nat \<Rightarrow> ('v, 'c, 's, 'x) pipe \<Rightarrow> ('v, 'c, 's, 'x) pipe" where
  "pipeline_stage C S workerCount p =
     (let k = length (workers p) in
      p\<lparr> chans := chans p @ [ch_make C],
         sems := (sems p)[k := sm_release S (2 * workerCount) (sems p ! k)] @ [sm_make S 0],
         workers := workers p @ [replicate workerCount WPull],
         closers := closers p @ [CJoin] \<rparr>)"

definition pipeline_end_stage ::
    "('c, 'v) chan_ops \<Rightarrow> 's sem_ops \<Rightarrow> nat \<Rightarrow> ('v, 'c, 's, 'x) pipe \<Rightarrow> ('v, 'c, 's, 'x) pipe" where
  "pipeline_end_stage C S workerCount p =
     (let k = length (workers p) in
      p\<lparr> sems := (sems p)[k := sm_release S (2 * workerCount) (sems p ! k)],
         workers := workers p @ [replicate workerCount WPull] \<rparr>)"

definition pipe_init ::
    "('c, 'v) chan_ops \<Rightarrow> 's sem_ops \<Rightarrow> nat list \<Rightarrow> nat \<Rightarrow> 'v list \<Rightarrow> 'x \<Rightarrow> ('v, 'c, 's, 'x) pipe" where
  "pipe_init C S stageWorkers endWorkers inputs x0 =
     pipeline_end_stage C S endWorkers
       (fold (pipeline_stage C S) stageWorkers (pipe_source C S inputs x0))"

subsection \<open>Steps\<close>

fun driver_step ::
    "('c, 'v) chan_ops \<Rightarrow> 's sem_ops \<Rightarrow> ('v, 'c, 's, 'x) pipe \<Rightarrow> ('v, 'c, 's, 'x) pipe option" where
  "driver_step C S p =
     (case driver p of
        DLoop \<Rightarrow>
          (case pending p of
             [] \<Rightarrow> Some (p\<lparr>driver := DClose\<rparr>)
           | v # vs \<Rightarrow>
               (case sm_acquire S (sems p ! 0) of
                  None \<Rightarrow> None
                | Some s \<Rightarrow> Some (p\<lparr>driver := DPost v, pending := vs, sems := (sems p)[0 := s]\<rparr>)))
      | DPost v \<Rightarrow> Some (p\<lparr>driver := DLoop, chans := (chans p)[0 := ch_post C v (chans p ! 0)]\<rparr>)
      | DClose \<Rightarrow> Some (p\<lparr>driver := DDrain, chans := (chans p)[0 := ch_close C (chans p ! 0)]\<rparr>)
      | DDrain \<Rightarrow> (if ch_drained C (chans p ! 0) then Some (p\<lparr>driver := DJoin\<rparr>) else None)
      | DJoin \<Rightarrow>
          (if list_all (\<lambda>c. c = CDone) (closers p) \<and> list_all (\<lambda>w. w = WDone) (last (workers p))
           then Some (p\<lparr>driver := DDone\<rparr>) else None)
      | DDone \<Rightarrow> None)"

definition worker_step ::
    "('c, 'v) chan_ops \<Rightarrow> 's sem_ops \<Rightarrow> ('v \<Rightarrow> 'v) list \<Rightarrow> ('v \<Rightarrow> 'x \<Rightarrow> 'x) \<Rightarrow>
     nat \<Rightarrow> nat \<Rightarrow> ('v, 'c, 's, 'x) pipe \<Rightarrow> ('v, 'c, 's, 'x) pipe option" where
  "worker_step C S funcs consume k w p =
     (if k < length (workers p) \<and> w < length (workers p ! k) then
        (if k < length funcs then
           (case stage_worker C C S (funcs ! k) (workers p ! k ! w)
                   (chans p ! k) (Some (sems p ! k)) (chans p ! Suc k) (Some (sems p ! Suc k)) of
              Some (pc, ic, Some is, oc, Some os) \<Rightarrow>
                Some (p\<lparr> workers := (workers p)[k := (workers p ! k)[w := pc]],
                         chans := (chans p)[k := ic, Suc k := oc],
                         sems := (sems p)[k := is, Suc k := os] \<rparr>)
            | _ \<Rightarrow> None)
         else
           (case end_worker C S consume (workers p ! k ! w) (chans p ! k) (sems p ! k) (sink p) of
              None \<Rightarrow> None
            | Some (pc, ic, is, x) \<Rightarrow>
                Some (p\<lparr> workers := (workers p)[k := (workers p ! k)[w := pc]],
                         chans := (chans p)[k := ic],
                         sems := (sems p)[k := is],
                         sink := x \<rparr>)))
      else None)"

definition closer_step ::
    "('c, 'v) chan_ops \<Rightarrow> nat \<Rightarrow> ('v, 'c, 's, 'x) pipe \<Rightarrow> ('v, 'c, 's, 'x) pipe option" where
  "closer_step C k p =
     (if k < length (closers p) then
        (case closers p ! k of
           CJoin \<Rightarrow>
             (if list_all (\<lambda>w. w = WDone) (workers p ! k)
              then Some (p\<lparr>closers := (closers p)[k := CClose]\<rparr>) else None)
         | CClose \<Rightarrow>
             Some (p\<lparr> closers := (closers p)[k := CDrain],
                      chans := (chans p)[Suc k := ch_close C (chans p ! Suc k)] \<rparr>)
         | CDrain \<Rightarrow>
             (if ch_drained C (chans p ! Suc k)
              then Some (p\<lparr>closers := (closers p)[k := CDone]\<rparr>) else None)
         | CDone \<Rightarrow> None)
      else None)"

fun pipe_step ::
    "('c, 'v) chan_ops \<Rightarrow> 's sem_ops \<Rightarrow> ('v \<Rightarrow> 'v) list \<Rightarrow> ('v \<Rightarrow> 'x \<Rightarrow> 'x) \<Rightarrow>
     agent \<Rightarrow> ('v, 'c, 's, 'x) pipe \<Rightarrow> ('v, 'c, 's, 'x) pipe option" where
  "pipe_step C S funcs consume Driver p = driver_step C S p"
| "pipe_step C S funcs consume (Worker k w) p = worker_step C S funcs consume k w p"
| "pipe_step C S funcs consume (Closer k) p = closer_step C k p"

end
