(* ===== verification/Pipeline_Inv.thy ===== *)
theory Pipeline_Inv
  imports Pipeline
begin

text \<open>
  The invariant of the out-of-order pipeline, kept by every step of every coroutine: the shape of
  the state, the capacity equation of each channel, the conservation of the values in flight, and
  the order in which the channels close.
\<close>

section \<open>What a worker holds\<close>

text \<open>Pulled from the input channel, but its permit not yet given back.\<close>

fun hold_in :: "('a, 'b) wpc \<Rightarrow> nat" where
  "hold_in (WRelease v) = 1"
| "hold_in _ = 0"

text \<open>A permit of the output channel is taken, but the result not yet posted.\<close>

fun hold_out :: "('a, 'b) wpc \<Rightarrow> nat" where
  "hold_out (WProcess v) = 1"
| "hold_out (WPost r) = 1"
| "hold_out _ = 0"

text \<open>The value in hand, as the end of the pipeline will see it.\<close>

fun flight :: "('v \<Rightarrow> 'v) list \<Rightarrow> nat \<Rightarrow> ('v, 'v) wpc \<Rightarrow> 'v multiset" where
  "flight funcs k (WRelease v) = {#through funcs k v#}"
| "flight funcs k (WAcquire v) = {#through funcs k v#}"
| "flight funcs k (WProcess v) = {#through funcs k v#}"
| "flight funcs k (WPost r) = {#through funcs (Suc k) r#}"
| "flight funcs k _ = {#}"

text \<open>The steps a value in channel \<open>k\<close> of a pipeline with \<open>N\<close> transforming stages still causes.\<close>

definition cost :: "nat \<Rightarrow> nat \<Rightarrow> nat" where
  "cost N k = 5 * (N - k) + 4"

fun pc_work :: "nat \<Rightarrow> nat \<Rightarrow> ('a, 'b) wpc \<Rightarrow> nat" where
  "pc_work N k WPull = 1"
| "pc_work N k (WRelease v) = cost N k"
| "pc_work N k (WAcquire v) = cost N k - 1"
| "pc_work N k (WProcess v) = cost N k - 2"
| "pc_work N k (WPost r) = cost N k - 3"
| "pc_work N k WDone = 0"

lemma cost_step: "k < N \<Longrightarrow> cost N k = cost N (Suc k) + 5"
  by (simp add: cost_def)

lemma cost_last: "cost N N = 4"
  by (simp add: cost_def)

section \<open>One step of one worker\<close>

lemma stage_worker_sems:
  "stage_worker CI CO S f pc ic (Some is) oc (Some os) = Some (pc', ic', is', oc', os') \<Longrightarrow>
   is' \<noteq> None \<and> os' \<noteq> None"
  by (cases pc) (auto split: prod.splits pulled.splits option.splits dest: sym)

lemma stage_worker_local:
  assumes C: "chan_laws C items closed" and S: "sem_laws S permits"
    and step: "stage_worker C C S (funcs ! k) pc ic (Some is) oc (Some os) =
                 Some (pc', ic', Some is1, oc', Some os1)"
    and k: "k < length funcs" and oc: "\<not> closed oc"
  shows "permits is1 + size (items ic') + hold_in pc' = permits is + size (items ic) + hold_in pc"
    and "permits os1 + size (items oc') + hold_out pc' = permits os + size (items oc) + hold_out pc"
    and "image_mset (through funcs k) (items ic') + flight funcs k pc'
         + image_mset (through funcs (Suc k)) (items oc')
       = image_mset (through funcs k) (items ic) + flight funcs k pc
         + image_mset (through funcs (Suc k)) (items oc)"
    and "closed ic' = closed ic" "closed oc' = closed oc"
    and "items ic' \<subseteq># items ic" "pc \<noteq> WDone"
    and "pc' = WDone \<Longrightarrow> closed ic \<and> items ic' = {#}"
  using step k oc
  by (cases pc; auto split: prod.splits pulled.splits option.splits
        dest!: chan_pull_Item [OF C] chan_pull_Exhausted [OF C] sem_acquire_Some [OF S]
               sem_acquire_Some [OF S, OF sym]
        simp: chan_post [OF C] sem_release [OF S] through_step)+

lemma stage_worker_work:
  assumes C: "chan_laws C items closed"
    and step: "stage_worker C C S (funcs ! k) pc ic (Some is) oc (Some os) =
                 Some (pc', ic', Some is1, oc', Some os1)"
    and k: "k < N" and oc: "\<not> closed oc"
  shows "size (items ic') * cost N k + pc_work N k pc' + size (items oc') * cost N (Suc k)
     < size (items ic) * cost N k + pc_work N k pc + size (items oc) * cost N (Suc k)"
  using step k oc
  by (cases pc; auto split: prod.splits pulled.splits option.splits
        dest!: chan_pull_Item [OF C] chan_pull_Exhausted [OF C]
        simp: chan_post [OF C] cost_step)

lemma end_worker_local:
  assumes C: "chan_laws C items closed" and S: "sem_laws S permits"
    and step: "end_worker C S consume pc ic is x = Some (pc', ic', is', x')"
  shows "permits is' + size (items ic') + hold_in pc' = permits is + size (items ic) + hold_in pc"
    and "closed ic' = closed ic"
    and "items ic' \<subseteq># items ic" "pc \<noteq> WDone"
    and "pc' = WDone \<Longrightarrow> closed ic \<and> items ic' = {#}"
  using step
  by (cases pc; auto split: prod.splits pulled.splits
        dest!: chan_pull_Item [OF C] chan_pull_Exhausted [OF C]
        simp: sem_release [OF S])+

lemma end_worker_work:
  assumes C: "chan_laws C items closed"
    and step: "end_worker C S consume pc ic is x = Some (pc', ic', is', x')"
  shows "size (items ic') * cost N N + pc_work N N pc'
     < size (items ic) * cost N N + pc_work N N pc"
  using step
  by (cases pc; auto split: prod.splits pulled.splits
        dest!: chan_pull_Item [OF C] chan_pull_Exhausted [OF C]
        simp: cost_last)

fun sinking :: "('a, 'b) wpc \<Rightarrow> bool" where
  "sinking (WAcquire v) = False"
| "sinking (WPost r) = False"
| "sinking _ = True"

lemma end_worker_sinking:
  "end_worker C S consume pc ic is x = Some (pc', ic', is', x') \<Longrightarrow> sinking pc'"
  by (cases pc) (auto split: prod.splits pulled.splits)

lemma end_worker_log:
  assumes C: "chan_laws C items closed"
    and step: "end_worker C S consume pc ic is x = Some (pc', ic', is', x')"
    and N: "N = length funcs"
  shows "\<exists>log. x' = fold consume log x \<and>
      image_mset (through funcs N) (items ic') + flight funcs N pc' + mset log
      = image_mset (through funcs N) (items ic) + flight funcs N pc"
proof (cases pc)
  case (WProcess v)
  with step N show ?thesis by (intro exI [of _ "[v]"]) auto
qed (use step N in \<open>auto split: prod.splits pulled.splits intro!: exI [of _ "[]"]
       dest!: chan_pull_Item [OF C] chan_pull_Exhausted [OF C]\<close>)

section \<open>The invariant\<close>

text \<open>Its shape: one channel, semaphore and row of workers per stage; \<open>N\<close> transforming stages.\<close>

definition pipe_shape :: "nat \<Rightarrow> nat list \<Rightarrow> ('v, 'c, 's, 'x) pipe \<Rightarrow> bool" where
  "pipe_shape N ws p \<longleftrightarrow>
     length (chans p) = Suc N \<and> length (sems p) = Suc N \<and> length (workers p) = Suc N \<and>
     length ws = Suc N \<and> length (closers p) = N \<and>
     (\<forall>k\<le>N. length (workers p ! k) = ws ! k) \<and> list_all sinking (workers p ! N)"

text \<open>
  The capacity equation of channel \<open>k\<close>: the free permits, the elements in the channel, the
  elements about to be posted and the elements whose permit is about to be given back add up to
  twice the number of the stage's workers.
\<close>

fun drv_hold :: "'v driver \<Rightarrow> nat" where
  "drv_hold (DPost v) = 1"
| "drv_hold _ = 0"

fun posting :: "('v, 'c, 's, 'x) pipe \<Rightarrow> nat \<Rightarrow> nat" where
  "posting p 0 = drv_hold (driver p)"
| "posting p (Suc k) = sum_list (map hold_out (workers p ! k))"

definition in_use ::
    "('c \<Rightarrow> 'v multiset) \<Rightarrow> ('v, 'c, 's, 'x) pipe \<Rightarrow> nat \<Rightarrow> nat" where
  "in_use items p k =
     size (items (chans p ! k)) + posting p k + sum_list (map hold_in (workers p ! k))"

definition pipe_capacity ::
    "('c \<Rightarrow> 'v multiset) \<Rightarrow> ('s \<Rightarrow> nat) \<Rightarrow> nat \<Rightarrow> nat list \<Rightarrow> ('v, 'c, 's, 'x) pipe \<Rightarrow> bool" where
  "pipe_capacity items permits N ws p \<longleftrightarrow>
     (\<forall>k\<le>N. permits (sems p ! k) + in_use items p k = 2 * ws ! k)"

text \<open>Conservation: what was consumed and what is still in flight is what was put in.\<close>

fun drv_flight :: "('v \<Rightarrow> 'v) list \<Rightarrow> 'v driver \<Rightarrow> 'v multiset" where
  "drv_flight funcs (DPost v) = {#through funcs 0 v#}"
| "drv_flight funcs _ = {#}"

definition stage_load ::
    "('v \<Rightarrow> 'v) list \<Rightarrow> ('c \<Rightarrow> 'v multiset) \<Rightarrow> ('v, 'c, 's, 'x) pipe \<Rightarrow> nat \<Rightarrow> 'v multiset" where
  "stage_load funcs items p k =
     image_mset (through funcs k) (items (chans p ! k)) +
     sum_list (map (flight funcs k) (workers p ! k))"

definition source_load :: "('v \<Rightarrow> 'v) list \<Rightarrow> ('v, 'c, 's, 'x) pipe \<Rightarrow> 'v multiset" where
  "source_load funcs p =
     image_mset (through funcs 0) (mset (pending p)) + drv_flight funcs (driver p)"

definition pipe_flow ::
    "('v \<Rightarrow> 'v) list \<Rightarrow> ('c \<Rightarrow> 'v multiset) \<Rightarrow> ('v \<Rightarrow> 'x \<Rightarrow> 'x) \<Rightarrow> 'x \<Rightarrow> 'v list \<Rightarrow>
     ('v, 'c, 's, 'x) pipe \<Rightarrow> bool" where
  "pipe_flow funcs items consume x0 inputs p \<longleftrightarrow>
     (\<exists>log. sink p = fold consume log x0 \<and>
        source_load funcs p + (\<Sum>k\<le>length funcs. stage_load funcs items p k) + mset log
        = image_mset (through funcs 0) (mset inputs))"

text \<open>
  Closing: a channel is closed only when its producers are done, a worker has returned only when
  its channel is closed and empty, and the producer waits for the fork group only with nothing left.
\<close>

definition pipe_closing ::
    "('c \<Rightarrow> 'v multiset) \<Rightarrow> ('c \<Rightarrow> bool) \<Rightarrow> nat \<Rightarrow> ('v, 'c, 's, 'x) pipe \<Rightarrow> bool" where
  "pipe_closing items closed N p \<longleftrightarrow>
     (\<forall>k\<le>N. WDone \<in> set (workers p ! k) \<longrightarrow> closed (chans p ! k) \<and> items (chans p ! k) = {#}) \<and>
     (\<forall>k<N. closed (chans p ! Suc k) = (closers p ! k \<in> {CDrain, CDone})) \<and>
     (\<forall>k<N. closers p ! k \<noteq> CJoin \<longrightarrow> list_all (\<lambda>w. w = WDone) (workers p ! k)) \<and>
     closed (chans p ! 0) = (driver p \<in> {DDrain, DJoin, DDone}) \<and>
     (driver p \<in> {DClose, DDrain, DJoin, DDone} \<longrightarrow> pending p = []) \<and>
     (driver p = DDone \<longrightarrow>
        list_all (\<lambda>c. c = CDone) (closers p) \<and> list_all (\<lambda>w. w = WDone) (workers p ! N))"

lemma pipe_closingI:
  assumes "\<And>k. k \<le> N \<Longrightarrow>
      WDone \<in> set (workers p ! k) \<longrightarrow> closed (chans p ! k) \<and> items (chans p ! k) = {#}"
    and "\<And>k. k < N \<Longrightarrow> closed (chans p ! Suc k) = (closers p ! k \<in> {CDrain, CDone})"
    and "\<And>k. k < N \<Longrightarrow> closers p ! k \<noteq> CJoin \<longrightarrow> list_all (\<lambda>w. w = WDone) (workers p ! k)"
    and "closed (chans p ! 0) = (driver p \<in> {DDrain, DJoin, DDone})"
    and "driver p \<in> {DClose, DDrain, DJoin, DDone} \<longrightarrow> pending p = []"
    and "driver p = DDone \<longrightarrow>
        list_all (\<lambda>c. c = CDone) (closers p) \<and> list_all (\<lambda>w. w = WDone) (workers p ! N)"
  shows "pipe_closing items closed N p"
  using assms(1-3) unfolding pipe_closing_def
  by (intro conjI [OF _ conjI [OF _ conjI [OF _ conjI [OF assms(4) conjI [OF assms(5) assms(6)]]]]])
    blast+

section \<open>The effect of a worker's step\<close>

lemma worker_stage_cases:
  assumes step: "worker_step C S funcs consume k w p = Some p'" and k: "k < length funcs"
  obtains pc ic is1 oc os1 where
    "k < length (workers p)" "w < length (workers p ! k)"
    "stage_worker C C S (funcs ! k) (workers p ! k ! w) (chans p ! k) (Some (sems p ! k))
       (chans p ! Suc k) (Some (sems p ! Suc k)) = Some (pc, ic, Some is1, oc, Some os1)"
    "p' = p\<lparr> workers := (workers p)[k := (workers p ! k)[w := pc]],
             chans := (chans p)[k := ic, Suc k := oc],
             sems := (sems p)[k := is1, Suc k := os1] \<rparr>"
  using step k unfolding worker_step_def
  by (auto split: if_splits option.splits prod.splits)

lemma worker_end_cases:
  assumes step: "worker_step C S funcs consume k w p = Some p'" and k: "\<not> k < length funcs"
  obtains pc ic is1 x where
    "k < length (workers p)" "w < length (workers p ! k)"
    "end_worker C S consume (workers p ! k ! w) (chans p ! k) (sems p ! k) (sink p)
       = Some (pc, ic, is1, x)"
    "p' = p\<lparr> workers := (workers p)[k := (workers p ! k)[w := pc]],
             chans := (chans p)[k := ic], sems := (sems p)[k := is1], sink := x \<rparr>"
  using step k unfolding worker_step_def
  by (auto split: if_splits option.splits prod.splits)

lemma working_open:
  assumes "pipe_closing items closed N p" and "k < N" and "w < length (workers p ! k)"
    and "workers p ! k ! w \<noteq> WDone"
  shows "\<not> closed (chans p ! Suc k)"
  using assms by (auto simp: pipe_closing_def list_all_length)

lemma worker_not_done:
  "worker_step C S funcs consume k w p = Some p' \<Longrightarrow> workers p ! k ! w \<noteq> WDone"
  by (auto simp: worker_step_def split: if_splits)

lemma worker_shape:
  assumes step: "worker_step C S funcs consume k w p = Some p'"
    and shape: "pipe_shape (length funcs) ws p"
  shows "pipe_shape (length funcs) ws p'"
proof (cases "k < length funcs")
  case True
  then show ?thesis
    using step shape by (elim worker_stage_cases) (auto simp: pipe_shape_def nth_list_update)
next
  case False
  from step False obtain pc ic is1 x where
    e: "k < length (workers p)" "w < length (workers p ! k)"
    "end_worker C S consume (workers p ! k ! w) (chans p ! k) (sems p ! k) (sink p)
       = Some (pc, ic, is1, x)"
    and p': "p' = p\<lparr> workers := (workers p)[k := (workers p ! k)[w := pc]],
             chans := (chans p)[k := ic], sems := (sems p)[k := is1], sink := x \<rparr>"
    by (rule worker_end_cases)
  from e(3) have "sinking pc" by (rule end_worker_sinking)
  moreover have "k = length funcs" using shape e(1) False by (simp add: pipe_shape_def)
  ultimately show ?thesis
    using shape e(1,2) unfolding p'
    by (auto simp: pipe_shape_def nth_list_update list_all_iff dest!: set_update_le)
qed

lemma worker_capacity:
  assumes C: "chan_laws C items closed" and S: "sem_laws S permits"
    and step: "worker_step C S funcs consume k w p = Some p'"
    and shape: "pipe_shape (length funcs) ws p" and cl: "pipe_closing items closed (length funcs) p"
    and cap: "pipe_capacity items permits (length funcs) ws p"
  shows "pipe_capacity items permits (length funcs) ws p'"
proof (cases "k < length funcs")
  case True
  from step True obtain pc ic is1 oc os1 where
    wk: "k < length (workers p)" "w < length (workers p ! k)"
    and loc: "stage_worker C C S (funcs ! k) (workers p ! k ! w) (chans p ! k) (Some (sems p ! k))
       (chans p ! Suc k) (Some (sems p ! Suc k)) = Some (pc, ic, Some is1, oc, Some os1)"
    and p': "p' = p\<lparr> workers := (workers p)[k := (workers p ! k)[w := pc]],
             chans := (chans p)[k := ic, Suc k := oc],
             sems := (sems p)[k := is1, Suc k := os1] \<rparr>"
    by (rule worker_stage_cases)
  have op: "\<not> closed (chans p ! Suc k)"
    using working_open [OF cl True wk(2) worker_not_done [OF step]] .
  note l = stage_worker_local(1,2) [OF C S loc True op]
  have len: "length (chans p) = Suc (length funcs)" "length (sems p) = Suc (length funcs)"
    "length (workers p) = Suc (length funcs)"
    using shape by (auto simp: pipe_shape_def)
  have "permits (sems p' ! j) + in_use items p' j = 2 * ws ! j" if j: "j \<le> length funcs" for j
  proof -
    have old: "permits (sems p ! j) + in_use items p j = 2 * ws ! j"
      using cap j by (simp add: pipe_capacity_def)
    have up: "sum_list (map hold_in ((workers p ! k)[w := pc])) + hold_in (workers p ! k ! w)
        = sum_list (map hold_in (workers p ! k)) + hold_in pc"
      "sum_list (map hold_out ((workers p ! k)[w := pc])) + hold_out (workers p ! k ! w)
        = sum_list (map hold_out (workers p ! k)) + hold_out pc"
      using wk(2) by (rule sum_map_update)+
    show ?thesis
      using old l up True len j
      by (cases j) (auto simp: p' in_use_def nth_list_update)
  qed
  then show ?thesis by (simp add: pipe_capacity_def)
next
  case False
  from step False obtain pc ic is1 x where
    wk: "k < length (workers p)" "w < length (workers p ! k)"
    and loc: "end_worker C S consume (workers p ! k ! w) (chans p ! k) (sems p ! k) (sink p)
       = Some (pc, ic, is1, x)"
    and p': "p' = p\<lparr> workers := (workers p)[k := (workers p ! k)[w := pc]],
             chans := (chans p)[k := ic], sems := (sems p)[k := is1], sink := x \<rparr>"
    by (rule worker_end_cases)
  note l = end_worker_local(1) [OF C S loc]
  have len: "length (chans p) = Suc (length funcs)" "length (sems p) = Suc (length funcs)"
    "length (workers p) = Suc (length funcs)"
    using shape by (auto simp: pipe_shape_def)
  have k: "k = length funcs" using False wk(1) len by simp
  have up: "sum_list (map hold_in ((workers p ! k)[w := pc])) + hold_in (workers p ! k ! w)
        = sum_list (map hold_in (workers p ! k)) + hold_in pc"
    using wk(2) by (rule sum_map_update)
  have "permits (sems p' ! j) + in_use items p' j = 2 * ws ! j" if j: "j \<le> length funcs" for j
  proof -
    have old: "permits (sems p ! j) + in_use items p j = 2 * ws ! j"
      using cap j by (simp add: pipe_capacity_def)
    show ?thesis
      using old l up k len j
      by (cases j) (auto simp: p' in_use_def nth_list_update)
  qed
  then show ?thesis by (simp add: pipe_capacity_def)
qed

lemma worker_flow:
  assumes C: "chan_laws C items closed" and S: "sem_laws S permits"
    and step: "worker_step C S funcs consume k w p = Some p'"
    and shape: "pipe_shape (length funcs) ws p" and cl: "pipe_closing items closed (length funcs) p"
    and flow: "pipe_flow funcs items consume x0 inputs p"
  shows "pipe_flow funcs items consume x0 inputs p'"
proof (cases "k < length funcs")
  case True
  from step True obtain pc ic is1 oc os1 where
    wk: "k < length (workers p)" "w < length (workers p ! k)"
    and loc: "stage_worker C C S (funcs ! k) (workers p ! k ! w) (chans p ! k) (Some (sems p ! k))
       (chans p ! Suc k) (Some (sems p ! Suc k)) = Some (pc, ic, Some is1, oc, Some os1)"
    and p': "p' = p\<lparr> workers := (workers p)[k := (workers p ! k)[w := pc]],
             chans := (chans p)[k := ic, Suc k := oc],
             sems := (sems p)[k := is1, Suc k := os1] \<rparr>"
    by (rule worker_stage_cases)
  have op: "\<not> closed (chans p ! Suc k)"
    using working_open [OF cl True wk(2) worker_not_done [OF step]] .
  note l = stage_worker_local(3) [OF C S loc True op]
  have len: "length (chans p) = Suc (length funcs)" "length (workers p) = Suc (length funcs)"
    using shape by (auto simp: pipe_shape_def)
  have up: "sum_list (map (flight funcs k) ((workers p ! k)[w := pc])) + flight funcs k (workers p ! k ! w)
        = sum_list (map (flight funcs k) (workers p ! k)) + flight funcs k pc"
    using wk(2) by (rule sum_mset_map_update)
  have "stage_load funcs items p' k + stage_load funcs items p' (Suc k)
      = stage_load funcs items p k + stage_load funcs items p (Suc k)"
    using mset_exchange [OF l up] True len by (simp add: p' stage_load_def)
  then have "(\<Sum>j\<le>length funcs. stage_load funcs items p' j) = (\<Sum>j\<le>length funcs. stage_load funcs items p j)"
    using True by (intro sum_change_two [of k]) (auto simp: p' stage_load_def)
  then show ?thesis using flow by (simp add: pipe_flow_def p' source_load_def)
next
  case False
  from step False obtain pc ic is1 x where
    wk: "k < length (workers p)" "w < length (workers p ! k)"
    and loc: "end_worker C S consume (workers p ! k ! w) (chans p ! k) (sems p ! k) (sink p)
       = Some (pc, ic, is1, x)"
    and p': "p' = p\<lparr> workers := (workers p)[k := (workers p ! k)[w := pc]],
             chans := (chans p)[k := ic], sems := (sems p)[k := is1], sink := x \<rparr>"
    by (rule worker_end_cases)
  have len: "length (chans p) = Suc (length funcs)" "length (workers p) = Suc (length funcs)"
    using shape by (auto simp: pipe_shape_def)
  have k: "k = length funcs" using False wk(1) len by simp
  from end_worker_log [OF C loc k] obtain log1 where x: "x = fold consume log1 (sink p)"
    and l: "image_mset (through funcs k) (items ic) + flight funcs k pc + mset log1
      = image_mset (through funcs k) (items (chans p ! k)) + flight funcs k (workers p ! k ! w)"
    by blast
  have up: "sum_list (map (flight funcs k) ((workers p ! k)[w := pc])) + flight funcs k (workers p ! k ! w)
        = sum_list (map (flight funcs k) (workers p ! k)) + flight funcs k pc"
    using wk(2) by (rule sum_mset_map_update)
  have "stage_load funcs items p' k + mset log1 = stage_load funcs items p k + {#}"
    using mset_exchange [OF _ up, where c' = "mset log1" and c = "{#}" and y = "{#}", OF l [THEN trans]] len wk
    by (simp add: p' stage_load_def)
  then have "(\<Sum>j\<le>length funcs. stage_load funcs items p' j) + mset log1
      = (\<Sum>j\<le>length funcs. stage_load funcs items p j) + {#}"
    using k by (intro sum_change_one [of k]) (auto simp: p' stage_load_def)
  moreover obtain log where "sink p = fold consume log x0" and
    "source_load funcs p + (\<Sum>k\<le>length funcs. stage_load funcs items p k) + mset log
     = image_mset (through funcs 0) (mset inputs)"
    using flow by (auto simp: pipe_flow_def)
  ultimately have "sink p' = fold consume (log @ log1) x0 \<and>
     source_load funcs p' + (\<Sum>k\<le>length funcs. stage_load funcs items p' k) + mset (log @ log1)
     = image_mset (through funcs 0) (mset inputs)"
    by (simp add: x p' source_load_def) (metis (no_types, lifting) add.assoc add.commute)
  then show ?thesis unfolding pipe_flow_def by blast
qed

lemma worker_closing:
  assumes C: "chan_laws C items closed" and S: "sem_laws S permits"
    and step: "worker_step C S funcs consume k w p = Some p'"
    and shape: "pipe_shape (length funcs) ws p" and cl: "pipe_closing items closed (length funcs) p"
  shows "pipe_closing items closed (length funcs) p'"
proof (cases "k < length funcs")
  case True
  from step True obtain pc ic is1 oc os1 where
    wk: "k < length (workers p)" "w < length (workers p ! k)"
    and loc: "stage_worker C C S (funcs ! k) (workers p ! k ! w) (chans p ! k) (Some (sems p ! k))
       (chans p ! Suc k) (Some (sems p ! Suc k)) = Some (pc, ic, Some is1, oc, Some os1)"
    and p': "p' = p\<lparr> workers := (workers p)[k := (workers p ! k)[w := pc]],
             chans := (chans p)[k := ic, Suc k := oc],
             sems := (sems p)[k := is1, Suc k := os1] \<rparr>"
    by (rule worker_stage_cases)
  have nd: "workers p ! k ! w \<noteq> WDone" using worker_not_done [OF step] .
  have op: "\<not> closed (chans p ! Suc k)" using working_open [OF cl True wk(2) nd] .
  note l = stage_worker_local(4-8) [OF C S loc True op]
  have len: "length (chans p) = Suc (length funcs)" "length (workers p) = Suc (length funcs)"
    using shape by (auto simp: pipe_shape_def)
  have mine: "\<not> list_all (\<lambda>w. w = WDone) (workers p ! k)"
    using nd wk(2) by (auto simp: list_all_length)
  have A: "closed (chans p' ! j) = closed (chans p ! j)" if "j \<le> length funcs" for j
    using l(1,2) len True that by (auto simp: p' nth_list_update)
  have B: "WDone \<in> set (workers p' ! j) \<longrightarrow> closed (chans p' ! j) \<and> items (chans p' ! j) = {#}"
    if j: "j \<le> length funcs" for j
  proof -
    have old: "WDone \<in> set (workers p ! j) \<longrightarrow> closed (chans p ! j) \<and> items (chans p ! j) = {#}"
      using cl j by (simp add: pipe_closing_def)
    consider "j = k" | "j = Suc k" | "j \<noteq> k" "j \<noteq> Suc k" by blast
    then show ?thesis
    proof cases
      case 1
      then show ?thesis
        using old l len True wk A [OF j] by (auto simp: p' dest!: set_update_le)
    next
      case 2
      then show ?thesis using old op len True by (auto simp: p')
    next
      case 3
      then show ?thesis using old by (simp add: p')
    qed
  qed
  have D: "closers p' ! j \<noteq> CJoin \<longrightarrow> list_all (\<lambda>w. w = WDone) (workers p' ! j)"
    if "j < length funcs" for j
    using cl that mine by (cases "j = k") (auto simp: pipe_closing_def p')
  have E: "closed (chans p' ! Suc j) = (closers p' ! j \<in> {CDrain, CDone})" if "j < length funcs" for j
    using cl A [of "Suc j"] that by (simp add: pipe_closing_def p')
  have F: "closed (chans p' ! 0) = (driver p' \<in> {DDrain, DJoin, DDone})"
    using cl A [of 0] by (simp add: pipe_closing_def p')
  have G: "driver p' = DDone \<longrightarrow>
      list_all (\<lambda>c. c = CDone) (closers p') \<and> list_all (\<lambda>w. w = WDone) (workers p' ! length funcs)"
    using cl True by (simp add: pipe_closing_def p')
  have H: "driver p' \<in> {DClose, DDrain, DJoin, DDone} \<longrightarrow> pending p' = []"
    using cl by (simp add: pipe_closing_def p')
  show ?thesis
    using B E D F H G by (rule pipe_closingI)
next
  case False
  from step False obtain pc ic is1 x where
    wk: "k < length (workers p)" "w < length (workers p ! k)"
    and loc: "end_worker C S consume (workers p ! k ! w) (chans p ! k) (sems p ! k) (sink p)
       = Some (pc, ic, is1, x)"
    and p': "p' = p\<lparr> workers := (workers p)[k := (workers p ! k)[w := pc]],
             chans := (chans p)[k := ic], sems := (sems p)[k := is1], sink := x \<rparr>"
    by (rule worker_end_cases)
  have nd: "workers p ! k ! w \<noteq> WDone" using worker_not_done [OF step] .
  note l = end_worker_local(2-5) [OF C S loc]
  have len: "length (chans p) = Suc (length funcs)" "length (workers p) = Suc (length funcs)"
    using shape by (auto simp: pipe_shape_def)
  have k: "k = length funcs" using False wk(1) len by simp
  have mine: "\<not> list_all (\<lambda>w. w = WDone) (workers p ! k)"
    using nd wk(2) by (auto simp: list_all_length)
  have A: "closed (chans p' ! j) = closed (chans p ! j)" if "j \<le> length funcs" for j
    using l(1) len k that by (auto simp: p' nth_list_update)
  have B: "WDone \<in> set (workers p' ! j) \<longrightarrow> closed (chans p' ! j) \<and> items (chans p' ! j) = {#}"
    if j: "j \<le> length funcs" for j
  proof -
    have old: "WDone \<in> set (workers p ! j) \<longrightarrow> closed (chans p ! j) \<and> items (chans p ! j) = {#}"
      using cl j by (simp add: pipe_closing_def)
    show ?thesis
    proof (cases "j = k")
      case True
      then show ?thesis
        using old l len wk A [OF j] by (auto simp: p' dest!: set_update_le)
    next
      case False
      then show ?thesis using old by (simp add: p')
    qed
  qed
  have D: "closers p' ! j \<noteq> CJoin \<longrightarrow> list_all (\<lambda>w. w = WDone) (workers p' ! j)"
    if "j < length funcs" for j
    using cl that k by (simp add: pipe_closing_def p')
  have E: "closed (chans p' ! Suc j) = (closers p' ! j \<in> {CDrain, CDone})" if "j < length funcs" for j
    using cl A [of "Suc j"] that by (simp add: pipe_closing_def p')
  have F: "closed (chans p' ! 0) = (driver p' \<in> {DDrain, DJoin, DDone})"
    using cl A [of 0] by (simp add: pipe_closing_def p')
  have G: "driver p' = DDone \<longrightarrow>
      list_all (\<lambda>c. c = CDone) (closers p') \<and> list_all (\<lambda>w. w = WDone) (workers p' ! length funcs)"
    using cl k mine by (simp add: pipe_closing_def p')
  have H: "driver p' \<in> {DClose, DDrain, DJoin, DDone} \<longrightarrow> pending p' = []"
    using cl by (simp add: pipe_closing_def p')
  show ?thesis
    using B E D F H G by (rule pipe_closingI)
qed

section \<open>The effect of the producer's and the closers' steps\<close>

lemma driver_shape:
  "driver_step C S p = Some p' \<Longrightarrow> pipe_shape N ws p \<Longrightarrow> pipe_shape N ws p'"
  by (auto simp: pipe_shape_def split: driver.splits list.splits option.splits if_splits)

lemma driver_capacity:
  assumes C: "chan_laws C items closed" and S: "sem_laws S permits"
    and step: "driver_step C S p = Some p'"
    and shape: "pipe_shape N ws p" and cl: "pipe_closing items closed N p"
    and cap: "pipe_capacity items permits N ws p"
  shows "pipe_capacity items permits N ws p'"
proof -
  have len: "length (chans p) = Suc N" "length (sems p) = Suc N"
    using shape by (auto simp: pipe_shape_def)
  have op: "\<not> closed (chans p ! 0)" if "driver p = DPost v" for v
    using cl that by (simp add: pipe_closing_def)
  have "permits (sems p' ! j) + in_use items p' j = permits (sems p ! j) + in_use items p j" for j
    using step len op
    by (cases j; auto split: driver.splits list.splits option.splits if_splits
          dest!: sem_acquire_Some [OF S]
          simp: in_use_def chan_post [OF C] chan_close [OF C])
  then show ?thesis using cap by (simp add: pipe_capacity_def)
qed

lemma driver_flow:
  assumes C: "chan_laws C items closed"
    and step: "driver_step C S p = Some p'"
    and shape: "pipe_shape N ws p" and cl: "pipe_closing items closed N p"
    and N: "N = length funcs"
    and flow: "pipe_flow funcs items consume x0 inputs p"
  shows "pipe_flow funcs items consume x0 inputs p'"
proof -
  have len: "length (chans p) = Suc N" using shape by (simp add: pipe_shape_def)
  have op: "\<not> closed (chans p ! 0)" if "driver p = DPost v" for v
    using cl that by (simp add: pipe_closing_def)
  have "stage_load funcs items p' 0 + source_load funcs p' = stage_load funcs items p 0 + source_load funcs p"
    using step len op
    by (auto split: driver.splits list.splits option.splits if_splits
          simp: stage_load_def source_load_def chan_post [OF C] chan_close [OF C])
  moreover have "stage_load funcs items p' j = stage_load funcs items p j" if "j \<noteq> 0" for j
    using step that
    by (auto split: driver.splits list.splits option.splits if_splits simp: stage_load_def)
  ultimately have "(\<Sum>j\<le>N. stage_load funcs items p' j) + source_load funcs p'
      = (\<Sum>j\<le>N. stage_load funcs items p j) + source_load funcs p"
    by (intro sum_change_one [of 0]) auto
  moreover have "sink p' = sink p"
    using step by (auto split: driver.splits list.splits option.splits if_splits)
  ultimately show ?thesis
    using flow unfolding pipe_flow_def N by (metis add.commute)
qed

lemma driver_closing:
  assumes C: "chan_laws C items closed"
    and step: "driver_step C S p = Some p'"
    and shape: "pipe_shape N ws p" and cl: "pipe_closing items closed N p"
  shows "pipe_closing items closed N p'"
proof (rule pipe_closingI)
  have len: "length (chans p) = Suc N" "length (workers p) = Suc N"
    using shape by (auto simp: pipe_shape_def)
  then have last: "last (workers p) = workers p ! N" by (metis last_conv_nth length_0_conv nat.distinct(1) diff_Suc_1)
  have frame: "workers p' = workers p" "closers p' = closers p"
    using step by (auto split: driver.splits list.splits option.splits if_splits)
  have op: "\<not> closed (chans p ! 0)" if "driver p = DPost v" for v
    using cl that by (simp add: pipe_closing_def)
  have at0: "WDone \<in> set (workers p ! 0) \<Longrightarrow> closed (chans p ! 0) \<and> items (chans p ! 0) = {#}"
    using cl unfolding pipe_closing_def by blast
  have ch: "chans p' ! Suc k = chans p ! Suc k" for k
    using step by (auto split: driver.splits list.splits option.splits if_splits)
  show "WDone \<in> set (workers p' ! k) \<longrightarrow> closed (chans p' ! k) \<and> items (chans p' ! k) = {#}"
    if "k \<le> N" for k
  proof (cases k)
    case 0
    then show ?thesis
      using step at0 op len unfolding frame
      by (auto split: driver.splits list.splits option.splits if_splits simp: chan_close [OF C])
  next
    case (Suc j)
    then show ?thesis using cl that unfolding frame by (simp add: ch pipe_closing_def)
  qed
  show "closed (chans p' ! Suc k) = (closers p' ! k \<in> {CDrain, CDone})" if "k < N" for k
    using cl that unfolding frame by (simp add: ch pipe_closing_def)
  show "closers p' ! k \<noteq> CJoin \<longrightarrow> list_all (\<lambda>w. w = WDone) (workers p' ! k)" if "k < N" for k
    using cl that unfolding frame by (simp add: pipe_closing_def)
  have c0: "closed (chans p ! 0) = (driver p \<in> {DDrain, DJoin, DDone})"
    and pe: "driver p \<in> {DClose, DDrain, DJoin, DDone} \<longrightarrow> pending p = []"
    using cl by (simp_all add: pipe_closing_def)
  show "closed (chans p' ! 0) = (driver p' \<in> {DDrain, DJoin, DDone})"
    using step c0 len
    by (auto split: driver.splits list.splits option.splits if_splits
        simp: chan_close [OF C] chan_post [OF C])
  show "driver p' \<in> {DClose, DDrain, DJoin, DDone} \<longrightarrow> pending p' = []"
    using step pe by (auto split: driver.splits list.splits option.splits if_splits)
  show "driver p' = DDone \<longrightarrow>
      list_all (\<lambda>c. c = CDone) (closers p') \<and> list_all (\<lambda>w. w = WDone) (workers p' ! N)"
    using step unfolding frame
    by (auto split: driver.splits list.splits option.splits if_splits simp: last)
qed

lemma closer_shape: "closer_step C k p = Some p' \<Longrightarrow> pipe_shape N ws p \<Longrightarrow> pipe_shape N ws p'"
  by (auto simp: closer_step_def pipe_shape_def split: closer.splits if_splits)

lemma closer_items:
  assumes C: "chan_laws C items closed" and step: "closer_step C k p = Some p'"
  shows "items (chans p' ! j) = items (chans p ! j)"
  using step by (cases "j = Suc k"; cases "j < length (chans p)")
    (auto simp: closer_step_def chan_close [OF C] list_update_beyond not_less
      split: closer.splits if_splits)

lemma closer_frame:
  assumes "closer_step C k p = Some p'"
  shows "workers p' = workers p" "sems p' = sems p" "driver p' = driver p" "pending p' = pending p"
    "sink p' = sink p"
  using assms by (auto simp: closer_step_def split: closer.splits if_splits)

lemma closer_capacity:
  assumes C: "chan_laws C items closed" and step: "closer_step C k p = Some p'"
    and cap: "pipe_capacity items permits N ws p"
  shows "pipe_capacity items permits N ws p'"
proof -
  have "posting p' j = posting p j" for j
    using closer_frame [OF step] by (cases j) simp_all
  then show ?thesis
    using cap closer_frame [OF step] closer_items [OF C step]
    by (simp add: pipe_capacity_def in_use_def)
qed

lemma closer_flow:
  assumes C: "chan_laws C items closed" and step: "closer_step C k p = Some p'"
    and flow: "pipe_flow funcs items consume x0 inputs p"
  shows "pipe_flow funcs items consume x0 inputs p'"
  using flow closer_frame [OF step] closer_items [OF C step]
  by (simp add: pipe_flow_def stage_load_def source_load_def)

lemma closer_closing:
  assumes C: "chan_laws C items closed"
    and step: "closer_step C k p = Some p'"
    and shape: "pipe_shape N ws p" and cl: "pipe_closing items closed N p"
  shows "pipe_closing items closed N p'"
proof (rule pipe_closingI)
  note frame = closer_frame [OF step]
  have len: "length (chans p) = Suc N" "length (closers p) = N"
    using shape by (auto simp: pipe_shape_def)
  have k: "k < N" using step len by (auto simp: closer_step_def split: if_splits)
  have clos: "closed (chans p' ! j)" if "closed (chans p ! j)" for j
    using step that len k by (cases "j = Suc k")
      (auto simp: closer_step_def chan_close [OF C] split: closer.splits if_splits)
  show "WDone \<in> set (workers p' ! j) \<longrightarrow> closed (chans p' ! j) \<and> items (chans p' ! j) = {#}"
    if "j \<le> N" for j
    using cl that clos closer_items [OF C step] unfolding frame by (simp add: pipe_closing_def)
  show "closed (chans p' ! Suc j) = (closers p' ! j \<in> {CDrain, CDone})" if j: "j < N" for j
  proof -
    have "closed (chans p ! Suc j) = (closers p ! j \<in> {CDrain, CDone})"
      using cl j by (simp add: pipe_closing_def)
    then show ?thesis
      using step len k j by (cases "j = k")
        (auto simp: closer_step_def chan_close [OF C] split: closer.splits if_splits)
  qed
  show "closers p' ! j \<noteq> CJoin \<longrightarrow> list_all (\<lambda>w. w = WDone) (workers p' ! j)" if j: "j < N" for j
  proof -
    have "closers p ! j \<noteq> CJoin \<longrightarrow> list_all (\<lambda>w. w = WDone) (workers p ! j)"
      using cl j by (simp add: pipe_closing_def)
    then show ?thesis
      using step len k j by (cases "j = k")
        (auto simp: closer_step_def split: closer.splits if_splits)
  qed
  have "closed (chans p ! 0) = (driver p \<in> {DDrain, DJoin, DDone})"
    using cl by (simp add: pipe_closing_def)
  moreover have "chans p' ! 0 = chans p ! 0"
    using step by (auto simp: closer_step_def split: closer.splits if_splits)
  ultimately show "closed (chans p' ! 0) = (driver p' \<in> {DDrain, DJoin, DDone})"
    unfolding frame by simp
  show "driver p' \<in> {DClose, DDrain, DJoin, DDone} \<longrightarrow> pending p' = []"
    using cl unfolding frame by (simp add: pipe_closing_def)
  have "driver p = DDone \<Longrightarrow> closers p ! k = CDone"
    using cl k len by (simp add: pipe_closing_def list_all_length)
  then have "driver p \<noteq> DDone"
    using step by (auto simp: closer_step_def split: if_splits)
  then show "driver p' = DDone \<longrightarrow>
      list_all (\<lambda>c. c = CDone) (closers p') \<and> list_all (\<lambda>w. w = WDone) (workers p' ! N)"
    unfolding frame by simp
qed

section \<open>The remaining work\<close>

fun drv_work :: "nat \<Rightarrow> 'v driver \<Rightarrow> nat" where
  "drv_work N DLoop = 5"
| "drv_work N (DPost v) = 6 + cost N 0"
| "drv_work N DClose = 4"
| "drv_work N DDrain = 3"
| "drv_work N DJoin = 2"
| "drv_work N DDone = 1"

fun closer_work :: "closer \<Rightarrow> nat" where
  "closer_work CJoin = 3"
| "closer_work CClose = 2"
| "closer_work CDrain = 1"
| "closer_work CDone = 0"

definition stage_work :: "('c \<Rightarrow> 'v multiset) \<Rightarrow> nat \<Rightarrow> ('v, 'c, 's, 'x) pipe \<Rightarrow> nat \<Rightarrow> nat" where
  "stage_work items N p k =
     size (items (chans p ! k)) * cost N k + sum_list (map (pc_work N k) (workers p ! k))"

definition pipe_work :: "('c \<Rightarrow> 'v multiset) \<Rightarrow> nat \<Rightarrow> ('v, 'c, 's, 'x) pipe \<Rightarrow> nat" where
  "pipe_work items N p =
     drv_work N (driver p) + length (pending p) * (cost N 0 + 2) +
     (\<Sum>k\<le>N. stage_work items N p k) + sum_list (map closer_work (closers p))"

lemma worker_work:
  assumes C: "chan_laws C items closed"
    and step: "worker_step C S funcs consume k w p = Some p'"
    and shape: "pipe_shape N ws p" and cl: "pipe_closing items closed N p" and N: "N = length funcs"
  shows "pipe_work items N p' < pipe_work items N p"
proof (cases "k < length funcs")
  case True
  from step True obtain pc ic is1 oc os1 where
    wk: "k < length (workers p)" "w < length (workers p ! k)"
    and loc: "stage_worker C C S (funcs ! k) (workers p ! k ! w) (chans p ! k) (Some (sems p ! k))
       (chans p ! Suc k) (Some (sems p ! Suc k)) = Some (pc, ic, Some is1, oc, Some os1)"
    and p': "p' = p\<lparr> workers := (workers p)[k := (workers p ! k)[w := pc]],
             chans := (chans p)[k := ic, Suc k := oc],
             sems := (sems p)[k := is1, Suc k := os1] \<rparr>"
    by (rule worker_stage_cases)
  have kN: "k < N" using True N by simp
  have op: "\<not> closed (chans p ! Suc k)"
    using working_open [OF cl kN wk(2) worker_not_done [OF step]] .
  note l = stage_worker_work [OF C loc kN op]
  have len: "length (chans p) = Suc N" "length (workers p) = Suc N"
    using shape by (auto simp: pipe_shape_def)
  have up: "sum_list (map (pc_work N k) ((workers p ! k)[w := pc])) + pc_work N k (workers p ! k ! w)
        = sum_list (map (pc_work N k) (workers p ! k)) + pc_work N k pc"
    using wk(2) by (rule sum_map_update)
  have "stage_work items N p' k + stage_work items N p' (Suc k)
      < stage_work items N p k + stage_work items N p (Suc k)"
    using l up kN len by (simp add: p' stage_work_def)
  then have "(\<Sum>j\<le>N. stage_work items N p' j) < (\<Sum>j\<le>N. stage_work items N p j)"
    using kN by (intro sum_change_two_less [of k]) (auto simp: p' stage_work_def)
  then show ?thesis by (simp add: pipe_work_def p')
next
  case False
  from step False obtain pc ic is1 x where
    wk: "k < length (workers p)" "w < length (workers p ! k)"
    and loc: "end_worker C S consume (workers p ! k ! w) (chans p ! k) (sems p ! k) (sink p)
       = Some (pc, ic, is1, x)"
    and p': "p' = p\<lparr> workers := (workers p)[k := (workers p ! k)[w := pc]],
             chans := (chans p)[k := ic], sems := (sems p)[k := is1], sink := x \<rparr>"
    by (rule worker_end_cases)
  have len: "length (chans p) = Suc N" "length (workers p) = Suc N"
    using shape by (auto simp: pipe_shape_def)
  have k: "k = N" using False wk(1) len N by simp
  note l = end_worker_work [OF C loc, of N]
  have up: "sum_list (map (pc_work N k) ((workers p ! k)[w := pc])) + pc_work N k (workers p ! k ! w)
        = sum_list (map (pc_work N k) (workers p ! k)) + pc_work N k pc"
    using wk(2) by (rule sum_map_update)
  have "stage_work items N p' k < stage_work items N p k"
    using l up k len by (simp add: p' stage_work_def)
  then have "(\<Sum>j\<le>N. stage_work items N p' j) < (\<Sum>j\<le>N. stage_work items N p j)"
    using k by (intro sum_change_one_less [of k]) (auto simp: p' stage_work_def)
  then show ?thesis by (simp add: pipe_work_def p')
qed

lemma driver_work:
  assumes C: "chan_laws C items closed"
    and step: "driver_step C S p = Some p'"
    and shape: "pipe_shape N ws p" and cl: "pipe_closing items closed N p"
  shows "pipe_work items N p' < pipe_work items N p"
proof -
  have len: "length (chans p) = Suc N" using shape by (simp add: pipe_shape_def)
  have op: "\<not> closed (chans p ! 0)" if "driver p = DPost v" for v
    using cl that by (simp add: pipe_closing_def)
  have one: "stage_work items N p' 0 + drv_work N (driver p') + length (pending p') * (cost N 0 + 2)
      < stage_work items N p 0 + drv_work N (driver p) + length (pending p) * (cost N 0 + 2)"
    using step len op
    by (auto split: driver.splits list.splits option.splits if_splits
          simp: stage_work_def chan_post [OF C] chan_close [OF C])
  have "stage_work items N p' j = stage_work items N p j" if "j \<noteq> 0" for j
    using step that
    by (auto split: driver.splits list.splits option.splits if_splits simp: stage_work_def)
  then have "(\<Sum>j\<le>N. stage_work items N p' j) + stage_work items N p 0
      = (\<Sum>j\<le>N. stage_work items N p j) + stage_work items N p' 0"
    by (intro sum_change_one [of 0]) auto
  moreover have "closers p' = closers p"
    using step by (auto split: driver.splits list.splits option.splits if_splits)
  ultimately show ?thesis using one by (simp add: pipe_work_def)
qed

lemma closer_work_step:
  assumes C: "chan_laws C items closed" and step: "closer_step C k p = Some p'"
  shows "pipe_work items N p' < pipe_work items N p"
proof -
  have k: "k < length (closers p)" using step by (auto simp: closer_step_def split: if_splits)
  obtain c where c: "closers p' = (closers p)[k := c]" "closer_work c < closer_work (closers p ! k)"
    using step by (auto simp: closer_step_def split: closer.splits if_splits)
  have "sum_list (map closer_work (closers p')) < sum_list (map closer_work (closers p))"
    using sum_map_update [OF k, of closer_work c] c by simp
  then show ?thesis
    using closer_frame [OF step] closer_items [OF C step]
    by (simp add: pipe_work_def stage_work_def)
qed

end
