(* ===== verification/Pipeline_Correct.thy ===== *)
theory Pipeline_Correct
  imports Pipeline_Inv
begin

text \<open>
  The out-of-order pipeline as a whole: its construction establishes the invariant, nothing can get
  stuck before everything is consumed, every run is finite, and the consumer has then seen exactly
  the transformed inputs.
\<close>

section \<open>The invariant of the whole pipeline\<close>

definition pipe_inv ::
    "('c, 'v) chan_ops \<Rightarrow> 's sem_ops \<Rightarrow> ('c \<Rightarrow> 'v multiset) \<Rightarrow> ('c \<Rightarrow> bool) \<Rightarrow> ('s \<Rightarrow> nat) \<Rightarrow>
     ('v \<Rightarrow> 'v) list \<Rightarrow> ('v \<Rightarrow> 'x \<Rightarrow> 'x) \<Rightarrow> nat list \<Rightarrow> 'x \<Rightarrow> 'v list \<Rightarrow>
     ('v, 'c, 's, 'x) pipe \<Rightarrow> bool" where
  "pipe_inv C S items closed permits funcs consume ws x0 inputs p \<longleftrightarrow>
     chan_laws C items closed \<and> sem_laws S permits \<and>
     pipe_shape (length funcs) ws p \<and> pipe_capacity items permits (length funcs) ws p \<and>
     pipe_flow funcs items consume x0 inputs p \<and> pipe_closing items closed (length funcs) p"

lemma pipe_inv_step:
  assumes inv: "pipe_inv C S items closed permits funcs consume ws x0 inputs p"
    and step: "pipe_step C S funcs consume a p = Some p'"
  shows "pipe_inv C S items closed permits funcs consume ws x0 inputs p'"
proof -
  have laws: "chan_laws C items closed" "sem_laws S permits" using inv by (simp_all add: pipe_inv_def)
  have st: "pipe_shape (length funcs) ws p" "pipe_capacity items permits (length funcs) ws p"
    "pipe_flow funcs items consume x0 inputs p" "pipe_closing items closed (length funcs) p"
    using inv by (simp_all add: pipe_inv_def)
  note [simp del] = driver_step.simps
  show ?thesis
  proof (cases a)
    case Driver
    then have d: "driver_step C S p = Some p'" using step by simp
    show ?thesis
      unfolding pipe_inv_def
      by (intro conjI laws driver_shape [OF d st(1)] driver_capacity [OF laws d st(1,4,2)]
          driver_flow [OF laws(1) d st(1,4) refl st(3)] driver_closing [OF laws(1) d st(1,4)])
  next
    case (Worker k w)
    then have d: "worker_step C S funcs consume k w p = Some p'" using step by simp
    show ?thesis
      unfolding pipe_inv_def
      by (intro conjI laws worker_shape [OF d st(1)] worker_capacity [OF laws d st(1,4,2)]
          worker_flow [OF laws d st(1,4,3)] worker_closing [OF laws d st(1,4)])
  next
    case (Closer k)
    then have d: "closer_step C k p = Some p'" using step by simp
    show ?thesis
      unfolding pipe_inv_def
      by (intro conjI laws closer_shape [OF d st(1)] closer_capacity [OF laws(1) d st(2)]
          closer_flow [OF laws(1) d st(3)] closer_closing [OF laws(1) d st(1,4)])
  qed
qed

lemma pipe_work_step:
  assumes inv: "pipe_inv C S items closed permits funcs consume ws x0 inputs p"
    and step: "pipe_step C S funcs consume a p = Some p'"
  shows "pipe_work items (length funcs) p' < pipe_work items (length funcs) p"
proof -
  have st: "chan_laws C items closed" "pipe_shape (length funcs) ws p"
    "pipe_closing items closed (length funcs) p"
    using inv by (simp_all add: pipe_inv_def)
  show ?thesis
    using step st by (cases a) (auto intro: driver_work worker_work closer_work_step simp del: driver_step.simps)
qed

section \<open>The constructors establish it\<close>

lemma fold_pipeline_stage:
  "fold (pipeline_stage C S) ws (pipe_source C S inputs x0) =
     \<lparr> pending = inputs, driver = DLoop, chans = replicate (Suc (length ws)) (ch_make C),
       sems = map (\<lambda>w. sm_release S (2 * w) (sm_make S 0)) ws @ [sm_make S 0],
       workers = map (\<lambda>w. replicate w WPull) ws, closers = replicate (length ws) CJoin,
       sink = x0 \<rparr>"
proof (induction ws rule: rev_induct)
  case Nil
  then show ?case by (simp add: pipe_source_def)
next
  case (snoc w ws)
  then show ?case
    by (simp add: pipeline_stage_def Let_def nth_append list_update_append
        replicate_append_same [symmetric])
qed

lemma pipe_init_eq:
  "pipe_init C S ws e inputs x0 =
     \<lparr> pending = inputs, driver = DLoop, chans = replicate (Suc (length ws)) (ch_make C),
       sems = map (\<lambda>w. sm_release S (2 * w) (sm_make S 0)) (ws @ [e]),
       workers = map (\<lambda>w. replicate w WPull) (ws @ [e]), closers = replicate (length ws) CJoin,
       sink = x0 \<rparr>"
  by (simp add: pipe_init_def fold_pipeline_stage pipeline_end_stage_def Let_def nth_append
      list_update_append)

lemma pipe_inv_init:
  assumes C: "chan_laws C items closed" and S: "sem_laws S permits"
    and len: "length ws = length funcs"
  shows "pipe_inv C S items closed permits funcs consume (ws @ [e]) x0 inputs
           (pipe_init C S ws e inputs x0)"
proof -
  let ?p = "pipe_init C S ws e inputs x0"
  have wk: "workers ?p ! k = replicate ((ws @ [e]) ! k) WPull" if "k \<le> length funcs" for k
    using that len by (simp add: pipe_init_eq nth_append)
  have ch: "chans ?p ! k = ch_make C" if "k \<le> length funcs" for k
    using that len by (simp add: pipe_init_eq nth_append nth_Cons')
  have sm: "permits (sems ?p ! k) = 2 * (ws @ [e]) ! k" if "k \<le> length funcs" for k
    using that len by (simp add: pipe_init_eq nth_append sem_make [OF S] sem_release [OF S])
  have fl: "stage_load funcs items ?p k = {#}" if "k \<le> length funcs" for k
    using that by (simp add: stage_load_def wk ch chan_make [OF C] sum_list_replicate)
  have shape: "pipe_shape (length funcs) (ws @ [e]) ?p"
    using len by (auto simp: pipe_shape_def pipe_init_eq nth_append list_all_iff)
  moreover have "pipe_capacity items permits (length funcs) (ws @ [e]) ?p"
    unfolding pipe_capacity_def
  proof (intro allI impI)
    fix k assume k: "k \<le> length funcs"
    have "posting ?p k = 0"
    proof (cases k)
      case 0
      then show ?thesis by (simp add: pipe_init_eq)
    next
      case (Suc j)
      then show ?thesis using k by (simp add: wk sum_list_replicate)
    qed
    then show "permits (sems ?p ! k) + in_use items ?p k = 2 * (ws @ [e]) ! k"
      using k by (simp add: in_use_def sm ch wk chan_make [OF C] sum_list_replicate)
  qed
  moreover have "pipe_flow funcs items consume x0 inputs ?p"
  proof -
    have "sink ?p = x0" "source_load funcs ?p = image_mset (through funcs 0) (mset inputs)"
      by (simp_all add: pipe_init_eq source_load_def)
    then show ?thesis
      using fl by (auto simp: pipe_flow_def intro: exI [of _ "[]"])
  qed
  moreover have "pipe_closing items closed (length funcs) ?p"
  proof (rule pipe_closingI)
    show "WDone \<in> set (workers ?p ! k) \<longrightarrow> closed (chans ?p ! k) \<and> items (chans ?p ! k) = {#}"
      if "k \<le> length funcs" for k
      using that by (simp add: wk)
    show "closed (chans ?p ! Suc k) = (closers ?p ! k \<in> {CDrain, CDone})" if "k < length funcs" for k
      using that len ch [of "Suc k"] by (simp add: chan_make [OF C]) (simp add: pipe_init_eq)
    show "closers ?p ! k \<noteq> CJoin \<longrightarrow> list_all (\<lambda>w. w = WDone) (workers ?p ! k)"
      if "k < length funcs" for k
      using that len by (simp add: pipe_init_eq)
    show "closed (chans ?p ! 0) = (driver ?p \<in> {DDrain, DJoin, DDone})"
      by (simp add: pipe_init_eq chan_make [OF C])
  qed (simp_all add: pipe_init_eq)
  ultimately show ?thesis using C S by (simp add: pipe_inv_def)
qed

section \<open>Nothing gets stuck early\<close>

text \<open>
  What it means for a pipeline in which no coroutine can run: no worker holds a value, and by
  induction from the last channel to the first, every channel is empty and its permits are free.
\<close>

lemma stage_worker_None:
  assumes C: "chan_laws CI items closed" and S: "sem_laws S permits"
    and "stage_worker CI CO S f pc ic is oc (Some os) = None"
  shows "pc = WPull \<and> items ic = {#} \<and> \<not> closed ic \<or> pc = WDone \<or>
         (\<exists>v. pc = WAcquire v) \<and> permits os = 0"
  using assms(3)
  by (cases pc) (auto split: option.splits prod.splits pulled.splits
      dest!: chan_pull_Suspended [OF C] dest: sem_acquire_None [OF S])

lemma end_worker_None:
  assumes C: "chan_laws C items closed"
    and "end_worker C S f pc ic is x = None" and "sinking pc"
  shows "pc = WPull \<and> items ic = {#} \<and> \<not> closed ic \<or> pc = WDone"
  using assms(2,3)
  by (cases pc) (auto split: prod.splits pulled.splits dest!: chan_pull_Suspended [OF C])

lemma worker_step_None:
  assumes "worker_step C S funcs consume k i p = None"
    and "k < length (workers p)" "i < length (workers p ! k)"
  shows "if k < length funcs
    then stage_worker C C S (funcs ! k) (workers p ! k ! i) (chans p ! k) (Some (sems p ! k))
           (chans p ! Suc k) (Some (sems p ! Suc k)) = None
    else end_worker C S consume (workers p ! k ! i) (chans p ! k) (sems p ! k) (sink p) = None"
  using assms by (auto simp: worker_step_def split: option.splits prod.splits if_splits
      dest!: stage_worker_sems)

lemma stuck_worker:
  assumes C: "chan_laws C items closed" and S: "sem_laws S permits"
    and stuck: "stuck (pipe_step C S funcs consume) p"
    and shape: "pipe_shape (length funcs) ws p"
    and w: "k \<le> length funcs" "pc \<in> set (workers p ! k)"
  shows "pc = WPull \<and> items (chans p ! k) = {#} \<and> \<not> closed (chans p ! k) \<or> pc = WDone \<or>
         (\<exists>v. pc = WAcquire v) \<and> k < length funcs \<and> permits (sems p ! Suc k) = 0"
proof -
  obtain i where i: "i < length (workers p ! k)" "pc = workers p ! k ! i"
    using w(2) by (auto simp: in_set_conv_nth)
  have k: "k < length (workers p)" using shape w(1) by (simp add: pipe_shape_def)
  have "worker_step C S funcs consume k i p = None"
    using stuckD [OF stuck, of "Worker k i"] by simp
  note none = worker_step_None [OF this k i(1)]
  show ?thesis
  proof (cases "k < length funcs")
    case True
    with none have "stage_worker C C S (funcs ! k) pc (chans p ! k) (Some (sems p ! k))
           (chans p ! Suc k) (Some (sems p ! Suc k)) = None" unfolding i(2) by simp
    from stage_worker_None [OF C S this] True show ?thesis by blast
  next
    case False
    then have "k = length funcs" using w(1) by simp
    then have "sinking pc" using shape w(2) by (simp add: pipe_shape_def list_all_iff)
    with none False have "end_worker C S consume pc (chans p ! k) (sems p ! k) (sink p) = None"
      unfolding i(2) by simp
    from end_worker_None [OF C this \<open>sinking pc\<close>] show ?thesis by blast
  qed
qed

lemma stuck_holds:
  assumes C: "chan_laws C items closed" and S: "sem_laws S permits"
    and stuck: "stuck (pipe_step C S funcs consume) p"
    and shape: "pipe_shape (length funcs) ws p"
    and k: "k \<le> length funcs"
  shows "sum_list (map hold_in (workers p ! k)) = 0" and "posting p k = 0"
proof -
  have h: "hold_in pc = 0 \<and> hold_out pc = 0" if "j \<le> length funcs" "pc \<in> set (workers p ! j)" for j pc
    using stuck_worker [OF C S stuck shape that] by auto
  then show "sum_list (map hold_in (workers p ! k)) = 0"
    using k by (simp add: sum_map_zero_iff)
  have "driver_step C S p = None" using stuckD [OF stuck, of Driver] by (simp del: driver_step.simps)
  then have "drv_hold (driver p) = 0" by (cases "driver p") auto
  then show "posting p k = 0"
    using h [of "k - 1"] k by (cases k) (auto simp: sum_map_zero_iff)
qed

lemma stuck_empty:
  assumes inv: "pipe_inv C S items closed permits funcs consume ws x0 inputs p"
    and stuck: "stuck (pipe_step C S funcs consume) p"
    and pos: "\<forall>k\<le>length funcs. 0 < ws ! k" and k: "k \<le> length funcs"
  shows "items (chans p ! k) = {#}" and "0 < permits (sems p ! k)"
proof -
  have C: "chan_laws C items closed" and S: "sem_laws S permits"
    and shape: "pipe_shape (length funcs) ws p"
    and cap: "pipe_capacity items permits (length funcs) ws p"
    and cl: "pipe_closing items closed (length funcs) p"
    using inv by (simp_all add: pipe_inv_def)
  have free: "permits (sems p ! j) + size (items (chans p ! j)) = 2 * ws ! j" if "j \<le> length funcs" for j
  proof -
    have "permits (sems p ! j) + in_use items p j = 2 * ws ! j"
      using cap that by (simp add: pipe_capacity_def)
    then show ?thesis
      using stuck_holds [OF C S stuck shape that] unfolding in_use_def by linarith
  qed
  have "j \<le> length funcs \<Longrightarrow> items (chans p ! j) = {#}" for j
  proof (induction "length funcs - j" arbitrary: j rule: less_induct)
    case less
    have "0 < length (workers p ! j)" using shape pos less.prems by (simp add: pipe_shape_def)
    then obtain pc where pc: "pc \<in> set (workers p ! j)" by (meson nth_mem)
    have "items (chans p ! Suc j) = {#}" if "j < length funcs"
      using less.hyps [of "Suc j"] that by simp
    then have "j < length funcs \<Longrightarrow> permits (sems p ! Suc j) \<noteq> 0"
      using free [of "Suc j"] pos by (metis Suc_leI add.right_neutral less_numeral_extra(3) mult_is_0 size_empty zero_neq_numeral)
    then show ?case
      using stuck_worker [OF C S stuck shape less.prems pc] pc cl less.prems
      by (auto simp: pipe_closing_def)
  qed
  with k show e: "items (chans p ! k) = {#}" by simp
  show "0 < permits (sems p ! k)" using free [OF k] e pos k by (metis add.right_neutral mult_eq_0_iff neq0_conv size_empty zero_neq_numeral)
qed

lemma stuck_done:
  assumes inv: "pipe_inv C S items closed permits funcs consume ws x0 inputs p"
    and stuck: "stuck (pipe_step C S funcs consume) p"
    and pos: "\<forall>k\<le>length funcs. 0 < ws ! k"
    and k: "k \<le> length funcs" "closed (chans p ! k)"
  shows "list_all (\<lambda>w. w = WDone) (workers p ! k)"
proof -
  have C: "chan_laws C items closed" and S: "sem_laws S permits"
    and shape: "pipe_shape (length funcs) ws p"
    using inv by (simp_all add: pipe_inv_def)
  show ?thesis
    using stuck_worker [OF C S stuck shape k(1)] k(2)
      stuck_empty(2) [OF inv stuck pos, of "Suc k"]
    by (fastforce simp: list_all_iff)
qed

lemma stuck_closed:
  assumes inv: "pipe_inv C S items closed permits funcs consume ws x0 inputs p"
    and stuck: "stuck (pipe_step C S funcs consume) p"
    and pos: "\<forall>k\<le>length funcs. 0 < ws ! k"
    and k: "k \<le> length funcs"
  shows "closed (chans p ! k) \<and> (\<forall>j<k. closers p ! j = CDone)"
  using k
proof (induction k)
  case 0
  have S: "sem_laws S permits" and cl: "pipe_closing items closed (length funcs) p"
    using inv by (simp_all add: pipe_inv_def)
  have "driver_step C S p = None" using stuckD [OF stuck, of Driver] by (simp del: driver_step.simps)
  then have "driver p \<in> {DDrain, DJoin, DDone}"
    using stuck_empty(2) [OF inv stuck pos, of 0]
    by (auto split: driver.splits list.splits option.splits if_splits dest: sem_acquire_None [OF S])
  then show ?case using cl by (simp add: pipe_closing_def)
next
  case (Suc k)
  have C: "chan_laws C items closed" and shape: "pipe_shape (length funcs) ws p"
    and cl: "pipe_closing items closed (length funcs) p"
    using inv by (simp_all add: pipe_inv_def)
  from Suc have k: "k < length funcs" and IH: "closed (chans p ! k)" "\<forall>j<k. closers p ! j = CDone"
    by auto
  have d: "list_all (\<lambda>w. w = WDone) (workers p ! k)"
    using stuck_done [OF inv stuck pos _ IH(1)] k by simp
  have "closer_step C k p = None" using stuckD [OF stuck, of "Closer k"] by simp
  moreover have "closers p ! k \<in> {CDrain, CDone} \<Longrightarrow> closed (chans p ! Suc k)"
    using cl k by (simp add: pipe_closing_def)
  ultimately have "closers p ! k = CDone \<and> closed (chans p ! Suc k)"
    using d k shape stuck_empty(1) [OF inv stuck pos, of "Suc k"]
    by (auto simp: closer_step_def pipe_shape_def chan_drained [OF C] split: closer.splits if_splits)
  then show ?case using IH(2) by (auto simp: less_Suc_eq)
qed

lemma pipe_progress:
  assumes inv: "pipe_inv C S items closed permits funcs consume ws x0 inputs p"
    and stuck: "stuck (pipe_step C S funcs consume) p"
    and pos: "\<forall>k\<le>length funcs. 0 < ws ! k"
  shows "driver p = DDone"
proof -
  have C: "chan_laws C items closed" and S: "sem_laws S permits"
    and shape: "pipe_shape (length funcs) ws p"
    and cl: "pipe_closing items closed (length funcs) p"
    using inv by (simp_all add: pipe_inv_def)
  have fin: "closed (chans p ! 0)" "list_all (\<lambda>w. w = WDone) (workers p ! length funcs)"
    "\<forall>j<length funcs. closers p ! j = CDone"
    using stuck_closed [OF inv stuck pos, of 0] stuck_closed [OF inv stuck pos, of "length funcs"]
      stuck_done [OF inv stuck pos, of "length funcs"]
    by auto
  have len: "length (workers p) = Suc (length funcs)" "length (closers p) = length funcs"
    using shape by (auto simp: pipe_shape_def)
  then have last: "last (workers p) = workers p ! length funcs"
    by (metis last_conv_nth length_0_conv nat.distinct(1) diff_Suc_1)
  have "driver_step C S p = None" using stuckD [OF stuck, of Driver] by (simp del: driver_step.simps)
  then show ?thesis
    using fin len last cl stuck_empty(1) [OF inv stuck pos, of 0]
    by (auto simp: pipe_closing_def chan_drained [OF C] list_all_length split: driver.splits if_splits)
qed

section \<open>All runs\<close>

interpretation pipe_safe: invariant_system
  "pipe_step C S funcs consume" "pipe_inv C S items closed permits funcs consume ws x0 inputs"
  for C S funcs consume items closed permits ws x0 inputs
  by unfold_locales (fact pipe_inv_step)

definition pipe_live ::
    "('c, 'v) chan_ops \<Rightarrow> 's sem_ops \<Rightarrow> ('c \<Rightarrow> 'v multiset) \<Rightarrow> ('c \<Rightarrow> bool) \<Rightarrow> ('s \<Rightarrow> nat) \<Rightarrow>
     ('v \<Rightarrow> 'v) list \<Rightarrow> ('v \<Rightarrow> 'x \<Rightarrow> 'x) \<Rightarrow> nat list \<Rightarrow> 'x \<Rightarrow> 'v list \<Rightarrow>
     ('v, 'c, 's, 'x) pipe \<Rightarrow> bool" where
  "pipe_live C S items closed permits funcs consume ws x0 inputs p \<longleftrightarrow>
     pipe_inv C S items closed permits funcs consume ws x0 inputs p \<and>
     (\<forall>k\<le>length funcs. 0 < ws ! k)"

lemma pipe_live_step:
  "pipe_live C S items closed permits funcs consume ws x0 inputs p \<Longrightarrow>
   pipe_step C S funcs consume a p = Some p' \<Longrightarrow>
   pipe_live C S items closed permits funcs consume ws x0 inputs p'"
  using pipe_inv_step unfolding pipe_live_def by metis

lemma pipe_live_work:
  "pipe_live C S items closed permits funcs consume ws x0 inputs p \<Longrightarrow>
   pipe_step C S funcs consume a p = Some p' \<Longrightarrow>
   pipe_work items (length funcs) p' < pipe_work items (length funcs) p"
  using pipe_work_step unfolding pipe_live_def by metis

lemma pipe_live_progress:
  "pipe_live C S items closed permits funcs consume ws x0 inputs p \<Longrightarrow>
   stuck (pipe_step C S funcs consume) p \<Longrightarrow> driver p = DDone"
  using pipe_progress unfolding pipe_live_def by metis

interpretation pipe_run: terminating_system
  "pipe_step C S funcs consume"
  "pipe_live C S items closed permits funcs consume ws x0 inputs"
  "pipe_work items (length funcs)"
  "\<lambda>p. driver p = DDone"
  for C S funcs consume items closed permits ws x0 inputs
  by unfold_locales (fact pipe_live_step, fact pipe_live_work, fact pipe_live_progress)

lemma flight_done: "list_all (\<lambda>w. w = WDone) ws \<Longrightarrow> sum_list (map (flight funcs k) ws) = {#}"
  by (induction ws) auto

lemma pipe_start:
  assumes "chan_laws C items closed" and "sem_laws S permits"
    and "length stageWorkers = length funcs" and "\<forall>n\<in>set (stageWorkers @ [endWorkers]). 0 < n"
  shows "pipe_live C S items closed permits funcs consume (stageWorkers @ [endWorkers]) x0 inputs
           (pipe_init C S stageWorkers endWorkers inputs x0)"
proof -
  have "0 < (stageWorkers @ [endWorkers]) ! k" if "k \<le> length funcs" for k
  proof -
    have "(stageWorkers @ [endWorkers]) ! k \<in> set (stageWorkers @ [endWorkers])"
      using that assms(3) by (intro nth_mem) simp
    then show ?thesis using assms(4) by blast
  qed
  then show ?thesis
    unfolding pipe_live_def using pipe_inv_init [OF assms(1-3)] by (intro conjI allI impI)
qed

lemma pipe_finished:
  assumes live: "pipe_live C S items closed permits funcs consume ws x0 inputs p"
    and stuck: "stuck (pipe_step C S funcs consume) p"
  shows "\<exists>log. mset log = mset (map (through funcs 0) inputs) \<and> sink p = fold consume log x0"
proof -
  have inv: "pipe_inv C S items closed permits funcs consume ws x0 inputs p"
    and pos: "\<forall>k\<le>length funcs. 0 < ws ! k"
    using live by (simp_all add: pipe_live_def)
  have cl: "pipe_closing items closed (length funcs) p"
    and flow: "pipe_flow funcs items consume x0 inputs p"
    using inv by (simp_all add: pipe_inv_def)
  have "driver p = DDone" using pipe_progress [OF inv stuck pos] .
  then have "source_load funcs p = {#}" using cl by (simp add: source_load_def pipe_closing_def)
  moreover have "stage_load funcs items p k = {#}" if k: "k \<le> length funcs" for k
  proof -
    have "list_all (\<lambda>w. w = WDone) (workers p ! k)"
      using stuck_done [OF inv stuck pos k] stuck_closed [OF inv stuck pos k] by simp
    then show ?thesis
      using stuck_empty(1) [OF inv stuck pos k] by (simp add: stage_load_def flight_done)
  qed
  ultimately show ?thesis using flow by (auto simp: pipe_flow_def mset_map)
qed

text \<open>
  C1. \<open>examples/pipeline.hpp\<close> delivers every input exactly once, through all of the processing
  functions: whatever the scheduler does, when no coroutine can run any more the producer has
  returned from \<open>co_await std::move(fg)\<close>, and the consumer was called on a permutation of the
  transformed inputs. It never deadlocks, for any number of stages and any worker counts above 0,
  and it assumes of the channel only that elements are neither lost nor made up.
\<close>

theorem pipeline_exactly_once:
  assumes "chan_laws C items closed" and "sem_laws S permits"
    and "length stageWorkers = length funcs" and "\<forall>n\<in>set (stageWorkers @ [endWorkers]). 0 < n"
    and "run_steps (pipe_step C S funcs consume) ks
           (pipe_init C S stageWorkers endWorkers inputs x0) = Some p"
    and "stuck (pipe_step C S funcs consume) p"
  shows "driver p = DDone \<and>
    (\<exists>log. mset log = mset (map (through funcs 0) inputs) \<and> sink p = fold consume log x0)"
proof -
  note inv = pipe_run.run_inv [OF pipe_start [OF assms(1-4)] assms(5)]
  show ?thesis
    using pipe_run.progress [OF inv assms(6)] pipe_finished [OF inv assms(6)] by blast
qed

definition example_schedule :: "agent list" where
  "example_schedule = replicate 4 Driver @ replicate 6 (Worker 0 0) @ [Driver, Closer 0, Closer 0] @
     replicate 4 (Worker 1 0) @ [Closer 0, Driver]"

definition example_end :: "(nat, nat list \<times> bool, nat, nat list) pipe" where
  "example_end = \<lparr> pending = [], driver = DDone, chans = [([], True), ([], True)], sems = [2, 2],
     workers = [[WDone], [WDone]], closers = [CDone], sink = [6] \<rparr>"

lemma example_run:
  "run_steps (pipe_step list_chan nat_sem [Suc] (\<lambda>v xs. v # xs)) example_schedule
     (pipe_init list_chan nat_sem [1] 1 [5] []) = Some example_end"
  by (simp add: example_schedule_def example_end_def pipe_init_eq worker_step_def closer_step_def
      list_chan_def nat_sem_def numeral_eq_Suc)

lemma example_end_stuck: "stuck (pipe_step list_chan nat_sem [Suc] (\<lambda>v xs. v # xs)) example_end"
  unfolding stuck_def
proof
  fix a
  show "pipe_step list_chan nat_sem [Suc] (\<lambda>v xs. v # xs) a example_end = None"
    by (cases a) (auto simp: example_end_def worker_step_def closer_step_def less_Suc_eq)
qed

theorem pipeline_exactly_once_witness:
  "driver example_end = DDone \<and>
   (\<exists>log. mset log = mset (map (through [Suc] 0) [5]) \<and>
      sink example_end = fold (\<lambda>v xs. v # xs) log [])"
  by (rule pipeline_exactly_once [OF list_chan_laws nat_sem_laws _ _ example_run example_end_stuck])
    simp_all

lemma pipe_work_init:
  assumes C: "chan_laws C items closed" and len: "length ws = n"
  shows "pipe_work items n (pipe_init C S ws e inputs x0) =
    5 + length inputs * (5 * n + 6) + (sum_list ws + e) + 3 * n"
proof -
  let ?p = "pipe_init C S ws e inputs x0"
  have "stage_work items n ?p k = (ws @ [e]) ! k" if "k \<le> n" for k
  proof -
    have "workers ?p ! k = replicate ((ws @ [e]) ! k) WPull"
      using that len by (simp add: pipe_init_eq nth_append)
    moreover have "chans ?p ! k = ch_make C"
      using that len by (simp add: pipe_init_eq nth_append nth_Cons')
    ultimately show ?thesis by (simp add: stage_work_def chan_make [OF C] sum_list_replicate)
  qed
  then have "(\<Sum>k\<le>n. stage_work items n ?p k) = (\<Sum>k\<le>n. (ws @ [e]) ! k)"
    by (intro sum.cong) auto
  also have "\<dots> = sum_list (ws @ [e])"
    using len by (simp add: sum_list_sum_nth atLeast0LessThan lessThan_Suc_atMost del: sum_list.append)
  finally show ?thesis
    by (simp add: pipe_work_def pipe_init_eq sum_list_replicate len cost_def)
qed

text \<open>
  C2. \<open>examples/pipeline.hpp\<close> terminates: the number of steps all of its coroutines can take
  together is bounded by an explicit function of the number of inputs, stages and workers, and
  from wherever a run has got to it can be continued until the producer has returned.
\<close>

theorem pipeline_terminates:
  assumes "chan_laws C items closed" and "sem_laws S permits"
    and "length stageWorkers = length funcs" and "\<forall>n\<in>set (stageWorkers @ [endWorkers]). 0 < n"
    and "run_steps (pipe_step C S funcs consume) ks
           (pipe_init C S stageWorkers endWorkers inputs x0) = Some p"
  shows "length ks \<le> 5 + length inputs * (5 * length funcs + 6)
           + (sum_list stageWorkers + endWorkers) + 3 * length funcs \<and>
    (\<exists>ls q. run_steps (pipe_step C S funcs consume) (ks @ ls)
       (pipe_init C S stageWorkers endWorkers inputs x0) = Some q \<and> driver q = DDone)"
proof -
  note start = pipe_start [OF assms(1-4), of consume x0 inputs]
  show ?thesis
    using pipe_run.run_bound [OF start assms(5)] pipe_run.can_finish [OF start assms(5)]
      pipe_work_init [OF assms(1,3), of S endWorkers inputs x0]
    by simp
qed

theorem pipeline_terminates_witness:
  "length example_schedule \<le> 5 + length [5::nat] * (5 * 1 + 6) + (1 + 1) + 3 * 1 \<and>
   (\<exists>ls q. run_steps (pipe_step list_chan nat_sem [Suc] (\<lambda>v xs. v # xs)) (example_schedule @ ls)
      (pipe_init list_chan nat_sem [1] 1 [5] []) = Some q \<and> driver q = DDone)"
  using pipeline_terminates [OF list_chan_laws nat_sem_laws _ _ example_run] by simp

text \<open>
  C3. Backpressure in \<open>examples/pipeline.hpp\<close>: in every state a run can reach, the elements in
  the input channel of stage \<open>k\<close> and the elements its producers are about to post number at
  most twice the workers of the stage, and the permits that are free account exactly for the rest.
\<close>

theorem pipeline_backpressure:
  assumes "chan_laws C items closed" and "sem_laws S permits"
    and "length stageWorkers = length funcs"
    and "run_steps (pipe_step C S funcs consume) ks
           (pipe_init C S stageWorkers endWorkers inputs x0) = Some p"
    and "k \<le> length funcs"
  shows "size (items (chans p ! k)) + posting p k \<le> 2 * (stageWorkers @ [endWorkers]) ! k \<and>
         permits (sems p ! k) + in_use items p k = 2 * (stageWorkers @ [endWorkers]) ! k"
proof -
  have "pipe_inv C S items closed permits funcs consume (stageWorkers @ [endWorkers]) x0 inputs p"
    by (rule pipe_safe.run_inv [OF pipe_inv_init [OF assms(1-3)] assms(4)])
  then have "permits (sems p ! k) + in_use items p k = 2 * (stageWorkers @ [endWorkers]) ! k"
    using assms(5) by (simp add: pipe_inv_def pipe_capacity_def)
  then show ?thesis unfolding in_use_def by linarith
qed

theorem pipeline_backpressure_witness:
  "size (list_items (chans example_end ! 0)) + posting example_end 0 \<le> 2 * ([1] @ [1]) ! 0 \<and>
   sems example_end ! 0 + in_use list_items example_end 0 = 2 * ([1] @ [1]) ! 0"
  by (rule pipeline_backpressure [OF list_chan_laws nat_sem_laws _ example_run]) simp_all

text \<open>
  C4. No result of \<open>examples/pipeline.hpp\<close> is posted to a closed channel: whenever the producer
  or a worker is about to post, the channel it posts to is open, although it is closed by another
  coroutine. And whenever an output channel is closed, all the workers of the stage have returned.
\<close>

theorem pipeline_posts_to_open_channels:
  assumes "chan_laws C items closed" and "sem_laws S permits"
    and "length stageWorkers = length funcs"
    and "run_steps (pipe_step C S funcs consume) ks
           (pipe_init C S stageWorkers endWorkers inputs x0) = Some p"
  shows "(driver p = DPost v \<longrightarrow> \<not> closed (chans p ! 0)) \<and>
    (k < length funcs \<and> WPost r \<in> set (workers p ! k) \<longrightarrow> \<not> closed (chans p ! Suc k)) \<and>
    (k < length funcs \<and> closed (chans p ! Suc k) \<longrightarrow> list_all (\<lambda>w. w = WDone) (workers p ! k))"
proof -
  have "pipe_inv C S items closed permits funcs consume (stageWorkers @ [endWorkers]) x0 inputs p"
    by (rule pipe_safe.run_inv [OF pipe_inv_init [OF assms(1-3)] assms(4)])
  then have cl: "pipe_closing items closed (length funcs) p" by (simp add: pipe_inv_def)
  then have "closed (chans p ! Suc k) \<Longrightarrow> list_all (\<lambda>w. w = WDone) (workers p ! k)"
    if "k < length funcs" using that by (auto simp: pipe_closing_def)
  then show ?thesis using cl by (auto simp: pipe_closing_def list_all_iff)
qed

definition example_mid :: "(nat, nat list \<times> bool, nat, nat list) pipe" where
  "example_mid = \<lparr> pending = [], driver = DDrain, chans = [([], True), ([], False)], sems = [2, 1],
     workers = [[WPost 6], [WPull]], closers = [CJoin], sink = [] \<rparr>"

lemma example_run_mid:
  "run_steps (pipe_step list_chan nat_sem [Suc] (\<lambda>v xs. v # xs)) (take 8 example_schedule)
     (pipe_init list_chan nat_sem [1] 1 [5] []) = Some example_mid"
  by (simp add: example_schedule_def example_mid_def pipe_init_eq worker_step_def closer_step_def
      list_chan_def nat_sem_def numeral_eq_Suc)

theorem pipeline_posts_to_open_channels_witness:
  "\<not> snd (chans example_mid ! Suc 0)"
proof -
  have "0 < length [Suc] \<and> WPost 6 \<in> set (workers example_mid ! 0) \<longrightarrow>
      \<not> snd (chans example_mid ! Suc 0)"
    using pipeline_posts_to_open_channels [OF list_chan_laws nat_sem_laws _ example_run_mid,
        where k = 0 and r = 6] by simp
  then show ?thesis by (simp add: example_mid_def)
qed

end
