(* ===== verification/Fp.thy ===== *)
theory Fp
  imports Prelude Complex_Main "HOL-Library.Log_Nat"
begin

text \<open>
  IEEE 754 binary arithmetic as the programs use it: rational numbers rounded to \<open>p\<close> significant
  bits, ties to even (\<open>p = 24\<close> for \<open>float\<close>, \<open>p = 53\<close> for \<open>double\<close>). The exponent
  range is not bounded: no program here comes near overflow or subnormal values.
\<close>

definition pow2 :: "int \<Rightarrow> rat" where
  "pow2 e = (if 0 \<le> e then 2 ^ nat e else 1 / 2 ^ nat (- e))"

lemma pow2_powi: "pow2 e = 2 powi e"
  by (simp add: pow2_def power_int_def field_simps)

lemma pow2_pos [simp]: "0 < pow2 e" and pow2_nz [simp]: "pow2 e \<noteq> 0"
  by (simp_all add: pow2_def)

lemma pow2_add: "pow2 (a + b) = pow2 a * pow2 b"
  by (simp add: pow2_powi power_int_add)

lemma pow2_diff: "pow2 (a - b) = pow2 a / pow2 b"
  by (simp add: pow2_powi power_int_diff)

lemma pow2_nat: "pow2 (int n) = 2 ^ n"
  by (simp add: pow2_def)

lemma pow2_mono: "a \<le> b \<Longrightarrow> pow2 a \<le> pow2 b"
  unfolding pow2_powi by (rule power_int_increasing) auto

lemma pow2_less: "pow2 a < pow2 b \<Longrightarrow> a < b"
  using pow2_mono [of b a] by (meson leD leI)

text \<open>The exponent of a positive rational: \<open>2 ^ e \<le> q < 2 ^ (e + 1)\<close>, from the bit lengths.\<close>

definition exponent :: "rat \<Rightarrow> int" where
  "exponent q =
     (let (n, d) = quotient_of q;
          k = int (floorlog 2 (nat n)) - int (floorlog 2 (nat d))
      in if pow2 k \<le> q then k else k - 1)"

lemma exponent_le:
  assumes "0 < q"
  shows "pow2 (exponent q) \<le> q"
proof -
  obtain n d where nd: "quotient_of q = (n, d)" by (cases "quotient_of q")
  have d: "0 < d" and q: "q = of_int n / of_int d"
    using nd quotient_of_denom_pos quotient_of_div by auto
  have n: "0 < n" using assms d unfolding q by (simp add: zero_less_divide_iff)
  let ?a = "floorlog 2 (nat n)" and ?b = "floorlog 2 (nat d)"
  have "2 ^ (?a - 1) \<le> nat n" and "nat d < 2 ^ ?b"
    using floorlog_bounds [of "nat n" 2] floorlog_bounds [of "nat d" 2] n d by auto
  then have "int (2 ^ (?a - 1)) \<le> n" and "d < int (2 ^ ?b)" using n d by linarith+
  then have nd': "(2 :: rat) ^ (?a - 1) \<le> of_int n" "of_int d \<le> (2 :: rat) ^ ?b"
    by (metis of_int_le_iff of_int_of_nat_eq of_nat_numeral of_nat_power)
       (metis \<open>d < int (2 ^ ?b)\<close> less_imp_le of_int_le_iff of_int_of_nat_eq of_nat_numeral of_nat_power)
  have "0 < ?a" using n by (simp add: floorlog_def)
  then have "int ?a - int ?b - 1 = int (?a - 1) - int ?b" by simp
  then have "pow2 (int ?a - int ?b - 1) = 2 ^ (?a - 1) / 2 ^ ?b"
    by (metis pow2_diff pow2_nat)
  also have "\<dots> \<le> of_int n / of_int d"
    using nd' d n by (intro frac_le) auto
  finally have "pow2 (int ?a - int ?b - 1) \<le> q" unfolding q .
  then show ?thesis by (simp add: exponent_def nd Let_def)
qed

definition round_half_even :: "rat \<Rightarrow> int" where
  "round_half_even q =
     (let f = \<lfloor>q\<rfloor>; r = q - of_int f in
      if r < 1/2 then f else if r > 1/2 then f + 1 else if even f then f else f + 1)"

lemma round_half_even_int [simp]: "round_half_even (of_int z) = z"
  by (simp add: round_half_even_def)

definition fp_round :: "nat \<Rightarrow> rat \<Rightarrow> rat" where
  "fp_round p q =
     (if q = 0 then 0
      else let e = exponent \<bar>q\<bar> - (int p - 1) in of_int (round_half_even (q / pow2 e)) * pow2 e)"

text \<open>A number with at most \<open>p\<close> significant bits is represented exactly.\<close>

lemma fp_round_exact:
  assumes q: "q = of_int m * pow2 k" and m: "\<bar>m\<bar> < 2 ^ p"
  shows "fp_round p q = q"
proof (cases "m = 0")
  case True
  then show ?thesis using q by (simp add: fp_round_def)
next
  case False
  then have nz: "q \<noteq> 0" using q by simp
  define e where "e = exponent \<bar>q\<bar> - (int p - 1)"
  have "pow2 (exponent \<bar>q\<bar>) \<le> \<bar>q\<bar>" using nz by (intro exponent_le) simp
  also have "\<bar>q\<bar> < pow2 (int p + k)"
  proof -
    have "\<bar>q\<bar> = of_int \<bar>m\<bar> * pow2 k" using q by (simp add: abs_mult abs_of_pos)
    also have "\<dots> < of_int (2 ^ p) * pow2 k" using m by (intro mult_strict_right_mono) (auto simp only: of_int_less_iff pow2_pos)
    finally show ?thesis by (simp add: pow2_add pow2_nat)
  qed
  finally have "e \<le> k" using pow2_less by (force simp: e_def)
  then have "q / pow2 e = of_int (m * 2 ^ nat (k - e))"
    by (simp add: q pow2_diff pow2_nat [symmetric])
  then show ?thesis
    using nz by (simp add: fp_round_def e_def [symmetric] Let_def)
       (metis (no_types, lifting) nonzero_eq_divide_eq of_int_mult of_int_numeral of_int_power pow2_nz round_half_even_int)
qed

definition float_round :: "rat \<Rightarrow> rat" where
  "float_round = fp_round 24"

definition double_round :: "rat \<Rightarrow> rat" where
  "double_round = fp_round 53"

text \<open>Conversion to an integer type drops the fraction, towards zero.\<close>

definition trunc :: "rat \<Rightarrow> int" where
  "trunc q = (if 0 \<le> q then \<lfloor>q\<rfloor> else \<lceil>q\<rceil>)"

lemma trunc_int [simp]: "trunc (of_int z) = z"
  by (simp add: trunc_def)

text \<open>The rounding error, and integer division carried out in floating point.\<close>

lemma round_half_even_error: "\<bar>of_int (round_half_even q) - q\<bar> \<le> 1/2"
proof -
  have "of_int \<lfloor>q\<rfloor> \<le> q" "q < of_int \<lfloor>q\<rfloor> + 1" by linarith+
  then show ?thesis by (simp add: round_half_even_def Let_def abs_le_iff)
qed

lemma fp_round_error: "\<bar>fp_round p q - q\<bar> \<le> \<bar>q\<bar> / 2 ^ p"
proof (cases "q = 0")
  case True
  then show ?thesis by (simp add: fp_round_def)
next
  case False
  define e where "e = exponent \<bar>q\<bar> - (int p - 1)"
  have "fp_round p q - q = (of_int (round_half_even (q / pow2 e)) - q / pow2 e) * pow2 e"
    using False by (simp add: fp_round_def e_def Let_def left_diff_distrib)
  then have "\<bar>fp_round p q - q\<bar> = \<bar>of_int (round_half_even (q / pow2 e)) - q / pow2 e\<bar> * pow2 e"
    by (simp add: abs_mult abs_of_pos)
  also have "\<dots> \<le> 1/2 * pow2 e"
    by (intro mult_right_mono round_half_even_error) (simp add: less_imp_le)
  also have "\<dots> = pow2 (exponent \<bar>q\<bar>) / 2 ^ p"
    by (simp add: e_def pow2_diff pow2_nat) (simp add: pow2_def)
  also have "\<dots> \<le> \<bar>q\<bar> / 2 ^ p"
    using exponent_le [of "\<bar>q\<bar>"] False by (intro divide_right_mono) auto
  finally show ?thesis .
qed

lemma trunc_round_div:
  fixes a b :: int
  assumes a: "0 \<le> a" "a < 2 ^ p" and b: "0 < b"
  shows "trunc (fp_round p (of_int a / of_int b)) = a div b"
proof (cases "a mod b = 0")
  case True
  then have "of_int a / of_int b = (of_int (a div b) :: rat)"
    using b by (metis mod_0_imp_dvd dvd_div_mult_self of_int_mult nonzero_eq_divide_eq
        of_int_0_eq_iff less_irrefl)
  moreover have "a div b \<le> a" using zdiv_mono2 [of a 1 b] a b by simp
  then have "\<bar>a div b\<bar> < 2 ^ p" using a b by (simp add: pos_imp_zdiv_nonneg_iff)
  ultimately show ?thesis
    using fp_round_exact [of _ "a div b" 0 p] by (simp add: pow2_def)
next
  case False
  define q :: rat where "q = of_int a / of_int b"
  let ?n = "a div b" and ?r = "a mod b" and ?x = "fp_round p q"
  have r: "1 \<le> ?r" "?r \<le> b - 1" using False b pos_mod_bound [OF b, of a] pos_mod_sign [OF b, of a] by auto
  have ab: "a = ?n * b + ?r" by simp
  have q: "q * of_int b = of_int ?n * of_int b + of_int ?r"
    using b unfolding q_def by (metis ab nonzero_eq_divide_eq of_int_0_eq_iff of_int_add of_int_mult less_irrefl times_divide_eq_left)
  have qnn: "0 \<le> q" using a b by (simp add: q_def)
  have "\<bar>?x - q\<bar> \<le> q / 2 ^ p" using fp_round_error [of p q] qnn by simp
  then have "\<bar>?x - q\<bar> * of_int b \<le> q / 2 ^ p * of_int b"
    using b by (intro mult_right_mono) auto
  also have "\<dots> = of_int a / 2 ^ p" using b by (simp add: q_def)
  also have "\<dots> < 1" using a(2) by (simp add: divide_less_eq)
  finally have err: "\<bar>?x - q\<bar> * of_int b < 1" .
  have lo: "of_int ?n * of_int b \<le> ?x * of_int b"
  proof -
    have "(q - ?x) * of_int b \<le> \<bar>?x - q\<bar> * of_int b" using b by (intro mult_right_mono) auto
    then have "q * of_int b - ?x * of_int b < 1" using err by (simp add: left_diff_distrib)
    moreover have "(1 :: rat) \<le> of_int ?r" using r(1) by (metis of_int_1 of_int_le_iff)
    ultimately show ?thesis using q by linarith
  qed
  have hi: "?x * of_int b < (of_int ?n + 1) * of_int b"
  proof -
    have "(?x - q) * of_int b \<le> \<bar>?x - q\<bar> * of_int b" using b by (intro mult_right_mono) auto
    then have "?x * of_int b - q * of_int b < 1" using err by (simp add: left_diff_distrib)
    moreover have "(of_int ?r :: rat) \<le> of_int b - 1" using r(2) by (metis of_int_1 of_int_diff of_int_le_iff)
    ultimately show ?thesis using q by (simp add: distrib_right)
  qed
  have "of_int ?n \<le> ?x" "?x < of_int ?n + 1"
    using lo hi b by (simp_all add: mult_le_cancel_right mult_less_cancel_right)
  moreover have "0 \<le> ?n" using a b by (simp add: pos_imp_zdiv_nonneg_iff)
  ultimately show ?thesis
    unfolding q_def [symmetric] trunc_def by (auto simp: floor_unique intro: order_trans [of 0 "of_int ?n"])
qed

end
