(* ===== verification/Pipeline_App.thy ===== *)
theory Pipeline_App
  imports Pipeline_Correct Fp
begin

text \<open>
  The program \<open>examples/pipeline.cpp\<close> (and its twin \<open>pipeline_fifo.cpp\<close>): its four
  processing functions on \<open>int\<close>, \<open>float\<close>, \<open>double\<close> and \<open>bool\<close>, the accumulator of the last
  stage, and the numbers it prints.
\<close>

section \<open>The processing functions\<close>

definition plus_half :: "int \<Rightarrow> rat" where
  "plus_half i = float_round (float_round (of_int i) + 1/2)"

definition times_two :: "rat \<Rightarrow> rat" where
  "times_two x = float_round (2 * x)"

definition minus_one :: "rat \<Rightarrow> int" where
  "minus_one x = trunc x - 1"

definition as_bool :: "int \<Rightarrow> bool" where
  "as_bool i = (i > 2)"

text \<open>The values in the channels carry their static type; an ill-typed value cannot occur.\<close>

datatype val = VInt int | VFloat rat | VDouble rat | VBool bool

fun plus_half_stage :: "val \<Rightarrow> val" where
  "plus_half_stage (VInt i) = VFloat (plus_half i)"
| "plus_half_stage v = v"

fun times_two_stage :: "val \<Rightarrow> val" where
  "times_two_stage (VFloat x) = VDouble (times_two x)"
| "times_two_stage v = v"

fun minus_one_stage :: "val \<Rightarrow> val" where
  "minus_one_stage (VDouble x) = VInt (minus_one x)"
| "minus_one_stage v = v"

fun as_bool_stage :: "val \<Rightarrow> val" where
  "as_bool_stage (VInt i) = VBool (as_bool i)"
| "as_bool_stage v = v"

definition app_funcs :: "(val \<Rightarrow> val) list" where
  "app_funcs = [plus_half_stage, times_two_stage, minus_one_stage, as_bool_stage]"

text \<open>The lambda of the last stage: \<open>sum += static_cast<size_t>(i); ++count;\<close> on \<open>size_t\<close>.\<close>

fun accumulate :: "val \<Rightarrow> 'w::len word \<times> 'w word \<Rightarrow> 'w word \<times> 'w word" where
  "accumulate (VBool b) (acc, cnt) = (acc + (if b then 1 else 0), cnt + 1)"
| "accumulate v st = st"

text \<open>\<open>main\<close>: ten workers in every stage but the last, which has one.\<close>

definition app_inputs :: "nat \<Rightarrow> val list" where
  "app_inputs nelems = map (\<lambda>i. VInt (int i)) [0..<nelems]"

definition app_init ::
    "('c, val) chan_ops \<Rightarrow> 's sem_ops \<Rightarrow> nat \<Rightarrow> (val, 'c, 's, 'w::len word \<times> 'w word) pipe" where
  "app_init C S nelems = pipe_init C S [10, 10, 10, 10] 1 (app_inputs nelems) (0, 0)"

section \<open>The functions are exact on the inputs\<close>

lemma app_value:
  assumes "i < 2 ^ 22"
  shows "through app_funcs 0 (VInt (int i)) = VBool (2 \<le> i)"
proof -
  have "float_round (of_int (int i)) = of_int (int i)"
    unfolding float_round_def using assms by (intro fp_round_exact [of _ "int i" 0]) (auto simp: pow2_def)
  moreover have "float_round (of_int (int i) + 1/2) = of_int (int i) + 1/2"
    unfolding float_round_def using assms
    by (intro fp_round_exact [of _ "2 * int i + 1" "-1"]) (auto simp: pow2_def field_simps)
  moreover have "float_round (2 * (of_int (int i) + 1/2)) = of_int (2 * int i + 1)"
    unfolding float_round_def using assms
    by (subst fp_round_exact [of _ "2 * int i + 1" 0]) (auto simp: pow2_def)
  ultimately show ?thesis
    by (simp add: through_def app_funcs_def plus_half_def times_two_def minus_one_def as_bool_def
        del: of_int_add of_int_mult of_int_of_nat_eq) linarith
qed

lemma map_app_values:
  "nelems \<le> 2 ^ 22 \<Longrightarrow>
   map (through app_funcs 0) (app_inputs nelems) = map (\<lambda>i. VBool (2 \<le> i)) [0..<nelems]"
  by (simp add: app_inputs_def app_value)

section \<open>The sum does not depend on the order\<close>

lemma fold_accumulate:
  "fold accumulate (map VBool bs) (s, c) =
     (s + of_nat (length (filter id bs)), c + of_nat (length bs))"
  by (induction bs arbitrary: s c) (auto simp: algebra_simps)

lemma fold_accumulate_mset:
  assumes "mset calls = mset (map VBool bs)"
  shows "fold accumulate calls (0, 0) = (of_nat (length (filter id bs)), of_nat (length bs))"
proof -
  have "set calls \<subseteq> range VBool" using assms by (metis image_subset_iff list.set_map mset_eq_setD rangeI)
  then have "calls = map VBool (map (\<lambda>v. case v of VBool b \<Rightarrow> b) calls)"
    by (induction calls) auto
  then obtain ds where ds: "calls = map VBool ds" by blast
  then have "image_mset VBool (mset ds) = image_mset VBool (mset bs)" using assms by simp
  moreover have "inj (image_mset VBool)" by (intro multiset.inj_map) (simp add: inj_def)
  ultimately have m: "mset ds = mset bs" by (simp add: inj_eq)
  then have "length ds = length bs" by (metis size_mset)
  moreover have "length (filter id ds) = length (filter id bs)"
    using m by (metis mset_filter size_mset)
  ultimately show ?thesis using fold_accumulate [of ds 0 0] by (simp add: ds)
qed

lemma app_total:
  assumes "mset calls = mset (map (through app_funcs 0) (app_inputs nelems))" and "nelems \<le> 2 ^ 22"
  shows "fold accumulate calls (0, 0) = (of_nat (nelems - 2), of_nat nelems)"
proof -
  have "mset calls = mset (map VBool (map (\<lambda>i. 2 \<le> i) [0..<nelems]))"
    using assms(1) unfolding map_app_values [OF assms(2)] by (simp add: comp_def)
  note fold_accumulate_mset [OF this]
  moreover have "filter (\<lambda>i. 2 \<le> i) [0..<nelems] = [2..<nelems]"
  proof (cases "2 \<le> nelems")
    case True
    then have "[0..<nelems] = [0..<2] @ [2..<nelems]"
      using upt_add_eq_append [of 0 2 "nelems - 2"] by (metis le_add_diff_inverse zero_le)
    moreover have "filter (\<lambda>i. 2 \<le> i) [0..<2 :: nat] = []" by (simp add: filter_empty_conv)
    moreover have "filter (\<lambda>i. 2 \<le> i) [2..<nelems] = [2..<nelems]" by (rule filter_True) simp
    ultimately show ?thesis by simp
  next
    case False
    then show ?thesis by (auto simp: filter_empty_conv)
  qed
  ultimately show ?thesis by (simp add: filter_map comp_def)
qed

text \<open>
  C5. \<open>examples/pipeline.cpp\<close> prints \<open>element sum: 999998\<close> and \<open>element count: 1000000\<close>
  (the values its comments announce) in every run that ends, for any scheduling of its 42
  coroutines, on a platform whose \<open>size_t\<close> has any width: none of the conversions through
  \<open>float\<close> and \<open>double\<close> loses a bit, and the unsynchronised sum does not depend on the order.
\<close>

theorem pipeline_cpp_output:
  assumes "chan_laws C items isclosed" and "sem_laws S permits"
    and "run_steps (pipe_step C S app_funcs accumulate) ks (app_init C S 1000000) = Some p"
    and "stuck (pipe_step C S app_funcs accumulate) p"
  shows "driver p = DDone \<and> sink p = (999998, 1000000)"
proof -
  have "length [10, 10, 10, 10 :: nat] = length app_funcs" by (simp add: app_funcs_def)
  note once = pipe_run.progress pipe_finished
  have live: "pipe_live C S items isclosed permits app_funcs accumulate ([10, 10, 10, 10] @ [1]) (0, 0)
      (app_inputs 1000000) (app_init C S 1000000)"
    unfolding app_init_def by (rule pipe_start) (simp_all add: assms app_funcs_def)
  have fin: "pipe_live C S items isclosed permits app_funcs accumulate ([10, 10, 10, 10] @ [1]) (0, 0)
      (app_inputs 1000000) p"
    by (rule pipe_run.run_inv [OF live assms(3)])
  obtain calls where "mset calls = mset (map (through app_funcs 0) (app_inputs 1000000))"
    and "sink p = fold accumulate calls (0, 0)"
    using pipe_finished [OF fin assms(4)] by blast
  then show ?thesis
    using app_total [of calls 1000000] pipe_run.progress [OF fin assms(4)] by simp
qed

theorem pipeline_cpp_output_witness:
  "\<exists>ks p. run_steps (pipe_step list_chan nat_sem app_funcs accumulate) ks
       (app_init list_chan nat_sem 1000000) = Some p \<and> sink p = (999998 :: 64 word, 1000000)"
proof -
  have "pipe_live list_chan nat_sem list_items snd (\<lambda>s. s) app_funcs accumulate ([10, 10, 10, 10] @ [1])
      (0, 0) (app_inputs 1000000) (app_init list_chan nat_sem 1000000)"
    unfolding app_init_def by (rule pipe_start) (simp_all add: app_funcs_def list_chan_laws nat_sem_laws)
  from pipe_run.reaches_stuck [OF this] obtain ks and p :: "(val, _, _, 64 word \<times> 64 word) pipe" where
    run: "run_steps (pipe_step list_chan nat_sem app_funcs accumulate) ks
       (app_init list_chan nat_sem 1000000) = Some p"
    and "stuck (pipe_step list_chan nat_sem app_funcs accumulate) p"
    by blast
  then have "sink p = (999998, 1000000)"
    using pipeline_cpp_output [OF list_chan_laws nat_sem_laws run] by blast
  with run show ?thesis by blast
qed

end
