(* ===== verification/Pipeline_Types.thy ===== *)
theory Pipeline_Types
  imports Pipeline_App
begin

text \<open>
  The static types of the out-of-order pipeline. In the C++ program the channel into stage \<open>k\<close> is
  a \<open>tmc::chan_tok<T>\<close> for the argument type \<open>T\<close> of its processing function, and
  \<open>make_pipeline_stage\<close> deduces the type of the next channel from the function's result. The
  model keeps all values in one type; here the deduced types are a predicate on it, and every step
  of every coroutine is shown to preserve them.
\<close>

section \<open>Typed states\<close>

fun wpc_typed :: "('a \<Rightarrow> bool) \<Rightarrow> ('b \<Rightarrow> bool) \<Rightarrow> ('a, 'b) wpc \<Rightarrow> bool" where
  "wpc_typed A B (WRelease v) = A v"
| "wpc_typed A B (WAcquire v) = A v"
| "wpc_typed A B (WProcess v) = A v"
| "wpc_typed A B (WPost r) = B r"
| "wpc_typed A B _ = True"

fun driver_typed :: "('v \<Rightarrow> bool) \<Rightarrow> 'v driver \<Rightarrow> bool" where
  "driver_typed A (DPost v) = A v"
| "driver_typed A _ = True"

definition chan_typed :: "('c \<Rightarrow> 'v multiset) \<Rightarrow> ('v \<Rightarrow> bool) \<Rightarrow> 'c \<Rightarrow> bool" where
  "chan_typed items A c \<longleftrightarrow> (\<forall>v\<in>#items c. A v)"

definition pipe_typed ::
    "(nat \<Rightarrow> 'v \<Rightarrow> bool) \<Rightarrow> nat \<Rightarrow> ('c \<Rightarrow> 'v multiset) \<Rightarrow> ('v, 'c, 's, 'x) pipe \<Rightarrow> bool" where
  "pipe_typed typed N items p \<longleftrightarrow>
     (\<forall>v\<in>set (pending p). typed 0 v) \<and> driver_typed (typed 0) (driver p) \<and>
     (\<forall>k\<le>N. chan_typed items (typed k) (chans p ! k)) \<and>
     (\<forall>k\<le>N. \<forall>pc\<in>set (workers p ! k). wpc_typed (typed k) (typed (Suc k)) pc)"

lemma pipe_typedI:
  assumes "\<And>v. v \<in> set (pending p) \<Longrightarrow> typed 0 v" and "driver_typed (typed 0) (driver p)"
    and "\<And>k. k \<le> N \<Longrightarrow> chan_typed items (typed k) (chans p ! k)"
    and "\<And>k pc. k \<le> N \<Longrightarrow> pc \<in> set (workers p ! k) \<Longrightarrow> wpc_typed (typed k) (typed (Suc k)) pc"
  shows "pipe_typed typed N items p"
  using assms by (simp add: pipe_typed_def)

lemma pipe_typedD:
  assumes "pipe_typed typed N items p"
  shows "v \<in> set (pending p) \<Longrightarrow> typed 0 v" and "driver_typed (typed 0) (driver p)"
    and "k \<le> N \<Longrightarrow> chan_typed items (typed k) (chans p ! k)"
    and "k \<le> N \<Longrightarrow> pc \<in> set (workers p ! k) \<Longrightarrow> wpc_typed (typed k) (typed (Suc k)) pc"
  using assms by (auto simp: pipe_typed_def)

section \<open>One step\<close>

lemma chan_typed_post:
  "chan_laws C items isclosed \<Longrightarrow> \<not> isclosed c \<Longrightarrow> A x \<Longrightarrow> chan_typed items A c \<Longrightarrow>
   chan_typed items A (ch_post C x c)"
  by (simp add: chan_typed_def chan_post)

lemma chan_typed_update:
  "chan_typed items A (xs ! j) \<Longrightarrow> (i = j \<Longrightarrow> chan_typed items A y) \<Longrightarrow>
   chan_typed items A (xs[i := y] ! j)"
  by (cases "i < length xs") (auto simp: nth_list_update list_update_beyond)

lemma chan_typed_close:
  "chan_laws C items isclosed \<Longrightarrow> chan_typed items A (ch_close C c) = chan_typed items A c"
  by (simp add: chan_typed_def chan_close)

lemma stage_worker_typed:
  assumes C: "chan_laws C items isclosed"
    and step: "stage_worker C C S f pc ic is oc os = Some (pc', ic', is', oc', os')"
    and fn: "\<forall>v. A v \<longrightarrow> B (f v)" and op: "\<not> isclosed oc"
    and ty: "wpc_typed A B pc" "chan_typed items A ic" "chan_typed items B oc"
  shows "wpc_typed A B pc' \<and> chan_typed items A ic' \<and> chan_typed items B oc'"
  using step ty
  by (cases pc; auto split: prod.splits pulled.splits option.splits simp: fn
        chan_post [OF C op] chan_typed_def
        dest!: chan_pull_Item [OF C] chan_pull_Exhausted [OF C])

lemma end_worker_typed:
  assumes C: "chan_laws C items isclosed"
    and step: "end_worker C S consume pc ic is x = Some (pc', ic', is', x')"
    and ty: "wpc_typed A B pc" "chan_typed items A ic"
  shows "wpc_typed A B pc' \<and> chan_typed items A ic'"
  using step ty
  by (cases pc; auto split: prod.splits pulled.splits
        dest!: chan_pull_Item [OF C] chan_pull_Exhausted [OF C] simp: chan_typed_def)

lemma driver_step_typed:
  assumes C: "chan_laws C items isclosed" and step: "driver_step C S p = Some p'"
    and shape: "pipe_shape N ws p" and cl: "pipe_closing items isclosed N p"
    and ty: "pipe_typed typed N items p"
  shows "pipe_typed typed N items p'"
proof (rule pipe_typedI)
  note [simp] = pipe_typedD(1,3,4) [OF ty]
  have len: "0 < length (chans p)" using shape by (simp add: pipe_shape_def)
  have op: "driver p = DPost v \<Longrightarrow> \<not> isclosed (chans p ! 0)" for v
    using cl by (simp add: pipe_closing_def)
  note d = pipe_typedD(2) [OF ty]
  show "typed 0 v" if "v \<in> set (pending p')" for v
    using step that by (auto split: driver.splits list.splits option.splits if_splits)
  show "driver_typed (typed 0) (driver p')"
    using step by (auto split: driver.splits list.splits option.splits if_splits)
  show "chan_typed items (typed k) (chans p' ! k)" if "k \<le> N" for k
    using step that len d op
    by (auto split: driver.splits list.splits option.splits if_splits
        simp: nth_list_update chan_typed_post [OF C] chan_typed_close [OF C])
  show "wpc_typed (typed k) (typed (Suc k)) pc" if "k \<le> N" "pc \<in> set (workers p' ! k)" for k pc
    using step that by (auto split: driver.splits list.splits option.splits if_splits)
qed

lemma worker_step_typed:
  assumes C: "chan_laws C items isclosed" and step: "worker_step C S funcs consume k w p = Some p'"
    and fn: "\<forall>k<length funcs. \<forall>v. typed k v \<longrightarrow> typed (Suc k) ((funcs ! k) v)"
    and shape: "pipe_shape (length funcs) ws p" and cl: "pipe_closing items isclosed (length funcs) p"
    and ty: "pipe_typed typed (length funcs) items p"
  shows "pipe_typed typed (length funcs) items p'"
proof -
  note t = pipe_typedD [OF ty]
  have len: "length (chans p) = Suc (length funcs)" "length (workers p) = Suc (length funcs)"
    using shape by (simp_all add: pipe_shape_def)
  show ?thesis
  proof (cases "k < length funcs")
    case True
    from step True obtain pc ic is1 oc os1 where
      wk: "k < length (workers p)" "w < length (workers p ! k)"
      and loc: "stage_worker C C S (funcs ! k) (workers p ! k ! w) (chans p ! k) (Some (sems p ! k))
         (chans p ! Suc k) (Some (sems p ! Suc k)) = Some (pc, ic, Some is1, oc, Some os1)"
      and p': "p' = p\<lparr> workers := (workers p)[k := (workers p ! k)[w := pc]],
               chans := (chans p)[k := ic, Suc k := oc],
               sems := (sems p)[k := is1, Suc k := os1] \<rparr>"
      by (rule worker_stage_cases)
    have "wpc_typed (typed k) (typed (Suc k)) pc \<and> chan_typed items (typed k) ic \<and>
        chan_typed items (typed (Suc k)) oc"
    proof (rule stage_worker_typed [OF C loc])
      show "\<not> isclosed (chans p ! Suc k)"
        by (rule working_open [OF cl True wk(2) worker_not_done [OF step]])
    qed (use fn t True wk in auto)
    then show ?thesis
      using t True len by (auto simp: p' nth_list_update intro!: pipe_typedI
          split: if_splits dest!: set_update_le)
  next
    case False
    from step False obtain pc ic is1 x where
      wk: "k < length (workers p)" "w < length (workers p ! k)"
      and loc: "end_worker C S consume (workers p ! k ! w) (chans p ! k) (sems p ! k) (sink p)
         = Some (pc, ic, is1, x)"
      and p': "p' = p\<lparr> workers := (workers p)[k := (workers p ! k)[w := pc]],
               chans := (chans p)[k := ic], sems := (sems p)[k := is1], sink := x \<rparr>"
      by (rule worker_end_cases)
    have "k \<le> length funcs" using wk len by simp
    then have "wpc_typed (typed k) (typed (Suc k)) pc \<and> chan_typed items (typed k) ic"
      using end_worker_typed [OF C loc] t(3) [of k] t(4) [of k "workers p ! k ! w"] wk by simp
    then show ?thesis
      using t wk len by (auto simp: p' nth_list_update intro!: pipe_typedI
          split: if_splits dest!: set_update_le)
  qed
qed

lemma closer_step_typed:
  assumes C: "chan_laws C items isclosed" and step: "closer_step C k p = Some p'"
    and ty: "pipe_typed typed N items p"
  shows "pipe_typed typed N items p'"
  using step ty
  by (auto simp: closer_step_def pipe_typed_def chan_typed_close [OF C]
      intro!: chan_typed_update split: if_splits closer.splits)

section \<open>All runs\<close>

definition pipe_checked ::
    "('c, 'v) chan_ops \<Rightarrow> 's sem_ops \<Rightarrow> ('c \<Rightarrow> 'v multiset) \<Rightarrow> ('c \<Rightarrow> bool) \<Rightarrow> ('s \<Rightarrow> nat) \<Rightarrow>
     ('v \<Rightarrow> 'v) list \<Rightarrow> ('v \<Rightarrow> 'x \<Rightarrow> 'x) \<Rightarrow> nat list \<Rightarrow> 'x \<Rightarrow> 'v list \<Rightarrow> (nat \<Rightarrow> 'v \<Rightarrow> bool) \<Rightarrow>
     ('v, 'c, 's, 'x) pipe \<Rightarrow> bool" where
  "pipe_checked C S items isclosed permits funcs consume ws x0 inputs typed p \<longleftrightarrow>
     pipe_inv C S items isclosed permits funcs consume ws x0 inputs p \<and>
     (\<forall>k<length funcs. \<forall>v. typed k v \<longrightarrow> typed (Suc k) ((funcs ! k) v)) \<and>
     pipe_typed typed (length funcs) items p"

lemma pipe_checked_step:
  assumes inv: "pipe_checked C S items isclosed permits funcs consume ws x0 inputs typed p"
    and step: "pipe_step C S funcs consume a p = Some p'"
  shows "pipe_checked C S items isclosed permits funcs consume ws x0 inputs typed p'"
proof -
  have safe: "pipe_inv C S items isclosed permits funcs consume ws x0 inputs p"
    and fn: "\<forall>k<length funcs. \<forall>v. typed k v \<longrightarrow> typed (Suc k) ((funcs ! k) v)"
    and ty: "pipe_typed typed (length funcs) items p"
    using inv by (simp_all add: pipe_checked_def)
  then have st: "chan_laws C items isclosed" "pipe_shape (length funcs) ws p"
    "pipe_closing items isclosed (length funcs) p"
    by (simp_all add: pipe_inv_def)
  have "pipe_typed typed (length funcs) items p'"
    using step
    by (cases a) (auto simp del: driver_step.simps intro: driver_step_typed [OF st(1) _ st(2,3) ty]
        worker_step_typed [OF st(1) _ fn st(2,3) ty] closer_step_typed [OF st(1) _ ty])
  then show ?thesis
    using pipe_inv_step [OF safe step] fn by (simp add: pipe_checked_def)
qed

interpretation pipe_type: invariant_system
  "pipe_step C S funcs consume"
  "pipe_checked C S items isclosed permits funcs consume ws x0 inputs typed"
  for C S funcs consume items isclosed permits ws x0 inputs typed
  by unfold_locales (fact pipe_checked_step)

lemma pipe_checked_init:
  assumes "chan_laws C items isclosed" and "sem_laws S permits" and "length ws = length funcs"
    and "\<forall>k<length funcs. \<forall>v. typed k v \<longrightarrow> typed (Suc k) ((funcs ! k) v)"
    and "\<forall>v\<in>set inputs. typed 0 v"
  shows "pipe_checked C S items isclosed permits funcs consume (ws @ [e]) x0 inputs typed
           (pipe_init C S ws e inputs x0)"
  unfolding pipe_checked_def
proof (intro conjI assms(4) pipe_inv_init [OF assms(1-3)] pipe_typedI)
  show "chan_typed items (typed k) (chans (pipe_init C S ws e inputs x0) ! k)"
    if "k \<le> length funcs" for k
    using that assms(3)
    by (simp add: pipe_init_eq nth_append nth_Cons' chan_typed_def chan_make [OF assms(1)])
  show "wpc_typed (typed k) (typed (Suc k)) pc"
    if "k \<le> length funcs" "pc \<in> set (workers (pipe_init C S ws e inputs x0) ! k)" for k pc
    using that assms(3) by (auto simp: pipe_init_eq nth_append split: if_splits)
qed (use assms(5) in \<open>simp_all add: pipe_init_eq\<close>)

section \<open>The types of \<open>pipeline.cpp\<close>\<close>

text \<open>
  The value an input \<open>i\<close> has become when it enters stage \<open>k\<close>, and the C++ type of channel \<open>k\<close>
  as a predicate: the constructor, that a \<open>float\<close> or \<open>double\<close> is a number of its format, and
  that an \<open>int\<close> is in its 32-bit range.
\<close>

fun app_val :: "nat \<Rightarrow> nat \<Rightarrow> val" where
  "app_val 0 i = VInt (int i)"
| "app_val (Suc 0) i = VFloat (of_int (int i) + 1/2)"
| "app_val (Suc (Suc 0)) i = VDouble (of_int (int (2 * i + 1)))"
| "app_val (Suc (Suc (Suc 0))) i = VInt (2 * int i)"
| "app_val _ i = VBool (2 \<le> i)"

definition is_int32 :: "int \<Rightarrow> bool" where
  "is_int32 i = (- (2 ^ 31) \<le> i \<and> i < 2 ^ 31)"

fun cpp_type :: "nat \<Rightarrow> val \<Rightarrow> bool" where
  "cpp_type k (VInt i) = (k \<in> {0, 3} \<and> is_int32 i)"
| "cpp_type k (VFloat x) = (k = 1 \<and> float_round x = x)"
| "cpp_type k (VDouble x) = (k = 2 \<and> double_round x = x)"
| "cpp_type k (VBool b) = (k = 4)"

lemma float_half: "i < 2 ^ 22 \<Longrightarrow> float_round (of_int (int i) + 1/2) = of_int (int i) + 1/2"
  unfolding float_round_def
  by (intro fp_round_exact [of _ "2 * int i + 1" "-1"]) (auto simp: pow2_def field_simps)

lemma float_int: "j < 2 ^ 23 \<Longrightarrow> float_round (of_int (int j)) = of_int (int j)"
  unfolding float_round_def by (intro fp_round_exact [of _ "int j" 0]) (auto simp: pow2_def)

lemma double_int: "j < 2 ^ 23 \<Longrightarrow> double_round (of_int (int j)) = of_int (int j)"
  unfolding double_round_def by (intro fp_round_exact [of _ "int j" 0]) (auto simp: pow2_def)

lemma plus_half_exact: "i < 2 ^ 22 \<Longrightarrow> plus_half (int i) = of_int (int i) + 1/2"
  unfolding plus_half_def using float_int [of i] float_half [of i] by simp

lemma times_two_exact:
  assumes "i < 2 ^ 22"
  shows "times_two (of_int (int i) + 1/2) = of_int (int (2 * i + 1))"
proof -
  have "2 * (of_int (int i) + 1/2) = (of_int (int (2 * i + 1)) :: rat)" by simp
  moreover have "float_round (of_int (int (2 * i + 1))) = of_int (int (2 * i + 1))"
    using assms by (intro float_int) simp
  ultimately show ?thesis unfolding times_two_def by (simp only:)
qed

lemma minus_one_exact: "minus_one (of_int (int (2 * i + 1))) = 2 * int i"
  unfolding minus_one_def trunc_int by simp

lemma app_val_step:
  assumes "i < 2 ^ 22" and "k < length app_funcs"
  shows "(app_funcs ! k) (app_val k i) = app_val (Suc k) i"
proof -
  have "k < 4" using assms(2) by (simp add: app_funcs_def)
  then consider "k = 0" | "k = Suc 0" | "k = Suc (Suc 0)" | "k = Suc (Suc (Suc 0))" by linarith
  then show ?thesis
  proof cases
    case 1
    then show ?thesis by (simp add: app_funcs_def plus_half_exact [OF assms(1), simplified])
  next
    case 2
    then show ?thesis
      using times_two_exact [OF assms(1)] by (simp add: app_funcs_def)
  next
    case 3
    then show ?thesis using minus_one_exact [of i] by (simp add: app_funcs_def)
  next
    case 4
    then show ?thesis by (simp add: app_funcs_def as_bool_def) linarith
  qed
qed

lemma app_val_type:
  assumes i: "i < 2 ^ 22" and "k \<le> 4"
  shows "cpp_type k (app_val k i)"
proof -
  consider "k = 0" | "k = Suc 0" | "k = Suc (Suc 0)" | "k = Suc (Suc (Suc 0))"
    | "k = Suc (Suc (Suc (Suc 0)))"
    using assms(2) by linarith
  then show ?thesis
  proof cases
    case 2
    then show ?thesis using float_half [OF i] by simp
  next
    case 3
    then show ?thesis using double_int [of "2 * i + 1"] i by simp
  qed (use i in \<open>simp_all add: is_int32_def\<close>)
qed

text \<open>
  C6. The static types of \<open>pipeline.cpp\<close> are preserved: in every state of every run, whatever waits
  in the channel into stage \<open>k\<close> or is held by one of its workers is an input under the first \<open>k\<close>
  processing functions, of the C++ type of that channel (\<open>int\<close>, \<open>float\<close>, \<open>double\<close>, \<open>int\<close>, \<open>bool\<close>),
  and in range of it. So no conversion ever rounds or overflows, and the consumer only sees \<open>bool\<close>s.
\<close>

theorem pipeline_cpp_types:
  assumes "chan_laws C items isclosed" and "sem_laws S permits" and "nelems \<le> 2 ^ 22"
    and "run_steps (pipe_step C S app_funcs accumulate) ks (app_init C S nelems) = Some p"
    and "k \<le> 4"
  shows "(v \<in># items (chans p ! k) \<or>
       {WRelease v, WAcquire v, WProcess v} \<inter> set (workers p ! k) \<noteq> {} \<longrightarrow>
       cpp_type k v \<and> (\<exists>i<nelems. v = app_val k i)) \<and>
    (k < 4 \<and> WPost r \<in> set (workers p ! k) \<longrightarrow>
       cpp_type (Suc k) r \<and> (\<exists>i<nelems. r = app_val (Suc k) i)) \<and>
    (driver p = DPost v \<longrightarrow> cpp_type 0 v)"
proof -
  define typed where "typed = (\<lambda>k v. \<exists>i<nelems. v = app_val k i)"
  have small: "i < 2 ^ 22" if "i < nelems" for i using that assms(3) by simp
  then have good: "cpp_type j u" if "typed j u" "j \<le> 4" for j u
    using that app_val_type unfolding typed_def by blast
  have len: "length [10, 10, 10, 10 :: nat] = length app_funcs" "length app_funcs = 4"
    by (simp_all add: app_funcs_def)
  have "pipe_checked C S items isclosed permits app_funcs accumulate ([10, 10, 10, 10] @ [1]) (0, 0)
      (app_inputs nelems) typed (app_init C S nelems)"
    unfolding app_init_def
  proof (rule pipe_checked_init [OF assms(1,2) len(1)])
    show "\<forall>k<length app_funcs. \<forall>v. typed k v \<longrightarrow> typed (Suc k) ((app_funcs ! k) v)"
      unfolding typed_def using app_val_step [OF small] by blast
    show "\<forall>v\<in>set (app_inputs nelems). typed 0 v" by (auto simp: app_inputs_def typed_def)
  qed
  from pipe_type.run_inv [OF this assms(4)] have "pipe_typed typed 4 items p"
    using len(2) by (simp add: pipe_checked_def)
  note t = pipe_typedD [OF this]
  have "typed k v" if "v \<in># items (chans p ! k) \<or>
       {WRelease v, WAcquire v, WProcess v} \<inter> set (workers p ! k) \<noteq> {}"
    using that t(3,4) [OF assms(5)] by (fastforce simp: chan_typed_def)
  moreover have "typed (Suc k) r" if "WPost r \<in> set (workers p ! k)"
    using t(4) [OF assms(5) that] by simp
  moreover have "typed 0 v" if "driver p = DPost v" using t(2) that by simp
  ultimately show ?thesis
    using good assms(5) unfolding typed_def by (metis Suc_leI zero_le)
qed

theorem pipeline_cpp_types_witness:
  "\<exists>p :: (val, _, _, 64 word \<times> 64 word) pipe.
     run_steps (pipe_step list_chan nat_sem app_funcs accumulate) [Driver, Driver]
       (app_init list_chan nat_sem 7) = Some p \<and>
     VInt 0 \<in># list_items (chans p ! 0) \<and> cpp_type 0 (VInt 0)"
proof -
  obtain p :: "(val, _, _, 64 word \<times> 64 word) pipe" where
    run: "run_steps (pipe_step list_chan nat_sem app_funcs accumulate) [Driver, Driver]
       (app_init list_chan nat_sem 7) = Some p" and there: "VInt 0 \<in># list_items (chans p ! 0)"
    by (simp add: app_init_def pipe_init_eq app_inputs_def list_chan_def nat_sem_def list_items_def
        upt_rec numeral_eq_Suc)
  have "cpp_type 0 (VInt 0)"
    using pipeline_cpp_types [OF list_chan_laws nat_sem_laws _ run, of 0 "VInt 0" undefined] there
    by simp
  with run there show ?thesis by blast
qed

end
