(* ===== verification/Pipeline_Fifo.thy ===== *)
theory Pipeline_Fifo
  imports Tmc
begin

text \<open>
  The order-preserving pipeline of \<open>examples/pipeline_fifo.hpp\<close> and the producer of
  \<open>examples/pipeline_fifo.cpp\<close>. Each stage has one worker, which forks a task for each element
  and puts the handle of the task into its bounded output queue; the next stage awaits the handles
  in the order of the queue. The queues are the library's (theory \<open>Tmc\<close>).
\<close>

section \<open>Queue elements and forked tasks\<close>

text \<open>
  An element of a queue: a value (the queue the producer pushes to) or the handle of a forked task
  (\<open>tmc::aw_spawn_fork\<close>), by its index in the table of the tasks forked so far. A task runs the
  processing function of a stage on a value, or has finished with a result.
\<close>

datatype 'v elem = Value 'v | Handle nat

datatype 'v forked = Running nat 'v | Finished 'v

definition task_result :: "'v forked list \<Rightarrow> nat \<Rightarrow> 'v option" where
  "task_result tasks t =
     (if t < length tasks then (case tasks ! t of Finished v \<Rightarrow> Some v | Running _ _ \<Rightarrow> None)
      else None)"

section \<open>Stage workers\<close>

text \<open>
  \<open>pipeline_stage::worker\<close>: waiting for an element, awaiting the pulled handle, pushing the fork of
  the processing function on the value in hand, at the end of the scope of the element, about to
  close the output queue, returned.
\<close>

datatype 'v fpc = FPull | FAwait nat | FPush 'v | FRelease | FCloseOut | FReturned

fun fifo_worker ::
    "('q, 'v elem) spsc_ops \<Rightarrow> nat \<Rightarrow> 'v fpc \<Rightarrow> 'q \<Rightarrow> 'q \<Rightarrow> 'v forked list \<Rightarrow>
     ('v fpc \<times> 'q \<times> 'q \<times> 'v forked list) option" where
  "fifo_worker Q k FPull inQueue outQueue tasks =
     (case sq_pull Q inQueue of
        (Item (Handle t), inQueue') \<Rightarrow> Some (FAwait t, inQueue', outQueue, tasks)
      | (Item (Value v), inQueue') \<Rightarrow> Some (FPush v, inQueue', outQueue, tasks)
      | (Suspended, _) \<Rightarrow> None
      | (Exhausted, inQueue') \<Rightarrow> Some (FCloseOut, inQueue', outQueue, tasks))"
| "fifo_worker Q k (FAwait t) inQueue outQueue tasks =
     (case task_result tasks t of
        None \<Rightarrow> None
      | Some v \<Rightarrow> Some (FPush v, inQueue, outQueue, tasks))"
| "fifo_worker Q k (FPush v) inQueue outQueue tasks =
     (case sq_push Q (Handle (length tasks)) outQueue of
        None \<Rightarrow> None
      | Some outQueue' \<Rightarrow> Some (FRelease, inQueue, outQueue', tasks @ [Running k v]))"
| "fifo_worker Q k FRelease inQueue outQueue tasks =
     Some (FPull, sq_release Q inQueue, outQueue, tasks)"
| "fifo_worker Q k FCloseOut inQueue outQueue tasks =
     Some (FReturned, inQueue, sq_close Q outQueue, tasks)"
| "fifo_worker Q k FReturned inQueue outQueue tasks = None"

section \<open>The end stage\<close>

text \<open>
  \<open>pipeline_end_stage\<close> runs \<open>inline_worker\<close> when its parallelism is 1 and \<open>worker\<close> otherwise.
  The points of both: waiting for an element, awaiting its handle, with the data in hand (about to
  call the function, or to push the fork of it into the internal queue), at \<open>++active\<close>, pulling
  from the internal queue, awaiting the handle pulled, at the end of the scope of the element, in
  the final loop, awaiting a handle there, returned, and the undefined \<open>handle.value()\<close> of an
  empty scope.
\<close>

datatype 'v epc = EPull | EAwait nat | EData 'v | ECount | ETake | EJoin nat | ERelease
  | EDrain | EDrainJoin nat | EReturned | EUndefined

record ('v, 'q, 'x) consumer =
  epc :: "'v epc"
  internal :: "'q"
  active :: nat
  result :: "'x"

text \<open>The parts of the loop that both workers share: pulling an element and awaiting its handle.\<close>

fun end_fetch ::
    "('q, 'v elem) spsc_ops \<Rightarrow> 'v epc \<Rightarrow> 'q \<Rightarrow> ('v, 'q, 'x) consumer \<Rightarrow>
     (('v, 'q, 'x) consumer \<times> 'q) option" where
  "end_fetch Q after inQueue c =
     (case sq_pull Q inQueue of
        (Item (Handle t), inQueue') \<Rightarrow> Some (c\<lparr>epc := EAwait t\<rparr>, inQueue')
      | (Item (Value v), inQueue') \<Rightarrow> Some (c\<lparr>epc := EData v\<rparr>, inQueue')
      | (Suspended, _) \<Rightarrow> None
      | (Exhausted, inQueue') \<Rightarrow> Some (c\<lparr>epc := after\<rparr>, inQueue'))"

definition inline_worker ::
    "('q, 'v elem) spsc_ops \<Rightarrow> ('v \<Rightarrow> 'x \<Rightarrow> 'x) \<Rightarrow> 'q \<Rightarrow> 'v forked list \<Rightarrow> ('v, 'q, 'x) consumer \<Rightarrow>
     (('v, 'q, 'x) consumer \<times> 'q) option" where
  "inline_worker Q func inQueue tasks c =
     (case epc c of
        EPull \<Rightarrow> end_fetch Q EReturned inQueue c
      | EAwait t \<Rightarrow> map_option (\<lambda>v. (c\<lparr>epc := EData v\<rparr>, inQueue)) (task_result tasks t)
      | EData v \<Rightarrow> Some (c\<lparr>epc := ERelease, result := func v (result c)\<rparr>, inQueue)
      | ERelease \<Rightarrow> Some (c\<lparr>epc := EPull\<rparr>, sq_release Q inQueue)
      | _ \<Rightarrow> None)"

definition end_join :: "('q, 'v elem) spsc_ops \<Rightarrow> 'v epc \<Rightarrow> ('v, 'q, 'x) consumer \<Rightarrow> ('v, 'q, 'x) consumer" where
  "end_join Q after c =
     c\<lparr>epc := after, active := active c - 1, internal := sq_release Q (internal c)\<rparr>"

definition end_take ::
    "('q, 'v elem) spsc_ops \<Rightarrow> (nat \<Rightarrow> 'v epc) \<Rightarrow> ('v, 'q, 'x) consumer \<Rightarrow> ('v, 'q, 'x) consumer option" where
  "end_take Q after c =
     (case sq_pull Q (internal c) of
        (Item (Handle t), i) \<Rightarrow> Some (c\<lparr>epc := after t, internal := i\<rparr>)
      | (Item (Value _), i) \<Rightarrow> Some (c\<lparr>epc := EUndefined, internal := i\<rparr>)
      | (Suspended, _) \<Rightarrow> None
      | (Exhausted, i) \<Rightarrow> Some (c\<lparr>epc := EUndefined, internal := i\<rparr>))"

definition parallel_worker ::
    "('q, 'v elem) spsc_ops \<Rightarrow> nat \<Rightarrow> nat \<Rightarrow> 'q \<Rightarrow> 'v forked list \<Rightarrow> ('v, 'q, 'x) consumer \<Rightarrow>
     (('v, 'q, 'x) consumer \<times> 'q \<times> 'v forked list) option" where
  "parallel_worker Q N parallelism inQueue tasks c =
     (case epc c of
        EPull \<Rightarrow> map_option (\<lambda>(c', q). (c', q, tasks)) (end_fetch Q EDrain inQueue c)
      | EAwait t \<Rightarrow> map_option (\<lambda>v. (c\<lparr>epc := EData v\<rparr>, inQueue, tasks)) (task_result tasks t)
      | EData v \<Rightarrow>
          map_option (\<lambda>i. (c\<lparr>epc := ECount, internal := i\<rparr>, inQueue, tasks @ [Running N v]))
            (sq_push Q (Handle (length tasks)) (internal c))
      | ECount \<Rightarrow>
          Some (c\<lparr>active := active c + 1,
                  epc := if parallelism \<le> active c + 1 then ETake else ERelease\<rparr>, inQueue, tasks)
      | ETake \<Rightarrow> map_option (\<lambda>c'. (c', inQueue, tasks)) (end_take Q EJoin c)
      | EJoin t \<Rightarrow> map_option (\<lambda>_. (end_join Q ERelease c, inQueue, tasks)) (task_result tasks t)
      | ERelease \<Rightarrow> Some (c\<lparr>epc := EPull\<rparr>, sq_release Q inQueue, tasks)
      | EDrain \<Rightarrow>
          (if 0 < active c then map_option (\<lambda>c'. (c', inQueue, tasks)) (end_take Q EDrainJoin c)
           else Some (c\<lparr>epc := EReturned\<rparr>, inQueue, tasks))
      | EDrainJoin t \<Rightarrow> map_option (\<lambda>_. (end_join Q EDrain c, inQueue, tasks)) (task_result tasks t)
      | EReturned \<Rightarrow> None
      | EUndefined \<Rightarrow> None)"

definition end_worker_step ::
    "('q, 'v elem) spsc_ops \<Rightarrow> ('v \<Rightarrow> 'x \<Rightarrow> 'x) \<Rightarrow> nat \<Rightarrow> nat \<Rightarrow> 'q \<Rightarrow> 'v forked list \<Rightarrow>
     ('v, 'q, 'x) consumer \<Rightarrow> (('v, 'q, 'x) consumer \<times> 'q \<times> 'v forked list) option" where
  "end_worker_step Q func N parallelism inQueue tasks c =
     (if parallelism = 1
      then map_option (\<lambda>(c', q). (c', q, tasks)) (inline_worker Q func inQueue tasks c)
      else parallel_worker Q N parallelism inQueue tasks c)"

section \<open>The whole pipeline\<close>

text \<open>
  The producer of \<open>pipeline_fifo.cpp\<close>: in its loop (\<open>co_await input_queue->push(i)\<close>, then
  \<open>input_queue->close()\<close> when the loop is over), awaiting the fork group, returned.
\<close>

datatype fdriver = DPush | DWait | DEnd

record ('v, 'q, 'x) fifo =
  todo :: "'v list"
  producer :: fdriver
  queues :: "'q list"           \<comment> \<open>queue \<open>k\<close> is the input of stage \<open>k\<close>; the last one of the end stage\<close>
  fworkers :: "'v fpc list"
  consumer :: "('v, 'q, 'x) consumer"
  tasks :: "'v forked list"

datatype fagent = Producer | FWorker nat | Consumer | Task nat

subsection \<open>Construction\<close>

text \<open>
  \<open>start_pipeline\<close> makes the input queue, and each stage its own output queue, of the size of its
  parallelism; the end stage makes its internal queue.
\<close>

definition fifo_source ::
    "('q, 'v elem) spsc_ops \<Rightarrow> nat \<Rightarrow> 'v list \<Rightarrow> nat \<Rightarrow> 'x \<Rightarrow> ('v, 'q, 'x) fifo" where
  "fifo_source Q parallelism inputs endParallelism x0 =
     \<lparr> todo = inputs, producer = DPush, queues = [sq_make Q parallelism], fworkers = [],
       consumer = \<lparr>epc = EPull, internal = sq_make Q endParallelism, active = 0, result = x0\<rparr>,
       tasks = [] \<rparr>"

definition fifo_stage ::
    "('q, 'v elem) spsc_ops \<Rightarrow> nat \<Rightarrow> ('v, 'q, 'x) fifo \<Rightarrow> ('v, 'q, 'x) fifo" where
  "fifo_stage Q parallelism p =
     p\<lparr>queues := queues p @ [sq_make Q parallelism], fworkers := fworkers p @ [FPull]\<rparr>"

definition fifo_init ::
    "('q, 'v elem) spsc_ops \<Rightarrow> nat \<Rightarrow> nat list \<Rightarrow> nat \<Rightarrow> 'v list \<Rightarrow> 'x \<Rightarrow> ('v, 'q, 'x) fifo" where
  "fifo_init Q first rest endParallelism inputs x0 =
     fold (fifo_stage Q) (first # rest) (fifo_source Q first inputs endParallelism x0)"

subsection \<open>Steps\<close>

definition producer_step ::
    "('q, 'v elem) spsc_ops \<Rightarrow> ('v, 'q, 'x) fifo \<Rightarrow> ('v, 'q, 'x) fifo option" where
  "producer_step Q p =
     (case producer p of
        DPush \<Rightarrow>
          (case todo p of
             [] \<Rightarrow> Some (p\<lparr>producer := DWait, queues := (queues p)[0 := sq_close Q (queues p ! 0)]\<rparr>)
           | v # vs \<Rightarrow>
               (case sq_push Q (Value v) (queues p ! 0) of
                  None \<Rightarrow> None
                | Some q \<Rightarrow> Some (p\<lparr>todo := vs, queues := (queues p)[0 := q]\<rparr>)))
      | DWait \<Rightarrow>
          (if list_all (\<lambda>w. w = FReturned) (fworkers p) \<and> epc (consumer p) = EReturned
           then Some (p\<lparr>producer := DEnd\<rparr>) else None)
      | DEnd \<Rightarrow> None)"

definition fworker_step ::
    "('q, 'v elem) spsc_ops \<Rightarrow> nat \<Rightarrow> ('v, 'q, 'x) fifo \<Rightarrow> ('v, 'q, 'x) fifo option" where
  "fworker_step Q k p =
     (if k < length (fworkers p) then
        (case fifo_worker Q k (fworkers p ! k) (queues p ! k) (queues p ! Suc k) (tasks p) of
           None \<Rightarrow> None
         | Some (pc, iq, oq, ts) \<Rightarrow>
             Some (p\<lparr>fworkers := (fworkers p)[k := pc],
                     queues := (queues p)[k := iq, Suc k := oq], tasks := ts\<rparr>))
      else None)"

definition consumer_step ::
    "('q, 'v elem) spsc_ops \<Rightarrow> ('v \<Rightarrow> 'x \<Rightarrow> 'x) \<Rightarrow> nat \<Rightarrow> ('v, 'q, 'x) fifo \<Rightarrow> ('v, 'q, 'x) fifo option" where
  "consumer_step Q func parallelism p =
     (let N = length (fworkers p) in
      case end_worker_step Q func N parallelism (queues p ! N) (tasks p) (consumer p) of
        None \<Rightarrow> None
      | Some (c, iq, ts) \<Rightarrow> Some (p\<lparr>consumer := c, queues := (queues p)[N := iq], tasks := ts\<rparr>))"

text \<open>
  A forked task runs: a processing function on its argument, or, for the tasks the end stage forks
  (index \<open>N\<close>), the consuming function, whose result is \<open>void\<close>.
\<close>

definition task_step ::
    "('v \<Rightarrow> 'v) list \<Rightarrow> ('v \<Rightarrow> 'x \<Rightarrow> 'x) \<Rightarrow> nat \<Rightarrow> ('v, 'q, 'x) fifo \<Rightarrow> ('v, 'q, 'x) fifo option" where
  "task_step funcs func t p =
     (if t < length (tasks p) then
        (case tasks p ! t of
           Finished _ \<Rightarrow> None
         | Running k v \<Rightarrow>
             (if k < length funcs then Some (p\<lparr>tasks := (tasks p)[t := Finished ((funcs ! k) v)]\<rparr>)
              else Some (p\<lparr>tasks := (tasks p)[t := Finished v],
                          consumer := (consumer p)\<lparr>result := func v (result (consumer p))\<rparr>\<rparr>)))
      else None)"

fun fifo_step ::
    "('q, 'v elem) spsc_ops \<Rightarrow> ('v \<Rightarrow> 'v) list \<Rightarrow> ('v \<Rightarrow> 'x \<Rightarrow> 'x) \<Rightarrow> nat \<Rightarrow>
     fagent \<Rightarrow> ('v, 'q, 'x) fifo \<Rightarrow> ('v, 'q, 'x) fifo option" where
  "fifo_step Q funcs func parallelism Producer p = producer_step Q p"
| "fifo_step Q funcs func parallelism (FWorker k) p = fworker_step Q k p"
| "fifo_step Q funcs func parallelism Consumer p = consumer_step Q func parallelism p"
| "fifo_step Q funcs func parallelism (Task t) p = task_step funcs func t p"

end
