(* ===== verification/Pipeline_Fifo_Inv.thy ===== *)
theory Pipeline_Fifo_Inv
  imports Pipeline_Fifo
begin

text \<open>
  The invariant of the order-preserving pipeline. It speaks of the queues through their views:
  which scopes are alive, which queues are closed, which forked tasks the handles stand for, and
  above all that the elements consumed, in hand and queued, read from the end of the pipeline to
  its source, are the transformed inputs in their order.
\<close>

section \<open>What handles stand for\<close>

text \<open>The value an element in the input queue of stage \<open>k\<close> will be at the end of the pipeline.\<close>

fun tok :: "('v \<Rightarrow> 'v) list \<Rightarrow> 'v forked list \<Rightarrow> nat \<Rightarrow> 'v elem \<Rightarrow> 'v" where
  "tok funcs ts k (Value v) = through funcs k v"
| "tok funcs ts k (Handle t) =
     (case ts ! t of Running j v \<Rightarrow> through funcs j v | Finished v \<Rightarrow> through funcs k v)"

text \<open>
  Well-formedness of an element: values occur in the producer's queue only; a handle refers to a
  task that was forked by the stage before, if it is still running.
\<close>

fun good :: "'v forked list \<Rightarrow> nat \<Rightarrow> 'v elem \<Rightarrow> bool" where
  "good ts k (Value v) = (k = 0)"
| "good ts k (Handle t) =
     (t < length ts \<and> 0 < k \<and> (\<forall>j v. ts ! t = Running j v \<longrightarrow> Suc j = k))"

lemma good_append: "good ts k e \<Longrightarrow> good (ts @ us) k e"
  by (cases e) (auto simp: nth_append)

lemma tok_append: "good ts k e \<Longrightarrow> tok funcs (ts @ us) k e = tok funcs ts k e"
  by (cases e) (auto simp: nth_append)

lemma good_new: "good (ts @ [Running k v]) (Suc k) (Handle (length ts))"
  by simp

lemma tok_new: "tok funcs (ts @ [Running k v]) (Suc k) (Handle (length ts)) = through funcs k v"
  by simp

lemma nth_finish: "ts[t := Finished w] ! s = Running j v \<Longrightarrow> ts ! s = Running j v"
  by (cases "s = t \<and> t < length ts") (auto simp: nth_list_update list_update_beyond)

lemma good_finish: "good ts k e \<Longrightarrow> good (ts[t := Finished w]) k e"
  by (cases e) (auto dest: nth_finish)

lemma tok_finish:
  assumes "good ts k e" and "ts ! t = Running j v"
    and "w = (if j < length funcs then (funcs ! j) v else v)"
  shows "tok funcs (ts[t := Finished w]) k e = tok funcs ts k e"
proof (cases e)
  case (Handle s)
  show ?thesis
  proof (cases "s = t")
    case True
    with assms Handle have "Suc j = k" "t < length ts" by auto
    then show ?thesis
      using True Handle assms through_step [of j funcs v] by auto
  next
    case False
    then show ?thesis using Handle by simp
  qed
qed simp

lemma task_result_Some: "task_result ts t = Some v \<Longrightarrow> t < length ts \<and> ts ! t = Finished v"
  by (auto simp: task_result_def split: if_splits forked.splits)

lemma task_result_None:
  "task_result ts t = None \<Longrightarrow> t < length ts \<Longrightarrow> \<exists>j v. ts ! t = Running j v"
  by (auto simp: task_result_def split: if_splits forked.splits)

fun goods :: "'v forked list \<Rightarrow> nat \<Rightarrow> 'v fpc \<Rightarrow> bool" where
  "goods ts k (FAwait t) = good ts k (Handle t)"
| "goods ts k _ = True"

fun egoods :: "'v forked list \<Rightarrow> nat \<Rightarrow> 'v epc \<Rightarrow> bool" where
  "egoods ts N (EAwait t) = good ts N (Handle t)"
| "egoods ts N (EJoin t) = good ts (Suc N) (Handle t)"
| "egoods ts N (EDrainJoin t) = good ts (Suc N) (Handle t)"
| "egoods ts N EUndefined = False"
| "egoods ts N _ = True"

text \<open>The value in the hands of a worker, and of the end stage.\<close>

fun hand :: "('v \<Rightarrow> 'v) list \<Rightarrow> 'v forked list \<Rightarrow> nat \<Rightarrow> 'v fpc \<Rightarrow> 'v list" where
  "hand funcs ts k (FAwait t) = [tok funcs ts k (Handle t)]"
| "hand funcs ts k (FPush v) = [through funcs k v]"
| "hand funcs ts k _ = []"

fun ehand :: "('v \<Rightarrow> 'v) list \<Rightarrow> 'v forked list \<Rightarrow> nat \<Rightarrow> 'v epc \<Rightarrow> 'v list" where
  "ehand funcs ts N (EAwait t) = [tok funcs ts N (Handle t)]"
| "ehand funcs ts N (EData v) = [through funcs N v]"
| "ehand funcs ts N _ = []"

fun holding :: "'v fpc \<Rightarrow> bool" where
  "holding (FAwait t) = True"
| "holding (FPush v) = True"
| "holding FRelease = True"
| "holding _ = False"

fun eholding :: "'v epc \<Rightarrow> bool" where
  "eholding EPull = False"
| "eholding EDrain = False"
| "eholding (EDrainJoin t) = False"
| "eholding EReturned = False"
| "eholding EUndefined = False"
| "eholding _ = True"

fun ejoining :: "'v epc \<Rightarrow> bool" where
  "ejoining (EJoin t) = True"
| "ejoining (EDrainJoin t) = True"
| "ejoining _ = False"

fun eclosing :: "'v epc \<Rightarrow> bool" where
  "eclosing EDrain = True"
| "eclosing (EDrainJoin t) = True"
| "eclosing EReturned = True"
| "eclosing _ = False"

section \<open>The invariant\<close>

text \<open>The elements on their way, from the input of stage \<open>k\<close> back to the source.\<close>

fun upstream ::
    "('q \<Rightarrow> 'v elem qview) \<Rightarrow> ('v \<Rightarrow> 'v) list \<Rightarrow> ('v, 'q, 'x) fifo \<Rightarrow> nat \<Rightarrow> 'v list" where
  "upstream V funcs p 0 =
     map (tok funcs (tasks p) 0) (elems (V (queues p ! 0))) @ map (through funcs 0) (todo p)"
| "upstream V funcs p (Suc k) =
     map (tok funcs (tasks p) (Suc k)) (elems (V (queues p ! Suc k))) @
     hand funcs (tasks p) k (fworkers p ! k) @ upstream V funcs p k"

text \<open>The tasks of the end stage that are still to run.\<close>

fun running :: "nat \<Rightarrow> 'v forked \<Rightarrow> 'v multiset" where
  "running N (Running j v) = (if j = N then {#v#} else {#})"
| "running N (Finished v) = {#}"

definition fifo_order ::
    "('q \<Rightarrow> 'v elem qview) \<Rightarrow> ('v \<Rightarrow> 'v) list \<Rightarrow> ('v \<Rightarrow> 'x \<Rightarrow> 'x) \<Rightarrow> nat \<Rightarrow> 'x \<Rightarrow> 'v list \<Rightarrow>
     ('v, 'q, 'x) fifo \<Rightarrow> bool" where
  "fifo_order V funcs func parallelism x0 inputs p \<longleftrightarrow>
     (\<exists>log disp. result (consumer p) = fold func log x0 \<and>
        disp @ ehand funcs (tasks p) (length funcs) (epc (consumer p)) @
          upstream V funcs p (length funcs) = map (through funcs 0) inputs \<and>
        mset log + sum_list (map (running (length funcs)) (tasks p)) = mset disp \<and>
        (parallelism = 1 \<longrightarrow> log = disp))"

lemma fifo_orderI:
  "result (consumer p) = fold func log x0 \<Longrightarrow>
   disp @ ehand funcs (tasks p) (length funcs) (epc (consumer p)) @
     upstream V funcs p (length funcs) = map (through funcs 0) inputs \<Longrightarrow>
   mset log + sum_list (map (running (length funcs)) (tasks p)) = mset disp \<Longrightarrow>
   (P = 1 \<Longrightarrow> log = disp) \<Longrightarrow> fifo_order V funcs func P x0 inputs p"
  unfolding fifo_order_def by blast

lemma fifo_orderE:
  assumes "fifo_order V funcs func P x0 inputs p"
  obtains log disp where "result (consumer p) = fold func log x0"
    "disp @ ehand funcs (tasks p) (length funcs) (epc (consumer p)) @
     upstream V funcs p (length funcs) = map (through funcs 0) inputs"
    "mset log + sum_list (map (running (length funcs)) (tasks p)) = mset disp"
    "P = 1 \<Longrightarrow> log = disp"
  using assms unfolding fifo_order_def by blast

definition fifo_shape ::
    "('q \<Rightarrow> 'v elem qview) \<Rightarrow> nat \<Rightarrow> nat list \<Rightarrow> nat \<Rightarrow> ('v, 'q, 'x) fifo \<Rightarrow> bool" where
  "fifo_shape V N caps parallelism p \<longleftrightarrow>
     length (queues p) = Suc N \<and> length (fworkers p) = N \<and>
     (\<forall>k\<le>N. cap (V (queues p ! k)) = caps ! k) \<and>
     cap (V (internal (consumer p))) = parallelism"

definition fifo_fill :: "('q \<Rightarrow> 'v elem qview) \<Rightarrow> nat \<Rightarrow> ('v, 'q, 'x) fifo \<Rightarrow> bool" where
  "fifo_fill V N p \<longleftrightarrow> (\<forall>k\<le>N. fill (V (queues p ! k)) \<le> cap (V (queues p ! k)))"

definition fifo_goods :: "('q \<Rightarrow> 'v elem qview) \<Rightarrow> nat \<Rightarrow> ('v, 'q, 'x) fifo \<Rightarrow> bool" where
  "fifo_goods V N p \<longleftrightarrow>
     (\<forall>k\<le>N. list_all (good (tasks p) k) (elems (V (queues p ! k)))) \<and>
     (\<forall>k<N. goods (tasks p) k (fworkers p ! k)) \<and>
     egoods (tasks p) N (epc (consumer p)) \<and>
     list_all (good (tasks p) (Suc N)) (elems (V (internal (consumer p)))) \<and>
     (\<forall>j v. Running j v \<in> set (tasks p) \<longrightarrow> j \<le> N)"

definition fifo_scopes :: "('q \<Rightarrow> 'v elem qview) \<Rightarrow> nat \<Rightarrow> ('v, 'q, 'x) fifo \<Rightarrow> bool" where
  "fifo_scopes V N p \<longleftrightarrow>
     (\<forall>k<N. held (V (queues p ! k)) = holding (fworkers p ! k)) \<and>
     held (V (queues p ! N)) = eholding (epc (consumer p)) \<and>
     held (V (internal (consumer p))) = ejoining (epc (consumer p))"

definition fifo_closing :: "('q \<Rightarrow> 'v elem qview) \<Rightarrow> nat \<Rightarrow> ('v, 'q, 'x) fifo \<Rightarrow> bool" where
  "fifo_closing V N p \<longleftrightarrow>
     shut (V (queues p ! 0)) = (producer p \<noteq> DPush) \<and>
     (producer p \<noteq> DPush \<longrightarrow> todo p = []) \<and>
     (\<forall>k<N. shut (V (queues p ! Suc k)) = (fworkers p ! k = FReturned)) \<and>
     (\<forall>k<N. fworkers p ! k \<in> {FCloseOut, FReturned} \<longrightarrow>
        shut (V (queues p ! k)) \<and> elems (V (queues p ! k)) = []) \<and>
     (eclosing (epc (consumer p)) \<longrightarrow> shut (V (queues p ! N)) \<and> elems (V (queues p ! N)) = []) \<and>
     (producer p = DEnd \<longrightarrow>
        list_all (\<lambda>w. w = FReturned) (fworkers p) \<and> epc (consumer p) = EReturned)"

text \<open>
  The count of the consume tasks in flight: it is the number of handles in the internal queue, up
  to the one being pushed or joined, and below the parallelism whenever a new one is pushed.
\<close>

fun end_count :: "nat \<Rightarrow> nat \<Rightarrow> nat \<Rightarrow> 'v epc \<Rightarrow> bool" where
  "end_count P n a ECount = (P \<noteq> 1 \<and> n = a + 1 \<and> a < P)"
| "end_count P n a ETake = (P \<noteq> 1 \<and> n = a \<and> 0 < a \<and> a \<le> P)"
| "end_count P n a (EJoin t) = (P \<noteq> 1 \<and> a = n + 1 \<and> a \<le> P)"
| "end_count P n a (EDrainJoin t) = (P \<noteq> 1 \<and> a = n + 1 \<and> a \<le> P)"
| "end_count P n a EDrain = (P \<noteq> 1 \<and> n = a \<and> a \<le> P)"
| "end_count P n a EReturned = (n = 0 \<and> a = 0)"
| "end_count P n a EUndefined = False"
| "end_count P n a _ = (n = a \<and> a < P)"

definition fifo_internal :: "('q \<Rightarrow> 'v elem qview) \<Rightarrow> nat \<Rightarrow> ('v, 'q, 'x) fifo \<Rightarrow> bool" where
  "fifo_internal V parallelism p \<longleftrightarrow>
     \<not> shut (V (internal (consumer p))) \<and>
     end_count parallelism (length (elems (V (internal (consumer p))))) (active (consumer p))
       (epc (consumer p))"

definition fifo_inv ::
    "('q, 'v elem) spsc_ops \<Rightarrow> ('q \<Rightarrow> 'v elem qview) \<Rightarrow> ('v \<Rightarrow> 'v) list \<Rightarrow> ('v \<Rightarrow> 'x \<Rightarrow> 'x) \<Rightarrow>
     nat list \<Rightarrow> nat \<Rightarrow> 'x \<Rightarrow> 'v list \<Rightarrow> ('v, 'q, 'x) fifo \<Rightarrow> bool" where
  "fifo_inv Q V funcs func caps parallelism x0 inputs p \<longleftrightarrow>
     spsc_laws Q V \<and> fifo_shape V (length funcs) caps parallelism p \<and> fifo_fill V (length funcs) p \<and>
     fifo_goods V (length funcs) p \<and> fifo_scopes V (length funcs) p \<and>
     fifo_closing V (length funcs) p \<and> fifo_internal V parallelism p \<and>
     fifo_order V funcs func parallelism x0 inputs p"

lemma fifo_invD:
  assumes "fifo_inv Q V funcs func caps parallelism x0 inputs p"
  shows "spsc_laws Q V" "fifo_shape V (length funcs) caps parallelism p"
    "fifo_fill V (length funcs) p" "fifo_goods V (length funcs) p" "fifo_scopes V (length funcs) p"
    "fifo_closing V (length funcs) p" "fifo_internal V parallelism p"
    "fifo_order V funcs func parallelism x0 inputs p"
  using assms by (simp_all add: fifo_inv_def)

end
