(* ===== verification/Pipeline_Fifo_Keep.thy ===== *)
theory Pipeline_Fifo_Keep
  imports Pipeline_Fifo_Inv
begin

text \<open>
  Every step of the order-preserving pipeline keeps the invariant: for each agent, what its step
  does to the queues, handles and tasks it touches, and then, part by part, the invariant.
\<close>

section \<open>Generic facts\<close>

lemma list_all_good_append: "list_all (good ts k) es \<Longrightarrow> list_all (good (ts @ us) k) es"
  by (auto simp: list_all_iff good_append)

lemma map_tok_append:
  "list_all (good ts k) es \<Longrightarrow> map (tok funcs (ts @ us) k) es = map (tok funcs ts k) es"
  by (auto simp: list_all_iff tok_append)

lemma list_all_good_finish:
  "list_all (good ts k) es \<Longrightarrow> list_all (good (ts[t := Finished w]) k) es"
  by (auto simp: list_all_iff good_finish)

lemma goods_append: "goods ts k pc \<Longrightarrow> goods (ts @ us) k pc"
  by (cases pc) (auto dest: good_append simp del: good.simps)

lemma egoods_append: "egoods ts k pc \<Longrightarrow> egoods (ts @ us) k pc"
  by (cases pc) (auto dest: good_append simp del: good.simps)

lemma hand_append: "goods ts k pc \<Longrightarrow> hand funcs (ts @ us) k pc = hand funcs ts k pc"
  by (cases pc) (auto dest: tok_append simp del: good.simps tok.simps)

lemma ehand_append: "egoods ts k pc \<Longrightarrow> ehand funcs (ts @ us) k pc = ehand funcs ts k pc"
  by (cases pc) (auto dest: tok_append simp del: good.simps tok.simps)

lemma goods_finish: "goods ts k pc \<Longrightarrow> goods (ts[t := Finished w]) k pc"
  by (cases pc) (auto dest: good_finish simp del: good.simps)

lemma egoods_finish: "egoods ts k pc \<Longrightarrow> egoods (ts[t := Finished w]) k pc"
  by (cases pc) (auto dest: good_finish simp del: good.simps)

text \<open>The elements on their way change only where the pipeline changes.\<close>

lemma upstream_cong:
  assumes "\<And>i. i \<le> m \<Longrightarrow> map (tok funcs (tasks p') i) (elems (V (queues p' ! i))) =
      map (tok funcs (tasks p) i) (elems (V (queues p ! i)))"
    and "\<And>i. i < m \<Longrightarrow> hand funcs (tasks p') i (fworkers p' ! i) = hand funcs (tasks p) i (fworkers p ! i)"
    and "todo p' = todo p"
  shows "upstream V funcs p' m = upstream V funcs p m"
  using assms by (induction m) auto

lemma upstream_above:
  assumes "\<And>i. k < i \<Longrightarrow> i \<le> m \<Longrightarrow> map (tok funcs (tasks p') i) (elems (V (queues p' ! i))) =
      map (tok funcs (tasks p) i) (elems (V (queues p ! i)))"
    and "\<And>i. k \<le> i \<Longrightarrow> i < m \<Longrightarrow>
      hand funcs (tasks p') i (fworkers p' ! i) = hand funcs (tasks p) i (fworkers p ! i)"
    and "upstream V funcs p' k = upstream V funcs p k" and "k \<le> m"
  shows "upstream V funcs p' m = upstream V funcs p m"
  using assms
proof (induction m)
  case (Suc m)
  then show ?case by (cases "k = Suc m") auto
qed simp

text \<open>What a queue view gives besides its elements.\<close>

definition behind ::
    "('q \<Rightarrow> 'v elem qview) \<Rightarrow> ('v \<Rightarrow> 'v) list \<Rightarrow> ('v, 'q, 'x) fifo \<Rightarrow> nat \<Rightarrow> 'v list" where
  "behind V funcs p k = (case k of
      0 \<Rightarrow> map (through funcs 0) (todo p)
    | Suc j \<Rightarrow> hand funcs (tasks p) j (fworkers p ! j) @ upstream V funcs p j)"

lemma upstream_behind:
  "upstream V funcs p k =
     map (tok funcs (tasks p) k) (elems (V (queues p ! k))) @ behind V funcs p k"
  by (cases k) (auto simp: behind_def)

lemma behind_cong:
  assumes "\<And>i. i < k \<Longrightarrow> map (tok funcs (tasks p') i) (elems (V (queues p' ! i))) =
      map (tok funcs (tasks p) i) (elems (V (queues p ! i)))"
    and "\<And>i. i < k \<Longrightarrow> hand funcs (tasks p') i (fworkers p' ! i) = hand funcs (tasks p) i (fworkers p ! i)"
    and "todo p' = todo p"
  shows "behind V funcs p' k = behind V funcs p k"
  using assms upstream_cong [of "k - 1" funcs p' V p] by (cases k) (auto simp: behind_def)

section \<open>A stage worker\<close>

lemma fifo_worker_local:
  assumes Q: "spsc_laws Q V"
    and step: "fifo_worker Q k pc iq oq ts = Some (pc', iq', oq', ts')"
    and held: "held (V iq) = holding pc" and out: "shut (V oq) = (pc = FReturned)"
    and closing: "pc \<in> {FCloseOut, FReturned} \<longrightarrow> shut (V iq) \<and> elems (V iq) = []"
    and good: "list_all (good ts k) (elems (V iq))" "list_all (good ts (Suc k)) (elems (V oq))"
      "goods ts k pc"
  shows "cap (V iq') = cap (V iq) \<and> cap (V oq') = cap (V oq)"
    and "fill (V iq) \<le> cap (V iq) \<Longrightarrow> fill (V iq') \<le> cap (V iq)"
    and "fill (V oq) \<le> cap (V oq) \<Longrightarrow> fill (V oq') \<le> cap (V oq)"
    and "held (V iq') = holding pc' \<and> held (V oq') = held (V oq)"
    and "shut (V iq') = shut (V iq) \<and> shut (V oq') = (pc' = FReturned)"
    and "pc \<noteq> FReturned"
    and "elems (V iq) = [] \<Longrightarrow> elems (V iq') = []"
    and "pc' \<in> {FCloseOut, FReturned} \<Longrightarrow> shut (V iq') \<and> elems (V iq') = []"
    and "ts' = ts \<or> (\<exists>v. ts' = ts @ [Running k v])"
    and "list_all (good ts' k) (elems (V iq'))" and "list_all (good ts' (Suc k)) (elems (V oq'))"
    and "goods ts' k pc'"
    and "\<And>funcs. k < length funcs \<Longrightarrow>
      map (tok funcs ts' (Suc k)) (elems (V oq')) @ hand funcs ts' k pc' @
        map (tok funcs ts' k) (elems (V iq')) =
      map (tok funcs ts (Suc k)) (elems (V oq)) @ hand funcs ts k pc @
        map (tok funcs ts k) (elems (V iq))"
  using assms
  by (cases pc; auto split: prod.splits pulled.splits option.splits elem.splits
      dest!: spsc_pull_Item [OF Q] spsc_pull_Exhausted [OF Q] spsc_push_Some [OF Q] task_result_Some
      simp: spsc_release [OF Q] spsc_close [OF Q] fill_def list_all_good_append map_tok_append)+

lemma fworker_stepE:
  assumes "fworker_step Q k p = Some p'"
  obtains pc iq oq ts where "k < length (fworkers p)"
    "fifo_worker Q k (fworkers p ! k) (queues p ! k) (queues p ! Suc k) (tasks p) = Some (pc, iq, oq, ts)"
    "p' = p\<lparr>fworkers := (fworkers p)[k := pc], queues := (queues p)[k := iq, Suc k := oq], tasks := ts\<rparr>"
  using assms by (auto simp: fworker_step_def split: if_splits option.splits)

lemma fworker_keeps:
  assumes inv: "fifo_inv Q V funcs func caps P x0 inputs p" and step: "fworker_step Q k p = Some p'"
  shows "fifo_inv Q V funcs func caps P x0 inputs p'"
proof -
  note D = fifo_invD [OF inv]
  obtain pc iq oq ts where k: "k < length (fworkers p)"
    and w: "fifo_worker Q k (fworkers p ! k) (queues p ! k) (queues p ! Suc k) (tasks p) = Some (pc, iq, oq, ts)"
    and p': "p' = p\<lparr>fworkers := (fworkers p)[k := pc], queues := (queues p)[k := iq, Suc k := oq], tasks := ts\<rparr>"
    using step by (rule fworker_stepE)
  have len: "length (queues p) = Suc (length funcs)" "length (fworkers p) = length funcs"
    using D(2) by (auto simp: fifo_shape_def)
  have kN: "k < length funcs" using k len by simp
  note L = fifo_worker_local [OF D(1) w]
  have pre: "held (V (queues p ! k)) = holding (fworkers p ! k)"
    "shut (V (queues p ! Suc k)) = (fworkers p ! k = FReturned)"
    "fworkers p ! k \<in> {FCloseOut, FReturned} \<longrightarrow>
       shut (V (queues p ! k)) \<and> elems (V (queues p ! k)) = []"
    "list_all (good (tasks p) k) (elems (V (queues p ! k)))"
    "list_all (good (tasks p) (Suc k)) (elems (V (queues p ! Suc k)))"
    "goods (tasks p) k (fworkers p ! k)"
    using D(4-6) kN by (auto simp: fifo_scopes_def fifo_closing_def fifo_goods_def)
  note L = L [OF pre]
  have q': "queues p' ! i = (if i = k then iq else if i = Suc k then oq else queues p ! i)"
    if "i \<le> length funcs" for i
    using that len kN p' by (auto simp: nth_list_update)
  have f': "fworkers p' ! i = (if i = k then pc else fworkers p ! i)" if "i < length funcs" for i
    using that len kN p' by (auto simp: nth_list_update)
  have ts': "\<exists>us. ts = tasks p @ us \<and> (us = [] \<or> (\<exists>v. us = [Running k v]))"
    using L(9) by auto
  then obtain us where us: "ts = tasks p @ us" "us = [] \<or> (\<exists>v. us = [Running k v])" by auto
  have same: "todo p' = todo p" "producer p' = producer p" "consumer p' = consumer p" "tasks p' = ts"
    "length (queues p') = length (queues p)" "length (fworkers p') = length (fworkers p)"
    using p' by auto
  have shape: "fifo_shape V (length funcs) caps P p'"
    using D(2) q' same L(1) kN by (auto simp: fifo_shape_def)
  have fill: "fifo_fill V (length funcs) p'"
    using D(3) q' L(1-3) kN by (auto simp: fifo_fill_def)
  have goods: "fifo_goods V (length funcs) p'"
    using D(4) q' f' L(10-12) us kN
    by (auto simp: fifo_goods_def same list_all_good_append goods_append egoods_append)
  have scopes: "fifo_scopes V (length funcs) p'"
    using D(5) q' f' L(4) kN by (auto simp: fifo_scopes_def same)
  have ret: "(list_all (\<lambda>w. w = FReturned) (fworkers p)) \<Longrightarrow> False"
    using L(6) kN len by (auto simp: list_all_length)
  have open': "\<not> shut (V (queues p ! Suc k))"
    using pre(2) L(6) by simp
  have c1: "shut (V (queues p' ! 0)) = (producer p' \<noteq> DPush)"
    using D(6) q' [of 0] L(5) kN by (auto simp: fifo_closing_def same)
  have c2: "shut (V (queues p' ! Suc i)) = (fworkers p' ! i = FReturned)" if "i < length funcs" for i
    using that D(6) q' [of "Suc i"] f' [of i] L(5) by (auto simp: fifo_closing_def)
  have c3: "shut (V (queues p' ! i)) \<and> elems (V (queues p' ! i)) = []"
    if "i < length funcs" and "fworkers p' ! i \<in> {FCloseOut, FReturned}" for i
    using that D(6) q' [of i] f' [of i] L(8) open' by (auto simp: fifo_closing_def split: if_splits)
  have c4: "shut (V (queues p' ! length funcs)) \<and> elems (V (queues p' ! length funcs)) = []"
    if "eclosing (epc (consumer p'))"
    using that D(6) q' [of "length funcs"] kN open' by (auto simp: fifo_closing_def same)
  have closing: "fifo_closing V (length funcs) p'"
    using D(6) c1 c2 c3 c4 ret by (auto simp: fifo_closing_def same)
  have internal: "fifo_internal V P p'"
    using D(7) by (simp add: fifo_internal_def same)
  have goodi: "list_all (good (tasks p) i) (elems (V (queues p ! i)))" if "i \<le> length funcs" for i
    using that D(4) by (simp add: fifo_goods_def)
  have goodw: "goods (tasks p) i (fworkers p ! i)" if "i < length funcs" for i
    using that D(4) by (simp add: fifo_goods_def)
  have others: "map (tok funcs (tasks p') i) (elems (V (queues p' ! i))) =
      map (tok funcs (tasks p) i) (elems (V (queues p ! i)))"
    if "i \<le> length funcs" "i \<noteq> k" "i \<noteq> Suc k" for i
    using that q' [of i] goodi [of i] us(1) same(4) by (simp add: map_tok_append)
  have hands: "hand funcs (tasks p') i (fworkers p' ! i) = hand funcs (tasks p) i (fworkers p ! i)"
    if "i < length funcs" "i \<noteq> k" for i
    using that f' [of i] goodw [of i] us(1) same(4) by (simp add: hand_append)
  have "behind V funcs p' k = behind V funcs p k"
    by (rule behind_cong) (use kN same(1) in \<open>auto intro: others hands\<close>)
  moreover have "upstream V funcs p' (Suc k) =
      map (tok funcs ts (Suc k)) (elems (V oq)) @ hand funcs ts k pc @
      map (tok funcs ts k) (elems (V iq)) @ behind V funcs p' k"
    using kN by (simp add: upstream_behind [of V funcs p' k] q' f' same)
  ultimately have "upstream V funcs p' (Suc k) = upstream V funcs p (Suc k)"
    using L(13) [OF kN] by (simp add: upstream_behind [of V funcs p k])
  then have up: "upstream V funcs p' (length funcs) = upstream V funcs p (length funcs)"
    by (rule upstream_above [rotated 2]) (use kN in \<open>auto intro: others hands\<close>)
  have eh: "ehand funcs ts (length funcs) (epc (consumer p)) =
      ehand funcs (tasks p) (length funcs) (epc (consumer p))"
    using D(4) us(1) by (simp add: fifo_goods_def ehand_append)
  have rn: "sum_list (map (running (length funcs)) ts) =
      sum_list (map (running (length funcs)) (tasks p))"
    using us kN by auto
  have order: "fifo_order V funcs func P x0 inputs p'"
    using D(8) by (simp add: fifo_order_def same up eh rn)
  show ?thesis
    using D(1) shape fill goods scopes closing internal order by (simp add: fifo_inv_def)
qed

section \<open>The producer\<close>

lemma producer_step_cases:
  assumes Q: "spsc_laws Q V" and step: "producer_step Q p = Some p'"
    and shut: "shut (V (queues p ! 0)) = (producer p \<noteq> DPush)"
  obtains (push) v vs q where "producer p = DPush" "todo p = v # vs"
      "fill (V (queues p ! 0)) < cap (V (queues p ! 0))"
      "V q = (V (queues p ! 0))\<lparr>elems := elems (V (queues p ! 0)) @ [Value v]\<rparr>"
      "p' = p\<lparr>todo := vs, queues := (queues p)[0 := q]\<rparr>"
  | (close) q where "producer p = DPush" "todo p = []"
      "V q = (V (queues p ! 0))\<lparr>shut := True\<rparr>"
      "p' = p\<lparr>producer := DWait, queues := (queues p)[0 := q]\<rparr>"
  | (finish) "producer p = DWait" "list_all (\<lambda>w. w = FReturned) (fworkers p)"
      "epc (consumer p) = EReturned" "p' = p\<lparr>producer := DEnd\<rparr>"
proof (cases "producer p")
  case DPush
  show thesis
  proof (cases "todo p")
    case Nil
    with step DPush show thesis
      using close [of "sq_close Q (queues p ! 0)"]
      by (simp add: producer_step_def spsc_close [OF Q])
  next
    case (Cons v vs)
    with step DPush obtain q where q: "sq_push Q (Value v) (queues p ! 0) = Some q"
      and p': "p' = p\<lparr>todo := vs, queues := (queues p)[0 := q]\<rparr>"
      by (auto simp: producer_step_def split: option.splits)
    show thesis
      using push [OF DPush Cons _ _ p'] spsc_push_Some [OF Q q] shut DPush by simp
  qed
next
  case DWait
  with step show thesis using finish by (auto simp: producer_step_def split: if_splits)
next
  case DEnd
  with step show thesis by (simp add: producer_step_def)
qed

lemma queues_at_0: "(qs[0 := q]) ! i = (if i = 0 \<and> qs \<noteq> [] then q else qs ! i)"
  by (cases qs) (auto simp: nth_Cons split: nat.splits)

lemma producer_keeps:
  assumes inv: "fifo_inv Q V funcs func caps P x0 inputs p" and step: "producer_step Q p = Some p'"
  shows "fifo_inv Q V funcs func caps P x0 inputs p'"
proof -
  note D = fifo_invD [OF inv]
  have ne: "queues p \<noteq> []" using D(2) by (auto simp: fifo_shape_def)
  have shut0: "shut (V (queues p ! 0)) = (producer p \<noteq> DPush)"
    using D(6) by (simp add: fifo_closing_def)
  have up: "upstream V funcs p'' (length funcs) = upstream V funcs p (length funcs)"
    if "upstream V funcs p'' 0 = upstream V funcs p 0" "tasks p'' = tasks p"
      "fworkers p'' = fworkers p" "\<And>i. 0 < i \<Longrightarrow> queues p'' ! i = queues p ! i" for p''
    by (rule upstream_above [of 0]) (use that in auto)
  from D(1) step shut0 show ?thesis
  proof (cases rule: producer_step_cases)
    case (push v vs q)
    have "upstream V funcs p' (length funcs) = upstream V funcs p (length funcs)"
      by (rule up) (use push ne in \<open>auto simp: queues_at_0\<close>)
    then have "fifo_order V funcs func P x0 inputs p'"
      using D(8) push(5) by (simp add: fifo_order_def)
    moreover have "fifo_closing V (length funcs) p'"
      using D(6) push ne by (auto simp: fifo_closing_def queues_at_0)
    moreover have "fifo_fill V (length funcs) p'"
      using D(3) push ne by (auto simp: fifo_fill_def queues_at_0 fill_def)
    ultimately show ?thesis
      using D push(1,5) ne
      by (auto simp: fifo_inv_def fifo_shape_def fifo_goods_def fifo_scopes_def fifo_internal_def
          queues_at_0 push(4))
  next
    case (close q)
    have "upstream V funcs p' (length funcs) = upstream V funcs p (length funcs)"
      by (rule up) (use close ne in \<open>auto simp: queues_at_0\<close>)
    then have "fifo_order V funcs func P x0 inputs p'"
      using D(8) close(4) by (simp add: fifo_order_def)
    moreover have "fifo_closing V (length funcs) p'"
      using D(6) close ne by (auto simp: fifo_closing_def queues_at_0)
    moreover have "fifo_fill V (length funcs) p'"
      using D(3) close ne by (auto simp: fifo_fill_def queues_at_0 fill_def)
    ultimately show ?thesis
      using D close(1,4) ne
      by (auto simp: fifo_inv_def fifo_shape_def fifo_goods_def fifo_scopes_def fifo_internal_def
          queues_at_0 close(3))
  next
    case finish
    have "upstream V funcs p' (length funcs) = upstream V funcs p (length funcs)"
      by (rule up) (use finish in auto)
    then have "fifo_order V funcs func P x0 inputs p'"
      using D(8) finish(4) by (simp add: fifo_order_def)
    moreover have "fifo_closing V (length funcs) p'"
      using D(6) finish by (auto simp: fifo_closing_def)
    ultimately show ?thesis
      using D finish(4)
      by (simp add: fifo_inv_def fifo_shape_def fifo_fill_def fifo_goods_def fifo_scopes_def fifo_internal_def)
  qed
qed

section \<open>A forked task\<close>

lemma hand_finish:
  assumes "goods ts k pc" and "ts ! t = Running j v"
    and "w = (if j < length funcs then (funcs ! j) v else v)"
  shows "hand funcs (ts[t := Finished w]) k pc = hand funcs ts k pc"
  using assms(1) tok_finish [OF _ assms(2,3)] by (cases pc) (simp_all del: good.simps tok.simps)

lemma ehand_finish:
  assumes "egoods ts k pc" and "ts ! t = Running j v"
    and "w = (if j < length funcs then (funcs ! j) v else v)"
  shows "ehand funcs (ts[t := Finished w]) k pc = ehand funcs ts k pc"
  using assms(1) tok_finish [OF _ assms(2,3)] by (cases pc) (simp_all del: good.simps tok.simps)

lemma map_tok_finish:
  assumes "list_all (good ts k) es" and "ts ! t = Running j v"
    and "w = (if j < length funcs then (funcs ! j) v else v)"
  shows "map (tok funcs (ts[t := Finished w]) k) es = map (tok funcs ts k) es"
  using assms(1) tok_finish [OF _ assms(2,3)] by (auto simp: list_all_iff)

text \<open>What both kinds of task have in common.\<close>

lemma task_step_cases:
  assumes "task_step funcs func t p = Some p'"
  obtains j v w where "t < length (tasks p)" "tasks p ! t = Running j v"
    "w = (if j < length funcs then (funcs ! j) v else v)"
    "p' = p\<lparr>tasks := (tasks p)[t := Finished w],
       consumer := (consumer p)\<lparr>result :=
         if j < length funcs then result (consumer p) else func v (result (consumer p))\<rparr>\<rparr>"
  using assms by (auto simp: task_step_def split: if_splits forked.splits)

lemma task_keeps:
  assumes inv: "fifo_inv Q V funcs func caps P x0 inputs p" and step: "task_step funcs func t p = Some p'"
  shows "fifo_inv Q V funcs func caps P x0 inputs p'"
proof -
  note D = fifo_invD [OF inv]
  obtain j v w where t: "t < length (tasks p)" and r: "tasks p ! t = Running j v"
    and w: "w = (if j < length funcs then (funcs ! j) v else v)"
    and p': "p' = p\<lparr>tasks := (tasks p)[t := Finished w],
       consumer := (consumer p)\<lparr>result :=
         if j < length funcs then result (consumer p) else func v (result (consumer p))\<rparr>\<rparr>"
    using step by (rule task_step_cases)
  have jN: "j \<le> length funcs"
    using D(4) t r nth_mem [OF t] by (auto simp: fifo_goods_def)
  have still: "Running i u \<in> set ((tasks p)[t := Finished w]) \<Longrightarrow> i \<le> length funcs" for i u
    using D(4) set_update_le [of "Running i u" "tasks p" t "Finished w"] by (auto simp: fifo_goods_def)
  have goods: "fifo_goods V (length funcs) p'"
    using D(4) still
    by (auto simp: fifo_goods_def p' list_all_good_finish goods_finish egoods_finish)
  have up: "upstream V funcs p' (length funcs) = upstream V funcs p (length funcs)"
  proof (rule upstream_cong)
    show "map (tok funcs (tasks p') i) (elems (V (queues p' ! i))) =
        map (tok funcs (tasks p) i) (elems (V (queues p ! i)))" if "i \<le> length funcs" for i
      using D(4) that by (simp add: fifo_goods_def p' map_tok_finish [OF _ r w])
    show "hand funcs (tasks p') i (fworkers p' ! i) = hand funcs (tasks p) i (fworkers p ! i)"
      if "i < length funcs" for i
      using D(4) that by (simp add: fifo_goods_def p' hand_finish [OF _ r w])
  qed (simp add: p')
  have eh: "ehand funcs (tasks p') (length funcs) (epc (consumer p')) =
      ehand funcs (tasks p) (length funcs) (epc (consumer p))"
    using D(4) by (simp add: fifo_goods_def p' ehand_finish [OF _ r w])
  let ?run = "\<lambda>ts. sum_list (map (running (length funcs)) ts)"
  have run: "?run (tasks p') + running (length funcs) (Running j v) = ?run (tasks p)"
    using sum_mset_map_update [OF t, of "running (length funcs)" "Finished w"] by (simp add: p' r)
  obtain calls disp where o: "result (consumer p) = fold func calls x0"
    "disp @ ehand funcs (tasks p) (length funcs) (epc (consumer p)) @
      upstream V funcs p (length funcs) = map (through funcs 0) inputs"
    "mset calls + ?run (tasks p) = mset disp" "P = 1 \<longrightarrow> calls = disp"
    using D(8) by (auto simp: fifo_order_def)
  have order: "fifo_order V funcs func P x0 inputs p'"
  proof (cases "j < length funcs")
    case True
    then show ?thesis
      using o run by (intro fifo_orderI [of _ _ calls _ disp], unfold eh up) (simp_all add: p')
  next
    case False
    then have j: "j = length funcs" using jN by simp
    have "P \<noteq> 1"
    proof
      assume "P = 1"
      with o have "?run (tasks p) = {#}" by simp
      with run j show False by simp
    qed
    moreover have "mset (calls @ [v]) + ?run (tasks p') = mset disp"
    proof -
      have "?run (tasks p) = add_mset v (?run (tasks p'))" using run j by simp
      then show ?thesis using o(3) by simp
    qed
    ultimately show ?thesis
      using o j by (intro fifo_orderI [of _ _ "calls @ [v]" _ disp], unfold eh up) (simp_all add: p')
  qed
  show ?thesis
    using D(1-3,5-7) goods order
    by (simp add: fifo_inv_def fifo_shape_def fifo_fill_def fifo_scopes_def fifo_closing_def
        fifo_internal_def p')
qed

section \<open>The end stage\<close>

text \<open>What a step of the end stage adds to the values dispatched (\<open>d\<close>) and consumed (\<open>l\<close>).\<close>

definition consumed ::
    "('q \<Rightarrow> 'v elem qview) \<Rightarrow> ('v \<Rightarrow> 'v) list \<Rightarrow> ('v \<Rightarrow> 'x \<Rightarrow> 'x) \<Rightarrow> nat \<Rightarrow>
     'v forked list \<Rightarrow> ('v, 'q, 'x) consumer \<Rightarrow> 'q \<Rightarrow>
     'v forked list \<Rightarrow> ('v, 'q, 'x) consumer \<Rightarrow> 'q \<Rightarrow> 'v list \<Rightarrow> 'v list \<Rightarrow> bool" where
  "consumed V funcs func P ts c q ts' c' q' d l \<longleftrightarrow>
     result c' = fold func l (result c) \<and>
     d @ ehand funcs ts' (length funcs) (epc c') @ map (tok funcs ts' (length funcs)) (elems (V q')) =
       ehand funcs ts (length funcs) (epc c) @ map (tok funcs ts (length funcs)) (elems (V q)) \<and>
     mset l + sum_list (map (running (length funcs)) ts') =
       sum_list (map (running (length funcs)) ts) + mset d \<and>
     (P = 1 \<longrightarrow> l = d)"

definition consumes where
  "consumes V funcs func P ts c q ts' c' q' \<longleftrightarrow>
     (\<exists>d l. consumed V funcs func P ts c q ts' c' q' d l)"

lemma consumes_none:
  "consumed V funcs func P ts c q ts' c' q' [] [] \<Longrightarrow> consumes V funcs func P ts c q ts' c' q'"
  unfolding consumes_def by blast

lemma consumes_one:
  "consumed V funcs func P ts c q ts' c' q' [v] [v] \<Longrightarrow> consumes V funcs func P ts c q ts' c' q'"
  unfolding consumes_def by blast

lemma consumes_fork:
  "consumed V funcs func P ts c q ts' c' q' [v] [] \<Longrightarrow> consumes V funcs func P ts c q ts' c' q'"
  unfolding consumes_def by blast

lemma inline_worker_local:
  assumes Q: "spsc_laws Q V"
    and step: "inline_worker Q func iq ts c = Some (c', iq')"
    and held: "held (V iq) = eholding (epc c)"
    and good: "list_all (good ts (length funcs)) (elems (V iq))" "egoods ts (length funcs) (epc c)"
    and count: "end_count 1 (length (elems (V (internal c)))) (active c) (epc c)"
  shows "cap (V iq') = cap (V iq)" and "internal c' = internal c" and "active c' = active c"
    and "fill (V iq) \<le> cap (V iq) \<Longrightarrow> fill (V iq') \<le> cap (V iq)"
    and "held (V iq') = eholding (epc c')" and "ejoining (epc c') = ejoining (epc c)"
    and "shut (V iq') = shut (V iq)"
    and "eclosing (epc c') \<Longrightarrow> shut (V iq') \<and> elems (V iq') = []"
    and "list_all (good ts (length funcs)) (elems (V iq'))" and "egoods ts (length funcs) (epc c')"
    and "end_count 1 (length (elems (V (internal c')))) (active c') (epc c')"
    and "epc c \<noteq> EReturned"
  using assms
  by (cases "epc c"; auto split: prod.splits pulled.splits elem.splits
      dest!: spsc_pull_Item [OF Q] spsc_pull_Exhausted [OF Q] task_result_Some
      simp: inline_worker_def spsc_release [OF Q] fill_def)+

lemma inline_worker_consumes:
  assumes Q: "spsc_laws Q V"
    and step: "inline_worker Q func iq ts c = Some (c', iq')"
    and held: "held (V iq) = eholding (epc c)"
  shows "consumes V funcs func P ts c iq ts c' iq'"
proof (cases "epc c")
  case (EData v)
  show ?thesis
    using step EData by (intro consumes_one [where v = v]) (auto simp: consumed_def inline_worker_def)
qed (rule consumes_none, use assms in \<open>auto split: prod.splits pulled.splits elem.splits
      dest!: spsc_pull_Item [OF Q] spsc_pull_Exhausted [OF Q] task_result_Some
      simp: consumed_def inline_worker_def spsc_release [OF Q]\<close>)+

lemma parallel_worker_local:
  assumes Q: "spsc_laws Q V"
    and step: "parallel_worker Q (length funcs) P iq ts c = Some (c', iq', ts')"
    and held: "held (V iq) = eholding (epc c)" "held (V (internal c)) = ejoining (epc c)"
    and opn: "\<not> shut (V (internal c))"
    and closing: "eclosing (epc c) \<longrightarrow> shut (V iq) \<and> elems (V iq) = []"
    and good: "list_all (good ts (length funcs)) (elems (V iq))" "egoods ts (length funcs) (epc c)"
      "list_all (good ts (Suc (length funcs))) (elems (V (internal c)))"
    and P: "P \<noteq> 1" and count: "end_count P (length (elems (V (internal c)))) (active c) (epc c)"
  shows "cap (V iq') = cap (V iq)" and "cap (V (internal c')) = cap (V (internal c))"
    and "fill (V iq) \<le> cap (V iq) \<Longrightarrow> fill (V iq') \<le> cap (V iq)"
    and "held (V iq') = eholding (epc c')" and "held (V (internal c')) = ejoining (epc c')"
    and "shut (V iq') = shut (V iq)" and "\<not> shut (V (internal c'))"
    and "eclosing (epc c') \<Longrightarrow> shut (V iq') \<and> elems (V iq') = []"
    and "list_all (good ts' (length funcs)) (elems (V iq'))" and "egoods ts' (length funcs) (epc c')"
    and "list_all (good ts' (Suc (length funcs))) (elems (V (internal c')))"
    and "ts' = ts \<or> (\<exists>v. ts' = ts @ [Running (length funcs) v])"
    and "end_count P (length (elems (V (internal c')))) (active c') (epc c')"
    and "epc c \<noteq> EReturned"
  using assms
  by (cases "epc c"; auto split: prod.splits pulled.splits elem.splits option.splits if_splits
      dest!: spsc_pull_Item [OF Q] spsc_pull_Exhausted [OF Q] spsc_push_Some [OF Q] task_result_Some
      simp: parallel_worker_def end_take_def end_join_def spsc_release [OF Q] fill_def
        list_all_good_append)+

lemma parallel_worker_consumes:
  assumes Q: "spsc_laws Q V"
    and step: "parallel_worker Q (length funcs) P iq ts c = Some (c', iq', ts')"
    and held: "held (V iq) = eholding (epc c)" "held (V (internal c)) = ejoining (epc c)"
    and good: "list_all (good ts (length funcs)) (elems (V iq))"
    and P: "P \<noteq> 1"
  shows "consumes V funcs func P ts c iq ts' c' iq'"
proof (cases "epc c")
  case (EData v)
  show ?thesis
    using step EData good P
    by (intro consumes_fork [where v = v])
      (auto simp: consumed_def parallel_worker_def map_tok_append split: option.splits)
next
  case EPull
  then show ?thesis
    using step held(1)
    by (intro consumes_none) (auto simp: consumed_def parallel_worker_def
        split: prod.splits pulled.splits elem.splits
        dest!: spsc_pull_Item [OF Q] spsc_pull_Exhausted [OF Q])
next
  case (EAwait t)
  then show ?thesis
    using step by (intro consumes_none) (auto simp: consumed_def parallel_worker_def dest!: task_result_Some)
next
  case ETake
  then show ?thesis
    using step by (intro consumes_none)
      (auto simp: consumed_def parallel_worker_def end_take_def split: prod.splits pulled.splits elem.splits)
next
  case EDrain
  then show ?thesis
    using step by (intro consumes_none)
      (auto simp: consumed_def parallel_worker_def end_take_def
        split: prod.splits pulled.splits elem.splits if_splits)
qed (rule consumes_none, use step in
    \<open>auto simp: consumed_def parallel_worker_def end_join_def spsc_release [OF Q]\<close>)+

text \<open>Both workers change the invariant in the same way.\<close>

lemma consumer_effect:
  assumes inv: "fifo_inv Q V funcs func caps P x0 inputs p"
    and p': "p' = p\<lparr>consumer := c, queues := (queues p)[length funcs := iq], tasks := ts\<rparr>"
    and iq: "cap (V iq) = cap (V (queues p ! length funcs))" "fill (V iq) \<le> cap (V iq)"
      "held (V iq) = eholding (epc c)" "shut (V iq) = shut (V (queues p ! length funcs))"
      "list_all (good ts (length funcs)) (elems (V iq))"
    and int: "cap (V (internal c)) = cap (V (internal (consumer p)))"
      "held (V (internal c)) = ejoining (epc c)" "\<not> shut (V (internal c))"
      "list_all (good ts (Suc (length funcs))) (elems (V (internal c)))"
    and closing: "eclosing (epc c) \<Longrightarrow> shut (V iq) \<and> elems (V iq) = []"
    and empty: "elems (V (queues p ! length funcs)) = [] \<Longrightarrow> elems (V iq) = []"
    and good: "egoods ts (length funcs) (epc c)"
    and ts: "ts = tasks p \<or> (\<exists>v. ts = tasks p @ [Running (length funcs) v])"
    and count: "end_count P (length (elems (V (internal c)))) (active c) (epc c)"
    and pc: "epc (consumer p) \<noteq> EReturned"
    and consumes: "consumes V funcs func P (tasks p) (consumer p) (queues p ! length funcs) ts c iq"
  shows "fifo_inv Q V funcs func caps P x0 inputs p'"
proof -
  note D = fifo_invD [OF inv]
  have len: "length (queues p) = Suc (length funcs)" "length (fworkers p) = length funcs"
    using D(2) by (auto simp: fifo_shape_def)
  have q': "queues p' ! i = (if i = length funcs then iq else queues p ! i)" for i
    using len p' by (auto simp: nth_list_update)
  obtain us where us: "ts = tasks p @ us" "us = [] \<or> (\<exists>v. us = [Running (length funcs) v])"
    using ts by auto
  have goods: "fifo_goods V (length funcs) p'"
    using D(4) us iq(5) int(4) good unfolding fifo_goods_def q'
    by (auto simp: p' list_all_good_append goods_append)
  have behind: "behind V funcs p' (length funcs) = behind V funcs p (length funcs)"
  proof (rule behind_cong)
    show "map (tok funcs (tasks p') i) (elems (V (queues p' ! i))) =
        map (tok funcs (tasks p) i) (elems (V (queues p ! i)))" if "i < length funcs" for i
      using D(4) that us(1) unfolding q' by (simp add: fifo_goods_def p' map_tok_append)
    show "hand funcs (tasks p') i (fworkers p' ! i) = hand funcs (tasks p) i (fworkers p ! i)"
      if "i < length funcs" for i
      using D(4) that us(1) by (simp add: fifo_goods_def p' hand_append)
  qed (simp add: p')
  have here: "queues p' ! length funcs = iq" "tasks p' = ts" "consumer p' = c"
    using q' p' by simp_all
  obtain calls disp where o: "result (consumer p) = fold func calls x0"
    "disp @ ehand funcs (tasks p) (length funcs) (epc (consumer p)) @
      upstream V funcs p (length funcs) = map (through funcs 0) inputs"
    "mset calls + sum_list (map (running (length funcs)) (tasks p)) = mset disp"
    "P = 1 \<Longrightarrow> calls = disp"
    using D(8) by (rule fifo_orderE) blast
  obtain d l where c: "consumed V funcs func P (tasks p) (consumer p) (queues p ! length funcs) ts c iq d l"
    using consumes unfolding consumes_def by blast
  have "fifo_order V funcs func P x0 inputs p'"
  proof (rule fifo_orderI [of _ _ "calls @ l" _ "disp @ d"])
    show "result (consumer p') = fold func (calls @ l) x0"
      using c o(1) by (simp add: consumed_def here)
    show "(disp @ d) @ ehand funcs (tasks p') (length funcs) (epc (consumer p')) @
        upstream V funcs p' (length funcs) = map (through funcs 0) inputs"
      using c unfolding o(2) [symmetric] upstream_behind [of V funcs _ "length funcs"] behind here
      by (simp add: consumed_def)
    show "mset (calls @ l) + sum_list (map (running (length funcs)) (tasks p')) = mset (disp @ d)"
    proof -
      have "mset (calls @ l) + sum_list (map (running (length funcs)) ts) =
          mset calls + (mset l + sum_list (map (running (length funcs)) ts))" by simp
      also have "\<dots> = (mset calls + sum_list (map (running (length funcs)) (tasks p))) + mset d"
        using c by (simp add: consumed_def)
      finally show ?thesis using o(3) by (simp add: here)
    qed
    show "calls @ l = disp @ d" if "P = 1"
      using that o(4) c by (simp add: consumed_def)
  qed
  moreover have "fifo_closing V (length funcs) p'"
  proof -
    have s: "shut (V (queues p' ! i)) = shut (V (queues p ! i))" for i
      by (simp add: q' iq(4))
    have "elems (V (queues p' ! i)) = []" if "elems (V (queues p ! i)) = []" for i
      using that empty by (auto simp: q')
    moreover have "shut (V (queues p ! length funcs)) \<and> elems (V (queues p' ! length funcs)) = []"
      if "eclosing (epc c)"
      using closing [OF that] by (simp add: q' iq(4))
    ultimately show ?thesis
      using D(6) pc unfolding fifo_closing_def s here by (auto simp: p' iq(4) simp del: nth_list_update)
  qed
  moreover have "fifo_internal V P p'"
    using int(3) count by (simp add: fifo_internal_def p')
  moreover have "fifo_scopes V (length funcs) p'"
    using D(5) iq(3) int(2) unfolding fifo_scopes_def q' by (auto simp: p')
  moreover have "fifo_fill V (length funcs) p'"
    using D(3) iq(2) by (auto simp: fifo_fill_def q')
  moreover have "fifo_shape V (length funcs) caps P p'"
    using D(2) iq(1) int(1) unfolding fifo_shape_def q' by (auto simp: p')
  ultimately show ?thesis
    using D(1) goods by (simp add: fifo_inv_def)
qed

lemma end_fetch_empty:
  assumes "spsc_laws Q V" and "end_fetch Q pc q c = Some (c', q')" and "elems (V q) = []"
    and "\<not> held (V q)"
  shows "elems (V q') = []"
  using assms by (auto split: prod.splits pulled.splits elem.splits
      dest!: spsc_pull_Item [OF assms(1)] spsc_pull_Exhausted [OF assms(1)])

lemma consumer_keeps:
  assumes inv: "fifo_inv Q V funcs func caps P x0 inputs p" and step: "consumer_step Q func P p = Some p'"
  shows "fifo_inv Q V funcs func caps P x0 inputs p'"
proof -
  note D = fifo_invD [OF inv]
  let ?N = "length funcs"
  let ?c = "consumer p" and ?iq = "queues p ! ?N" and ?ts = "tasks p"
  have len: "length (fworkers p) = ?N"
    using D(2) by (auto simp: fifo_shape_def)
  obtain c iq ts where w: "end_worker_step Q func ?N P ?iq ?ts ?c = Some (c, iq, ts)"
    and p': "p' = p\<lparr>consumer := c, queues := (queues p)[?N := iq], tasks := ts\<rparr>"
    using step by (auto simp: consumer_step_def len Let_def split: option.splits)
  have fill: "fill (V ?iq) \<le> cap (V ?iq)"
    using D(3) by (simp add: fifo_fill_def)
  have pre: "held (V ?iq) = eholding (epc ?c)" "held (V (internal ?c)) = ejoining (epc ?c)"
    "\<not> shut (V (internal ?c))" "eclosing (epc ?c) \<longrightarrow> shut (V ?iq) \<and> elems (V ?iq) = []"
    "list_all (good ?ts ?N) (elems (V ?iq))" "egoods ?ts ?N (epc ?c)"
    "list_all (good ?ts (Suc ?N)) (elems (V (internal ?c)))"
    "end_count P (length (elems (V (internal ?c)))) (active ?c) (epc ?c)"
    using D(4-7) by (auto simp: fifo_scopes_def fifo_closing_def fifo_goods_def fifo_internal_def)
  show ?thesis
  proof (cases "P = 1")
    case True
    then have w: "inline_worker Q func ?iq ?ts ?c = Some (c, iq)" and ts: "ts = ?ts"
      using w by (auto simp: end_worker_step_def)
    have cnt: "end_count 1 (length (elems (V (internal ?c)))) (active ?c) (epc ?c)"
      using pre(8) True by simp
    note L = inline_worker_local [OF D(1) w pre(1,5,6) cnt]
    have "elems (V iq) = []" if "elems (V ?iq) = []"
      using w that pre(1) end_fetch_empty [OF D(1)]
      by (cases "epc ?c") (auto simp: inline_worker_def spsc_release [OF D(1)] simp del: end_fetch.simps)
    then show ?thesis
      using L fill pre True inline_worker_consumes [OF D(1) w pre(1), of funcs P]
      by (intro consumer_effect [OF inv p']) (auto simp: ts)
  next
    case False
    then have w: "parallel_worker Q ?N P ?iq ?ts ?c = Some (c, iq, ts)"
      using w by (auto simp: end_worker_step_def)
    note L = parallel_worker_local [OF D(1) w pre(1-7) False pre(8)]
    have "elems (V iq) = []" if "elems (V ?iq) = []"
      using w that pre(1) end_fetch_empty [OF D(1)]
      by (cases "epc ?c") (auto simp: parallel_worker_def spsc_release [OF D(1)] simp del: end_fetch.simps
          split: if_splits)
    then show ?thesis
      using L fill pre parallel_worker_consumes [OF D(1) w pre(1,2,5) False]
      by (intro consumer_effect [OF inv p']) auto
  qed
qed

lemma fifo_keeps:
  assumes "fifo_inv Q V funcs func caps P x0 inputs p" and "fifo_step Q funcs func P a p = Some p'"
  shows "fifo_inv Q V funcs func caps P x0 inputs p'"
  using assms
  by (cases a) (auto intro: producer_keeps fworker_keeps consumer_keeps task_keeps)

end
