(* ===== verification/Pipeline_Fifo_Gate.thy ===== *)
theory Pipeline_Fifo_Gate
  imports Pipeline_Fifo_Keep
begin

text \<open>
  What is in flight in the order-preserving pipeline: every forked task that has not finished is claimed by
  the stage after it (by the end stage, for the tasks that the end stage forks itself). Its handle is in the queue
  between the two, or has been pulled from there and is being awaited while its scope is alive. So the
  bounds on the queues bound the tasks that run at the same time.
\<close>

section \<open>Claims\<close>

fun awaits :: "'v fpc \<Rightarrow> nat set" where
  "awaits (FAwait t) = {t}"
| "awaits _ = {}"

fun eawaits :: "'v epc \<Rightarrow> nat set" where
  "eawaits (EAwait t) = {t}"
| "eawaits _ = {}"

fun ejoins :: "'v epc \<Rightarrow> nat set" where
  "ejoins (EJoin t) = {t}"
| "ejoins (EDrainJoin t) = {t}"
| "ejoins _ = {}"

definition handles :: "'v elem qview \<Rightarrow> nat set" where
  "handles q = {t. Handle t \<in> set (elems q)}"

text \<open>The tasks of stage \<open>j\<close> (of \<open>N\<close>; the end stage is \<open>N\<close>) that the code has a handle of.\<close>

definition claims :: "('q \<Rightarrow> 'v elem qview) \<Rightarrow> nat \<Rightarrow> ('v, 'q, 'x) fifo \<Rightarrow> nat \<Rightarrow> nat set" where
  "claims V N p j =
     (if Suc j < N then handles (V (queues p ! Suc j)) \<union> awaits (fworkers p ! Suc j)
      else if Suc j = N then handles (V (queues p ! N)) \<union> eawaits (epc (consumer p))
      else handles (V (internal (consumer p))) \<union> ejoins (epc (consumer p)))"

definition fifo_claims :: "('q \<Rightarrow> 'v elem qview) \<Rightarrow> nat \<Rightarrow> ('v, 'q, 'x) fifo \<Rightarrow> bool" where
  "fifo_claims V N p \<longleftrightarrow> (\<forall>t<length (tasks p). \<forall>j v. tasks p ! t = Running j v \<longrightarrow> t \<in> claims V N p j)"

text \<open>The number of tasks of stage \<open>j\<close> that have been forked and have not finished.\<close>

fun runs_stage :: "nat \<Rightarrow> 'v forked \<Rightarrow> bool" where
  "runs_stage j (Running i v) = (i = j)"
| "runs_stage j (Finished v) = False"

definition in_flight :: "('v, 'q, 'x) fifo \<Rightarrow> nat \<Rightarrow> nat" where
  "in_flight p j = length (filter (runs_stage j) (tasks p))"

lemma handles_card: "finite (handles q) \<and> card (handles q) \<le> length (elems q)"
proof -
  have "handles q \<subseteq> (\<lambda>e. case e of Handle t \<Rightarrow> t | Value v \<Rightarrow> 0) ` set (elems q)"
    by (force simp: handles_def image_iff)
  moreover have "card ((\<lambda>e. case e of Handle t \<Rightarrow> t | Value v \<Rightarrow> 0) ` set (elems q)) \<le> length (elems q)"
    by (rule order_trans [OF card_image_le card_length]) simp
  ultimately show ?thesis
    by (meson card_mono finite_imageI finite_set finite_subset order_trans)
qed

lemma flight_le_claims:
  assumes "fifo_claims V N p" and "finite (claims V N p j)"
  shows "in_flight p j \<le> card (claims V N p j)"
proof -
  have "{t. t < length (tasks p) \<and> runs_stage j (tasks p ! t)} \<subseteq> claims V N p j"
  proof clarify
    fix t assume t: "t < length (tasks p)" "runs_stage j (tasks p ! t)"
    then obtain v where "tasks p ! t = Running j v" by (cases "tasks p ! t") auto
    then show "t \<in> claims V N p j" using assms(1) t(1) by (simp add: fifo_claims_def)
  qed
  then show ?thesis unfolding in_flight_def length_filter_conv_card by (rule card_mono [OF assms(2)])
qed

lemma awaits_card: "finite (awaits pc) \<and> card (awaits pc) \<le> of_bool (holding pc)"
  by (cases pc) auto

lemma eawaits_card: "finite (eawaits pc) \<and> card (eawaits pc) \<le> of_bool (eholding pc)"
  by (cases pc) auto

lemma ejoins_card: "finite (ejoins pc) \<and> card (ejoins pc) \<le> of_bool (ejoining pc)"
  by (cases pc) auto

lemma card_claim:
  assumes "finite A \<and> card A \<le> of_bool b" and "held q = b"
  shows "finite (handles q \<union> A) \<and> card (handles q \<union> A) \<le> fill q"
proof -
  have "card (handles q \<union> A) \<le> card (handles q) + card A" by (rule card_Un_le)
  then show ?thesis using assms handles_card [of q] by (auto simp: fill_def)
qed

lemma claims_card:
  assumes "fifo_shape V N caps P p" and "fifo_scopes V N p" and "j \<le> N"
  shows "finite (claims V N p j) \<and>
    card (claims V N p j) \<le> (if j < N then fill (V (queues p ! Suc j)) else fill (V (internal (consumer p))))"
proof -
  have s: "\<And>k. k < N \<Longrightarrow> held (V (queues p ! k)) = holding (fworkers p ! k)"
    "held (V (queues p ! N)) = eholding (epc (consumer p))"
    "held (V (internal (consumer p))) = ejoining (epc (consumer p))"
    using assms(2) by (simp_all add: fifo_scopes_def)
  consider "Suc j < N" | "Suc j = N" | "j = N" using assms(3) by linarith
  then show ?thesis
  proof cases
    case 1
    then show ?thesis using card_claim [OF awaits_card s(1) [OF 1]] by (simp add: claims_def)
  next
    case 2
    then show ?thesis using card_claim [OF eawaits_card s(2)] by (auto simp: claims_def)
  next
    case 3
    then show ?thesis using card_claim [OF ejoins_card s(3)] by (simp add: claims_def)
  qed
qed

section \<open>Steps keep the claims\<close>

text \<open>A step of a worker: tasks it drops have finished, and the one it forks is in its output queue.\<close>

definition unfinished :: "'v forked list \<Rightarrow> nat \<Rightarrow> bool" where
  "unfinished ts t \<longleftrightarrow> t < length ts \<and> (\<exists>j v. ts ! t = Running j v)"

lemma task_result_finished: "task_result ts t = Some v \<Longrightarrow> \<not> unfinished ts t"
  by (auto dest!: task_result_Some simp: unfinished_def)

lemma fifo_worker_claims:
  assumes Q: "spsc_laws Q V"
    and step: "fifo_worker Q k pc iq oq ts = Some (pc', iq', oq', ts')"
    and held: "held (V iq) = holding pc" and out: "shut (V oq) = (pc = FReturned)"
  shows "handles (V oq) \<subseteq> handles (V oq')"
    and "t \<in> handles (V iq) \<union> awaits pc \<Longrightarrow> unfinished ts t \<Longrightarrow> t \<in> handles (V iq') \<union> awaits pc'"
    and "ts' = ts \<or> (\<exists>v. ts' = ts @ [Running k v] \<and> length ts \<in> handles (V oq'))"
  using assms
  by (cases pc; auto split: prod.splits pulled.splits option.splits elem.splits
      dest!: spsc_pull_Item [OF Q] spsc_pull_Exhausted [OF Q] spsc_push_Some [OF Q] task_result_finished
      simp: spsc_release [OF Q] spsc_close [OF Q] handles_def)+

lemma fifo_claimsD: "fifo_claims V N p \<Longrightarrow> t < length (tasks p) \<Longrightarrow> tasks p ! t = Running j v \<Longrightarrow> t \<in> claims V N p j"
  by (simp add: fifo_claims_def)

lemma fworker_claims:
  assumes inv: "fifo_inv Q V funcs func caps P x0 inputs p" and cl: "fifo_claims V (length funcs) p"
    and step: "fworker_step Q k p = Some p'"
  shows "fifo_claims V (length funcs) p'"
proof -
  note D = fifo_invD [OF inv]
  let ?N = "length funcs"
  obtain pc iq oq ts where k: "k < length (fworkers p)"
    and w: "fifo_worker Q k (fworkers p ! k) (queues p ! k) (queues p ! Suc k) (tasks p) = Some (pc, iq, oq, ts)"
    and p': "p' = p\<lparr>fworkers := (fworkers p)[k := pc], queues := (queues p)[k := iq, Suc k := oq], tasks := ts\<rparr>"
    using step by (rule fworker_stepE)
  have len: "length (queues p) = Suc ?N" "length (fworkers p) = ?N" using D(2) by (auto simp: fifo_shape_def)
  have pre: "held (V (queues p ! k)) = holding (fworkers p ! k)"
    "shut (V (queues p ! Suc k)) = (fworkers p ! k = FReturned)"
    using D(5,6) k len by (auto simp: fifo_scopes_def fifo_closing_def)
  note L = fifo_worker_claims [OF D(1) w pre]
  have q': "queues p' ! i = (if i = k then iq else if i = Suc k then oq else queues p ! i)" if "i \<le> ?N" for i
    using that len k p' by (auto simp: nth_list_update)
  have f': "fworkers p' ! i = (if i = k then pc else fworkers p ! i)" if "i < ?N" for i
    using that len k p' by (auto simp: nth_list_update)
  have same: "consumer p' = consumer p" "tasks p' = ts" using p' by simp_all
  have kept: "t \<in> claims V ?N p' j" if "t \<in> claims V ?N p j" "unfinished (tasks p) t" for t j
    using that L(1) L(2) [of t] k len
    by (auto simp: claims_def q' f' same split: if_splits)
  show ?thesis
    unfolding fifo_claims_def same
  proof (intro allI impI)
    fix t j v assume t: "t < length ts" "ts ! t = Running j v"
    show "t \<in> claims V ?N p' j"
    proof (cases "t < length (tasks p)")
      case True
      then have old: "tasks p ! t = Running j v" using L(3) t by (auto simp: nth_append)
      then show ?thesis using kept fifo_claimsD [OF cl True old] True by (auto simp: unfinished_def)
    next
      case False
      then obtain "t = length (tasks p)" "j = k" "length (tasks p) \<in> handles (V oq)"
        using L(3) t by (auto simp: nth_append split: if_splits)
      then show ?thesis using k len by (auto simp: claims_def q')
    qed
  qed
qed

lemma end_worker_claims:
  assumes Q: "spsc_laws Q V"
    and step: "end_worker_step Q func N P iq ts c = Some (c', iq', ts')"
    and held: "held (V iq) = eholding (epc c)" "held (V (internal c)) = ejoining (epc c)"
    and opn: "\<not> shut (V (internal c))"
  shows "t \<in> handles (V iq) \<union> eawaits (epc c) \<Longrightarrow> unfinished ts t \<Longrightarrow> t \<in> handles (V iq') \<union> eawaits (epc c')"
    and "t \<in> handles (V (internal c)) \<union> ejoins (epc c) \<Longrightarrow> unfinished ts t \<Longrightarrow>
      t \<in> handles (V (internal c')) \<union> ejoins (epc c')"
    and "ts' = ts \<or> (\<exists>v. ts' = ts @ [Running N v] \<and> length ts \<in> handles (V (internal c')))"
  using assms
  by (cases "epc c"; auto split: if_splits prod.splits pulled.splits option.splits elem.splits
      dest!: spsc_pull_Item [OF Q] spsc_pull_Exhausted [OF Q] spsc_push_Some [OF Q] task_result_finished
      simp: end_worker_step_def inline_worker_def parallel_worker_def end_take_def end_join_def
        spsc_release [OF Q] handles_def)+

lemma consumer_claims:
  assumes inv: "fifo_inv Q V funcs func caps P x0 inputs p" and cl: "fifo_claims V (length funcs) p"
    and step: "consumer_step Q func P p = Some p'"
  shows "fifo_claims V (length funcs) p'"
proof -
  note D = fifo_invD [OF inv]
  let ?N = "length funcs"
  have len: "length (queues p) = Suc ?N" "length (fworkers p) = ?N" using D(2) by (auto simp: fifo_shape_def)
  obtain c iq ts where w: "end_worker_step Q func ?N P (queues p ! ?N) (tasks p) (consumer p) = Some (c, iq, ts)"
    and p': "p' = p\<lparr>consumer := c, queues := (queues p)[?N := iq], tasks := ts\<rparr>"
    using step by (auto simp: consumer_step_def len Let_def split: option.splits)
  have pre: "held (V (queues p ! ?N)) = eholding (epc (consumer p))"
    "held (V (internal (consumer p))) = ejoining (epc (consumer p))" "\<not> shut (V (internal (consumer p)))"
    using D(5,7) by (auto simp: fifo_scopes_def fifo_internal_def)
  note L = end_worker_claims [OF D(1) w pre]
  have q': "queues p' ! i = (if i = ?N then iq else queues p ! i)" for i
    using len p' by (auto simp: nth_list_update)
  have same: "consumer p' = c" "tasks p' = ts" "fworkers p' = fworkers p" using p' by simp_all
  have kept: "t \<in> claims V ?N p' j" if "t \<in> claims V ?N p j" "unfinished (tasks p) t" for t j
    using that L(1,2) [of t] by (auto simp: claims_def q' same split: if_splits)
  show ?thesis
    unfolding fifo_claims_def same(2)
  proof (intro allI impI)
    fix t j v assume t: "t < length ts" "ts ! t = Running j v"
    show "t \<in> claims V ?N p' j"
    proof (cases "t < length (tasks p)")
      case True
      then have old: "tasks p ! t = Running j v" using L(3) t by (auto simp: nth_append)
      then show ?thesis using kept fifo_claimsD [OF cl True old] True by (auto simp: unfinished_def)
    next
      case False
      then obtain "t = length (tasks p)" "j = ?N" "length (tasks p) \<in> handles (V (internal c))"
        using L(3) t by (auto simp: nth_append split: if_splits)
      then show ?thesis by (simp add: claims_def same)
    qed
  qed
qed

lemma producer_claims:
  assumes inv: "fifo_inv Q V funcs func caps P x0 inputs p" and cl: "fifo_claims V (length funcs) p"
    and step: "producer_step Q p = Some p'"
  shows "fifo_claims V (length funcs) p'"
proof -
  note D = fifo_invD [OF inv]
  have "queues p' ! Suc i = queues p ! Suc i" for i
    using step by (auto simp: producer_step_def split: fdriver.splits list.splits option.splits if_splits)
  moreover have "tasks p' = tasks p" "consumer p' = consumer p" "fworkers p' = fworkers p"
    using step by (auto simp: producer_step_def split: fdriver.splits list.splits option.splits if_splits)
  ultimately have "claims V (length funcs) p' = claims V (length funcs) p"
    by (cases "length funcs") (auto simp: claims_def fun_eq_iff)
  then show ?thesis using cl \<open>tasks p' = tasks p\<close> by (simp add: fifo_claims_def)
qed

lemma task_claims:
  assumes cl: "fifo_claims V N p" and step: "task_step funcs func t p = Some p'"
  shows "fifo_claims V N p'"
proof -
  obtain j v w where p': "p' = p\<lparr>tasks := (tasks p)[t := Finished w],
       consumer := (consumer p)\<lparr>result :=
         if j < length funcs then result (consumer p) else func v (result (consumer p))\<rparr>\<rparr>"
    using step by (rule task_step_cases)
  have "claims V N p' = claims V N p" by (simp add: claims_def fun_eq_iff p')
  then show ?thesis using cl by (auto simp: fifo_claims_def p' dest: nth_finish)
qed

definition fifo_gate where
  "fifo_gate Q V funcs func caps P x0 inputs p \<longleftrightarrow>
     fifo_inv Q V funcs func caps P x0 inputs p \<and> fifo_claims V (length funcs) p"

interpretation fifo_flight: invariant_system "fifo_step Q funcs func P" "fifo_gate Q V funcs func caps P x0 inputs"
  for Q V funcs func caps P x0 inputs
proof
  fix a p p' assume g: "fifo_gate Q V funcs func caps P x0 inputs p" and s: "fifo_step Q funcs func P a p = Some p'"
  have "fifo_claims V (length funcs) p'"
    using g s by (cases a)
      (auto simp: fifo_gate_def intro: producer_claims fworker_claims consumer_claims task_claims)
  then show "fifo_gate Q V funcs func caps P x0 inputs p'"
    using g fifo_keeps [OF _ s] by (simp add: fifo_gate_def)
qed

text \<open>The bounds.\<close>

lemma fifo_gate_bounds:
  assumes "fifo_gate Q V funcs func caps P x0 inputs p"
  shows "k \<le> length funcs \<Longrightarrow> fill (V (queues p ! k)) \<le> caps ! k"
    and "j < length funcs \<Longrightarrow> in_flight p j \<le> caps ! Suc j"
    and "0 < P \<Longrightarrow> in_flight p (length funcs) \<le> fill (V (internal (consumer p))) \<and>
      fill (V (internal (consumer p))) \<le> P \<and> active (consumer p) \<le> P"
proof -
  have inv: "fifo_inv Q V funcs func caps P x0 inputs p" and cl: "fifo_claims V (length funcs) p"
    using assms by (simp_all add: fifo_gate_def)
  note D = fifo_invD [OF inv]
  show fill: "fill (V (queues p ! k)) \<le> caps ! k" if "k \<le> length funcs" for k
    using D(2,3) that by (auto simp: fifo_shape_def fifo_fill_def)
  have flight: "in_flight p j \<le>
      (if j < length funcs then fill (V (queues p ! Suc j)) else fill (V (internal (consumer p))))"
    if "j \<le> length funcs" for j
    using claims_card [OF D(2,5) that] flight_le_claims [OF cl] by (meson order_trans)
  show "in_flight p j \<le> caps ! Suc j" if "j < length funcs"
    using flight [of j] fill [of "Suc j"] that by simp
  show "in_flight p (length funcs) \<le> fill (V (internal (consumer p))) \<and>
      fill (V (internal (consumer p))) \<le> P \<and> active (consumer p) \<le> P" if "0 < P"
    using flight [of "length funcs"] D(5,7) that
    by (cases "epc (consumer p)") (auto simp: fifo_internal_def fifo_scopes_def fill_def)
qed

end
