(* ===== verification/Pipeline_Fifo_Correct.thy ===== *)
theory Pipeline_Fifo_Correct
  imports Pipeline_Fifo_Gate
begin

text \<open>
  What the invariant of the order-preserving pipeline gives: the initial state satisfies it, a
  state in which nothing can run is the final one, every step decreases a measure, and hence the
  properties of all executions.
\<close>

section \<open>The initial state\<close>

lemma fold_fifo_stage:
  "fold (fifo_stage Q) ps p =
     p\<lparr>queues := queues p @ map (sq_make Q) ps, fworkers := fworkers p @ replicate (length ps) FPull\<rparr>"
  by (induction ps arbitrary: p) (auto simp: fifo_stage_def replicate_append_same replicate_app_Cons_same)

lemma fifo_init_eq:
  "fifo_init Q first rest P inputs x0 =
     \<lparr> todo = inputs, producer = DPush, queues = map (sq_make Q) (first # first # rest),
       fworkers = replicate (Suc (length rest)) FPull,
       consumer = \<lparr>epc = EPull, internal = sq_make Q P, active = 0, result = x0\<rparr>,
       tasks = [] \<rparr>"
  unfolding fifo_init_def fold_fifo_stage by (simp add: fifo_source_def)

lemma upstream_init:
  assumes "spsc_laws Q V" and "m \<le> Suc (length rest)"
  shows "upstream V funcs (fifo_init Q first rest P inputs x0) m = map (through funcs 0) inputs"
  using assms(2)
proof (induction m)
  case 0
  then show ?case by (simp add: fifo_init_eq spsc_make [OF assms(1)])
next
  case (Suc m)
  then have "V (map (sq_make Q) (first # rest) ! m) =
      \<lparr>elems = [], held = False, cap = (first # rest) ! m, shut = False\<rparr>"
    using spsc_make [OF assms(1)] by (metis length_Cons less_Suc_eq_le nth_map Suc_le_lessD)
  with Suc show ?case by (auto simp: fifo_init_eq nth_Cons')
qed

lemma init_fifo_inv:
  assumes Q: "spsc_laws Q V" and len: "length funcs = Suc (length rest)" and P: "0 < P"
  shows "fifo_inv Q V funcs func (first # first # rest) P x0 inputs
           (fifo_init Q first rest P inputs x0)" (is "fifo_inv _ _ _ _ ?caps _ _ _ ?p")
proof -
  have q: "V (queues ?p ! i) = \<lparr>elems = [], held = False, cap = ?caps ! i, shut = False\<rparr>"
    if "i \<le> length funcs" for i
    using that len spsc_make [OF Q] nth_map [of i ?caps "sq_make Q"]
    by (simp only: fifo_init_eq fifo.simps) (simp add: le_imp_less_Suc)
  have w: "fworkers ?p ! i = FPull" if "i < length funcs" for i
    using that len unfolding fifo_init_eq fifo.simps by (metis nth_replicate)
  have rest: "length (queues ?p) = Suc (length funcs)" "length (fworkers ?p) = length funcs"
    "epc (consumer ?p) = EPull" "internal (consumer ?p) = sq_make Q P" "active (consumer ?p) = 0"
    "result (consumer ?p) = x0" "tasks ?p = []" "producer ?p = DPush" "todo ?p = inputs"
    using len by (simp_all add: fifo_init_eq)
  note facts = q w rest spsc_make [OF Q]
  have "fifo_order V funcs func P x0 inputs ?p"
  proof (rule fifo_orderI [of _ _ "[]" _ "[]"])
    show "[] @ ehand funcs (tasks ?p) (length funcs) (epc (consumer ?p)) @
        upstream V funcs ?p (length funcs) = map (through funcs 0) inputs"
      using upstream_init [OF Q, of "length funcs" rest funcs first P inputs x0] len
      by (simp only: rest ehand.simps append.simps order.refl)
  qed (simp_all add: rest)
  then show ?thesis
    using Q P
    by (simp add: fifo_inv_def fifo_shape_def fifo_fill_def fill_def fifo_goods_def fifo_scopes_def
        fifo_closing_def fifo_internal_def facts)
qed

section \<open>Nothing can run: the pipeline has finished\<close>

lemma all_finished:
  assumes "\<forall>t. task_step funcs func t p = None" and "t < length (tasks p)"
  shows "\<exists>v. tasks p ! t = Finished v"
  using assms by (cases "tasks p ! t") (auto simp: task_step_def split: if_splits dest!: spec [of _ t])

lemma result_ready:
  assumes "\<forall>t. task_step funcs func t p = None" and "good (tasks p) k (Handle t)"
  shows "\<exists>v. task_result (tasks p) t = Some v"
  using all_finished [OF assms(1), of t] assms(2) by (auto simp: task_result_def)

lemma consumer_stuck:
  assumes inv: "fifo_inv Q V funcs func caps P x0 inputs p"
    and tasks: "\<forall>t. task_step funcs func t p = None" and stuck: "consumer_step Q func P p = None"
  shows "elems (V (queues p ! length funcs)) = [] \<and> \<not> held (V (queues p ! length funcs)) \<and>
    (if shut (V (queues p ! length funcs)) then epc (consumer p) = EReturned
     else epc (consumer p) = EPull)"
proof -
  note D = fifo_invD [OF inv]
  let ?c = "consumer p" and ?iq = "queues p ! length funcs"
  have len: "length (fworkers p) = length funcs"
    using D(2) by (auto simp: fifo_shape_def)
  have stuck: "end_worker_step Q func (length funcs) P ?iq (tasks p) ?c = None"
    using stuck by (auto simp: consumer_step_def len Let_def split: option.splits)
  have pre: "held (V ?iq) = eholding (epc ?c)" "held (V (internal ?c)) = ejoining (epc ?c)"
    "\<not> shut (V (internal ?c))" "eclosing (epc ?c) \<longrightarrow> shut (V ?iq) \<and> elems (V ?iq) = []"
    "egoods (tasks p) (length funcs) (epc ?c)"
    "end_count P (length (elems (V (internal ?c)))) (active ?c) (epc ?c)"
    "cap (V (internal ?c)) = P"
    using D by (auto simp: fifo_scopes_def fifo_closing_def fifo_goods_def fifo_internal_def fifo_shape_def)
  note ready = result_ready [OF tasks]
  show ?thesis
    using stuck pre
    by (cases "epc ?c"; cases "P = 1"; auto split: prod.splits pulled.splits elem.splits option.splits if_splits
        dest!: spsc_pull_Suspended [OF D(1)] spsc_push_None [OF D(1)] ready simp del: good.simps
        simp: end_worker_step_def inline_worker_def parallel_worker_def end_take_def fill_def)
qed

lemma worker_stuck:
  assumes inv: "fifo_inv Q V funcs func caps P x0 inputs p"
    and tasks: "\<forall>t. task_step funcs func t p = None" and stuck: "fworker_step Q k p = None"
    and k: "k < length funcs" and room: "fill (V (queues p ! Suc k)) < cap (V (queues p ! Suc k))"
  shows "fill (V (queues p ! k)) = 0 \<and>
    (if shut (V (queues p ! k)) then fworkers p ! k = FReturned else fworkers p ! k = FPull)"
proof -
  note D = fifo_invD [OF inv]
  have len: "length (fworkers p) = length funcs"
    using D(2) by (auto simp: fifo_shape_def)
  have stuck: "fifo_worker Q k (fworkers p ! k) (queues p ! k) (queues p ! Suc k) (tasks p) = None"
    using stuck k len by (auto simp: fworker_step_def split: option.splits)
  have pre: "held (V (queues p ! k)) = holding (fworkers p ! k)"
    "fworkers p ! k \<in> {FCloseOut, FReturned} \<longrightarrow>
       shut (V (queues p ! k)) \<and> elems (V (queues p ! k)) = []"
    "shut (V (queues p ! Suc k)) = (fworkers p ! k = FReturned)" "goods (tasks p) k (fworkers p ! k)"
    using D(4-6) k by (auto simp: fifo_scopes_def fifo_closing_def fifo_goods_def)
  show ?thesis
    using stuck pre room
    by (cases "fworkers p ! k"; auto split: prod.splits pulled.splits elem.splits option.splits
        dest!: spsc_pull_Suspended [OF D(1)] spsc_push_None [OF D(1)] result_ready [OF tasks]
        simp: fill_def simp del: good.simps)
qed

lemma fifo_progress:
  assumes inv: "fifo_inv Q V funcs func caps P x0 inputs p" and caps: "\<forall>k\<le>length funcs. 0 < caps ! k"
    and stuck: "stuck (fifo_step Q funcs func P) p"
  shows "producer p = DEnd"
proof -
  note D = fifo_invD [OF inv]
  let ?N = "length funcs"
  have len: "length (fworkers p) = ?N" using D(2) by (auto simp: fifo_shape_def)
  have tasks: "\<forall>t. task_step funcs func t p = None"
    using stuckD [OF stuck, of "Task _"] by simp
  have workers: "fworker_step Q k p = None" for k
    using stuckD [OF stuck, of "FWorker k"] by simp
  have room: "0 < cap (V (queues p ! k))" if "k \<le> ?N" for k
    using that D(2) caps by (simp add: fifo_shape_def)
  have cons: "elems (V (queues p ! ?N)) = [] \<and> \<not> held (V (queues p ! ?N)) \<and>
      (if shut (V (queues p ! ?N)) then epc (consumer p) = EReturned else epc (consumer p) = EPull)"
    using consumer_stuck [OF inv tasks] stuckD [OF stuck, of Consumer] by simp
  have empty: "fill (V (queues p ! (?N - j))) = 0" for j
  proof (induction j)
    case 0
    then show ?case using cons by (simp add: fill_def)
  next
    case (Suc j)
    show ?case
    proof (cases "j < ?N")
      case True
      then have "Suc (?N - Suc j) = ?N - j" by simp
      then have "fill (V (queues p ! Suc (?N - Suc j))) < cap (V (queues p ! Suc (?N - Suc j)))"
        using Suc room [of "?N - j"] by simp
      with worker_stuck [OF inv tasks workers] True show ?thesis by simp
    qed (use Suc in simp)
  qed
  have fill0: "fill (V (queues p ! k)) = 0" if "k \<le> ?N" for k
    using empty [of "?N - k"] that by simp
  have worker: "if shut (V (queues p ! k)) then fworkers p ! k = FReturned else fworkers p ! k = FPull"
    if "k < ?N" for k
    using worker_stuck [OF inv tasks workers that] fill0 [of "Suc k"] room [of "Suc k"] that by simp
  have noproducer: "producer_step Q p = None"
    using stuckD [OF stuck, of Producer] by simp
  show ?thesis
  proof (cases "producer p")
    case DPush
    then have "\<not> shut (V (queues p ! 0))" using D(6) by (simp add: fifo_closing_def)
    moreover obtain x where "sq_push Q x (queues p ! 0) = None"
      using noproducer DPush by (auto simp: producer_step_def split: list.splits option.splits)
    ultimately have "cap (V (queues p ! 0)) \<le> fill (V (queues p ! 0))"
      by (intro spsc_push_None [OF D(1)])
    then show ?thesis using fill0 [of 0] room [of 0] by simp
  next
    case DWait
    have closed: "shut (V (queues p ! k))" if "k \<le> ?N" for k
      using that
    proof (induction k)
      case 0
      then show ?case using D(6) DWait by (simp add: fifo_closing_def)
    next
      case (Suc k)
      then show ?case using worker [of k] D(6) by (simp add: fifo_closing_def)
    qed
    have "list_all (\<lambda>w. w = FReturned) (fworkers p)"
      using worker closed by (simp add: list_all_length len)
    moreover have "epc (consumer p) = EReturned"
      using cons closed by simp
    ultimately show ?thesis
      using noproducer DWait by (simp add: producer_step_def)
  qed
qed

section \<open>Every step decreases a measure\<close>

text \<open>
  The steps that remain: an element in the input queue of stage \<open>k\<close> costs its way through all the
  stages from there.
\<close>

fun epc_work :: "'v epc \<Rightarrow> nat" where
  "epc_work (EAwait t) = 12"
| "epc_work (EData v) = 11"
| "epc_work ECount = 6"
| "epc_work ETake = 4"
| "epc_work (EJoin t) = 5"
| "epc_work ERelease = 3"
| "epc_work EPull = 2"
| "epc_work EDrain = 1"
| "epc_work (EDrainJoin t) = 3"
| "epc_work EReturned = 0"
| "epc_work EUndefined = 0"

definition elem_work :: "nat \<Rightarrow> nat \<Rightarrow> nat" where
  "elem_work N k = 11 + 5 * (N - k)"

fun fpc_work :: "nat \<Rightarrow> nat \<Rightarrow> 'v fpc \<Rightarrow> nat" where
  "fpc_work N k (FAwait t) = elem_work N k + 1"
| "fpc_work N k (FPush v) = elem_work N k"
| "fpc_work N k FRelease = 3"
| "fpc_work N k FPull = 2"
| "fpc_work N k FCloseOut = 1"
| "fpc_work N k FReturned = 0"

fun task_work :: "'v forked \<Rightarrow> nat" where
  "task_work (Running k v) = 1"
| "task_work (Finished v) = 0"

fun producer_work :: "fdriver \<Rightarrow> nat" where
  "producer_work DPush = 2"
| "producer_work DWait = 1"
| "producer_work DEnd = 0"

definition fifo_stage_work :: "('q \<Rightarrow> 'v elem qview) \<Rightarrow> nat \<Rightarrow> ('v, 'q, 'x) fifo \<Rightarrow> nat \<Rightarrow> nat" where
  "fifo_stage_work V N p k = elem_work N k * length (elems (V (queues p ! k))) +
     (if k < N then fpc_work N k (fworkers p ! k)
      else epc_work (epc (consumer p)) + 3 * length (elems (V (internal (consumer p)))))"

definition fifo_work :: "('q \<Rightarrow> 'v elem qview) \<Rightarrow> nat \<Rightarrow> ('v, 'q, 'x) fifo \<Rightarrow> nat" where
  "fifo_work V N p = producer_work (producer p) + (elem_work N 0 + 1) * length (todo p) +
     (\<Sum>k\<le>N. fifo_stage_work V N p k) + sum_list (map task_work (tasks p))"

lemma elem_work_step: "k < N \<Longrightarrow> elem_work N k = elem_work N (Suc k) + 5"
  by (simp add: elem_work_def)

lemma fifo_worker_work:
  assumes Q: "spsc_laws Q V"
    and step: "fifo_worker Q k pc iq oq ts = Some (pc', iq', oq', ts')"
    and held: "held (V iq) = holding pc" and out: "shut (V oq) = (pc = FReturned)" and k: "k < N"
  shows "elem_work N k * length (elems (V iq')) + fpc_work N k pc' +
      elem_work N (Suc k) * length (elems (V oq')) + sum_list (map task_work ts') <
      elem_work N k * length (elems (V iq)) + fpc_work N k pc +
      elem_work N (Suc k) * length (elems (V oq)) + sum_list (map task_work ts)"
  using assms
  by (cases pc; auto split: prod.splits pulled.splits option.splits elem.splits
      dest!: spsc_pull_Item [OF Q] spsc_pull_Exhausted [OF Q] spsc_push_Some [OF Q]
      simp: spsc_release [OF Q] spsc_close [OF Q] elem_work_step algebra_simps)

lemma fifo_end_worker_work:
  assumes Q: "spsc_laws Q V"
    and step: "end_worker_step Q func N P iq ts c = Some (c', iq', ts')"
    and held: "held (V iq) = eholding (epc c)" "held (V (internal c)) = ejoining (epc c)"
    and opn: "\<not> shut (V (internal c))"
    and count: "end_count P (length (elems (V (internal c)))) (active c) (epc c)"
  shows "elem_work N N * length (elems (V iq')) + epc_work (epc c') +
      3 * length (elems (V (internal c'))) + sum_list (map task_work ts') <
      elem_work N N * length (elems (V iq)) + epc_work (epc c) +
      3 * length (elems (V (internal c))) + sum_list (map task_work ts)"
  using assms
  by (cases "epc c"; cases "P = 1"; auto split: prod.splits pulled.splits option.splits elem.splits if_splits
      dest!: spsc_pull_Item [OF Q] spsc_pull_Exhausted [OF Q] spsc_push_Some [OF Q]
      simp: end_worker_step_def inline_worker_def parallel_worker_def end_take_def end_join_def
        spsc_release [OF Q] elem_work_def algebra_simps)

lemma producer_work_less:
  assumes inv: "fifo_inv Q V funcs func caps P x0 inputs p" and step: "producer_step Q p = Some p'"
  shows "fifo_work V (length funcs) p' < fifo_work V (length funcs) p"
proof -
  note D = fifo_invD [OF inv]
  let ?N = "length funcs"
  have ne: "queues p \<noteq> []" using D(2) by (auto simp: fifo_shape_def)
  have shut0: "shut (V (queues p ! 0)) = (producer p \<noteq> DPush)"
    using D(6) by (simp add: fifo_closing_def)
  have q0: "fifo_stage_work V ?N p'' j = fifo_stage_work V ?N p j"
    if "j \<noteq> 0" "queues p'' = (queues p)[0 := q]" "fworkers p'' = fworkers p" "consumer p'' = consumer p"
    for p'' q j
    using that ne by (simp add: fifo_stage_work_def queues_at_0)
  from D(1) step shut0 show ?thesis
  proof (cases rule: producer_step_cases)
    case (push v vs q)
    have "(\<Sum>j\<le>?N. fifo_stage_work V ?N p' j) + 0 = (\<Sum>j\<le>?N. fifo_stage_work V ?N p j) + elem_work ?N 0"
      by (rule sum_change_one [of 0])
        (use push ne in \<open>auto intro!: q0 simp: fifo_stage_work_def queues_at_0 algebra_simps\<close>)
    then show ?thesis
      using push(1,2,5) by (simp add: fifo_work_def algebra_simps)
  next
    case (close q)
    have "(\<Sum>j\<le>?N. fifo_stage_work V ?N p' j) + 0 = (\<Sum>j\<le>?N. fifo_stage_work V ?N p j) + 0"
      by (rule sum_change_one [of 0])
        (use close ne in \<open>auto intro!: q0 simp: fifo_stage_work_def queues_at_0\<close>)
    then show ?thesis
      using close(1,4) by (simp add: fifo_work_def)
  next
    case finish
    then have "fifo_stage_work V ?N p' j = fifo_stage_work V ?N p j" for j
      by (simp add: fifo_stage_work_def)
    then show ?thesis using finish by (simp add: fifo_work_def)
  qed
qed

lemma fworker_work_less:
  assumes inv: "fifo_inv Q V funcs func caps P x0 inputs p" and step: "fworker_step Q k p = Some p'"
  shows "fifo_work V (length funcs) p' < fifo_work V (length funcs) p"
proof -
  note D = fifo_invD [OF inv]
  let ?N = "length funcs"
  obtain pc iq oq ts where k: "k < length (fworkers p)"
    and w: "fifo_worker Q k (fworkers p ! k) (queues p ! k) (queues p ! Suc k) (tasks p) = Some (pc, iq, oq, ts)"
    and p': "p' = p\<lparr>fworkers := (fworkers p)[k := pc], queues := (queues p)[k := iq, Suc k := oq], tasks := ts\<rparr>"
    using step by (rule fworker_stepE)
  have len: "length (queues p) = Suc ?N" "length (fworkers p) = ?N"
    using D(2) by (auto simp: fifo_shape_def)
  have pre: "held (V (queues p ! k)) = holding (fworkers p ! k)"
    "shut (V (queues p ! Suc k)) = (fworkers p ! k = FReturned)"
    using D(5,6) k len by (auto simp: fifo_scopes_def fifo_closing_def)
  note W = fifo_worker_work [OF D(1) w pre, of ?N]
  have "(\<Sum>j\<le>?N. fifo_stage_work V ?N p' j) + sum_list (map task_work ts) <
      (\<Sum>j\<le>?N. fifo_stage_work V ?N p j) + sum_list (map task_work (tasks p))"
  proof (rule sum_change_two_slack [of k])
    show "fifo_stage_work V ?N p' k + fifo_stage_work V ?N p' (Suc k) + sum_list (map task_work ts) <
        fifo_stage_work V ?N p k + fifo_stage_work V ?N p (Suc k) + sum_list (map task_work (tasks p))"
      using W k len by (auto simp: fifo_stage_work_def p' nth_list_update)
  qed (use k len in \<open>auto simp: fifo_stage_work_def p'\<close>)
  then show ?thesis by (simp add: fifo_work_def p')
qed

lemma consumer_work_less:
  assumes inv: "fifo_inv Q V funcs func caps P x0 inputs p" and step: "consumer_step Q func P p = Some p'"
  shows "fifo_work V (length funcs) p' < fifo_work V (length funcs) p"
proof -
  note D = fifo_invD [OF inv]
  let ?N = "length funcs"
  have len: "length (queues p) = Suc ?N" "length (fworkers p) = ?N"
    using D(2) by (auto simp: fifo_shape_def)
  obtain c iq ts where w: "end_worker_step Q func ?N P (queues p ! ?N) (tasks p) (consumer p) = Some (c, iq, ts)"
    and p': "p' = p\<lparr>consumer := c, queues := (queues p)[?N := iq], tasks := ts\<rparr>"
    using step by (auto simp: consumer_step_def len Let_def split: option.splits)
  have pre: "held (V (queues p ! ?N)) = eholding (epc (consumer p))"
    "held (V (internal (consumer p))) = ejoining (epc (consumer p))" "\<not> shut (V (internal (consumer p)))"
    "end_count P (length (elems (V (internal (consumer p))))) (active (consumer p)) (epc (consumer p))"
    using D(5,7) by (auto simp: fifo_scopes_def fifo_internal_def)
  have "(\<Sum>j\<le>?N. fifo_stage_work V ?N p' j) + sum_list (map task_work ts) <
      (\<Sum>j\<le>?N. fifo_stage_work V ?N p j) + sum_list (map task_work (tasks p))"
    by (rule sum_change_one_slack [of ?N])
      (use fifo_end_worker_work [OF D(1) w pre] len in \<open>auto simp: fifo_stage_work_def p'\<close>)
  then show ?thesis by (simp add: fifo_work_def p')
qed

lemma task_work_less:
  assumes "task_step funcs func t p = Some p'"
  shows "fifo_work V N p' < fifo_work V N p"
proof -
  obtain j v w where t: "t < length (tasks p)" "tasks p ! t = Running j v"
    and p': "p' = p\<lparr>tasks := (tasks p)[t := Finished w],
       consumer := (consumer p)\<lparr>result :=
         if j < length funcs then result (consumer p) else func v (result (consumer p))\<rparr>\<rparr>"
    using assms by (rule task_step_cases)
  have "fifo_stage_work V N p' j = fifo_stage_work V N p j" for j
    by (simp add: fifo_stage_work_def p')
  then show ?thesis
    using sum_map_update [OF t(1), of task_work "Finished w"] t(2) by (simp add: fifo_work_def p')
qed

lemma fifo_work_less:
  assumes "fifo_inv Q V funcs func caps P x0 inputs p" and "fifo_step Q funcs func P a p = Some p'"
  shows "fifo_work V (length funcs) p' < fifo_work V (length funcs) p"
  using assms
  by (cases a) (auto intro: producer_work_less fworker_work_less consumer_work_less task_work_less)

section \<open>Executions\<close>

interpretation fifo_safe: invariant_system
  "fifo_step Q funcs func P" "fifo_inv Q V funcs func caps P x0 inputs"
  for Q V funcs func caps P x0 inputs
  by unfold_locales (rule fifo_keeps)

definition fifo_live where
  "fifo_live Q V funcs func caps P x0 inputs p \<longleftrightarrow>
     fifo_inv Q V funcs func caps P x0 inputs p \<and> (\<forall>k\<le>length funcs. 0 < caps ! k)"

interpretation fifo_run: terminating_system
  "fifo_step Q funcs func P" "fifo_live Q V funcs func caps P x0 inputs"
  "fifo_work V (length funcs)" "\<lambda>p. producer p = DEnd"
  for Q V funcs func caps P x0 inputs
  by unfold_locales (auto simp: fifo_live_def intro: fifo_keeps fifo_work_less fifo_progress)

lemma fifo_start:
  assumes "spsc_laws Q V" and "length funcs = Suc (length rest)" and "\<forall>n\<in>set (first # rest @ [P]). 0 < n"
  shows "fifo_live Q V funcs func (first # first # rest) P x0 inputs (fifo_init Q first rest P inputs x0)"
proof -
  have "0 < (first # first # rest) ! k" if "k \<le> length funcs" for k
  proof -
    have "(first # first # rest) ! k \<in> set (first # first # rest)"
      using that assms(2) by (intro nth_mem) simp
    then show ?thesis using assms(3) by (simp only: set_simps set_append) blast
  qed
  moreover have "0 < P" using assms(3) by simp
  ultimately show ?thesis
    unfolding fifo_live_def using init_fifo_inv [OF assms(1,2)] by (intro conjI allI impI)
qed

lemma upstream_empty:
  assumes "todo p = []" and "\<And>i. i \<le> m \<Longrightarrow> elems (V (queues p ! i)) = []"
    and "\<And>i. i < m \<Longrightarrow> fworkers p ! i = FReturned"
  shows "upstream V funcs p m = []"
  using assms by (induction m) auto

lemma fifo_finished:
  assumes live: "fifo_live Q V funcs func caps P x0 inputs p"
    and stuck: "stuck (fifo_step Q funcs func P) p"
  shows "\<exists>calls. result (consumer p) = fold func calls x0 \<and>
    mset calls = mset (map (through funcs 0) inputs) \<and>
    (P = 1 \<longrightarrow> calls = map (through funcs 0) inputs)"
proof -
  have inv: "fifo_inv Q V funcs func caps P x0 inputs p" using live by (simp add: fifo_live_def)
  note D = fifo_invD [OF inv]
  have "producer p = DEnd" using fifo_run.progress [OF live stuck] .
  then have ret: "list_all (\<lambda>w. w = FReturned) (fworkers p)" "epc (consumer p) = EReturned" "todo p = []"
    using D(6) by (auto simp: fifo_closing_def)
  have len: "length (fworkers p) = length funcs" using D(2) by (simp add: fifo_shape_def)
  have w: "fworkers p ! i = FReturned" if "i < length funcs" for i
    using ret(1) that len by (simp add: list_all_length)
  have "elems (V (queues p ! i)) = []" if "i \<le> length funcs" for i
    using that D(6) w ret(2) by (cases "i = length funcs") (auto simp: fifo_closing_def)
  then have up: "upstream V funcs p (length funcs) = []"
    using upstream_empty [OF ret(3)] w by blast
  have tasks: "\<forall>t. task_step funcs func t p = None"
    using stuckD [OF stuck, of "Task _"] by simp
  have "running (length funcs) x = {#}" if "x \<in> set (tasks p)" for x
    using all_finished [OF tasks] that unfolding in_set_conv_nth by (metis running.simps(2))
  then have "map (running (length funcs)) (tasks p) = replicate (length (tasks p)) {#}"
    by (metis map_replicate_const map_eq_conv)
  then have run: "sum_list (map (running (length funcs)) (tasks p)) = {#}" by simp
  from D(8) show ?thesis
    by (rule fifo_orderE) (use up run ret(2) in auto)
qed

lemma fifo_work_init:
  assumes Q: "spsc_laws Q V"
  shows "fifo_work V (Suc (length rest)) (fifo_init Q first rest P inputs x0) =
    (12 + 5 * Suc (length rest)) * length inputs + 2 * Suc (length rest) + 4" (is "fifo_work V ?N ?p = _")
proof -
  have "fifo_stage_work V ?N ?p k = 2" if "k \<le> ?N" for k
  proof -
    have "queues ?p ! k = sq_make Q ((first # first # rest) ! k)"
      using that unfolding fifo_init_eq fifo.simps by (subst nth_map) auto
    moreover have "fworkers ?p ! k = FPull" if "k < ?N"
      using that unfolding fifo_init_eq fifo.simps by (simp del: replicate_Suc)
    ultimately show ?thesis by (simp add: fifo_stage_work_def spsc_make [OF Q]) (simp add: fifo_init_eq spsc_make [OF Q])
  qed
  then have "(\<Sum>k\<le>?N. fifo_stage_work V ?N ?p k) = (\<Sum>k\<le>?N. 2)"
    by (intro sum.cong) auto
  then show ?thesis by (simp add: fifo_work_def fifo_init_eq elem_work_def)
qed

lemma consumer_can_step:
  "(\<And>N q ts. end_worker_step Q func N P q ts (consumer p) \<noteq> None) \<Longrightarrow>
   \<exists>p'. consumer_step Q func P p = Some p'"
  by (auto simp: consumer_step_def Let_def split: option.splits)

section \<open>Properties\<close>

text \<open>
  C9. \<open>examples/pipeline_fifo.hpp\<close> keeps the order: in every run that ends the producer has
  returned, the consuming function was called once for each input, transformed by all of the
  processing functions, and with parallelism 1 in the last stage exactly in the order in which
  the inputs were pushed, although the processing functions of all elements run concurrently.
\<close>

theorem fifo_in_order:
  assumes "spsc_laws Q V" and "length funcs = Suc (length rest)"
    and "\<forall>n\<in>set (first # rest @ [P]). 0 < n"
    and "run_steps (fifo_step Q funcs func P) ks (fifo_init Q first rest P inputs x0) = Some p"
    and "stuck (fifo_step Q funcs func P) p"
  shows "producer p = DEnd \<and>
    (P = 1 \<longrightarrow> result (consumer p) = fold func (map (through funcs 0) inputs) x0) \<and>
    (\<exists>calls. mset calls = mset (map (through funcs 0) inputs) \<and>
       result (consumer p) = fold func calls x0)"
proof -
  note live = fifo_run.run_inv [OF fifo_start [OF assms(1-3)] assms(4)]
  show ?thesis
    using fifo_run.progress [OF live assms(5)] fifo_finished [OF live assms(5)] by blast
qed

text \<open>
  C10. \<open>examples/pipeline_fifo.hpp\<close> terminates: the steps of its coroutines and of all the tasks
  they fork are bounded by an explicit function of the number of inputs and of stages, and every
  run can be continued until the producer has returned: no choice of queue sizes above 0 lets the
  chain of full and empty queues deadlock.
\<close>

theorem fifo_terminates:
  assumes "spsc_laws Q V" and "length funcs = Suc (length rest)"
    and "\<forall>n\<in>set (first # rest @ [P]). 0 < n"
    and "run_steps (fifo_step Q funcs func P) ks (fifo_init Q first rest P inputs x0) = Some p"
  shows "length ks \<le> (12 + 5 * length funcs) * length inputs + 2 * length funcs + 4 \<and>
    (\<exists>ls q. run_steps (fifo_step Q funcs func P) (ks @ ls)
       (fifo_init Q first rest P inputs x0) = Some q \<and> producer q = DEnd)"
proof -
  note start = fifo_start [OF assms(1-3), of func x0 inputs]
  show ?thesis
    using fifo_run.run_bound [OF start assms(4)] fifo_run.can_finish [OF start assms(4)]
      fifo_work_init [OF assms(1), of rest first P inputs x0] assms(2)
    by simp
qed

text \<open>
  C11. Gating in \<open>examples/pipeline_fifo.hpp\<close>: in every reachable state the elements in a queue
  and the one whose scope is still alive number at most the parallelism of the stage that owns the
  queue (the first stage owns two). Of the tasks that a stage has forked at most its parallelism have not finished.
  In the end stage at most \<open>P\<close> forked tasks have not finished; nor are there ever more than \<open>P\<close> whose completion
  it has still to await, the one that it has pulled from its internal queue and is awaiting included; and
  \<open>active\<close> never exceeds \<open>P\<close>.
\<close>

theorem fifo_gated:
  assumes "spsc_laws Q V" and "length funcs = Suc (length rest)" and "0 < P"
    and "run_steps (fifo_step Q funcs func P) ks (fifo_init Q first rest P inputs x0) = Some p"
    and "k \<le> length funcs"
  shows "fill (V (queues p ! k)) \<le> (first # first # rest) ! k \<and>
    (k < length funcs \<longrightarrow> in_flight p k \<le> (first # rest) ! k) \<and>
    in_flight p (length funcs) \<le> fill (V (internal (consumer p))) \<and> in_flight p (length funcs) \<le> P \<and>
    length (elems (V (internal (consumer p)))) + of_bool (ejoining (epc (consumer p))) \<le> P \<and>
    active (consumer p) \<le> P"
proof -
  have "tasks (fifo_init Q first rest P inputs x0) = []" by (simp add: fifo_init_eq)
  then have "fifo_gate Q V funcs func (first # first # rest) P x0 inputs (fifo_init Q first rest P inputs x0)"
    using init_fifo_inv [OF assms(1-3)] by (simp add: fifo_gate_def fifo_claims_def)
  then have gate: "fifo_gate Q V funcs func (first # first # rest) P x0 inputs p"
    using assms(4) by (rule fifo_flight.run_inv)
  have "held (V (internal (consumer p))) = ejoining (epc (consumer p))"
    using gate by (simp add: fifo_gate_def fifo_inv_def fifo_scopes_def)
  then show ?thesis
    using fifo_gate_bounds(1) [OF gate assms(5)] fifo_gate_bounds(2) [OF gate, of k] fifo_gate_bounds(3) [OF gate assms(3)]
    by (simp add: fill_def)
qed

text \<open>
  C12. The comments of the parallel end stage of \<open>examples/pipeline_fifo.hpp\<close> hold: the push to
  its internal queue never blocks, and the \<open>handle.value()\<close> of a pull from that queue is never
  that of an empty scope, in no reachable state.
\<close>

theorem fifo_internal_push_never_blocks:
  assumes "spsc_laws Q V" and "length funcs = Suc (length rest)" and "0 < P"
    and "run_steps (fifo_step Q funcs func P) ks (fifo_init Q first rest P inputs x0) = Some p"
  shows "epc (consumer p) \<noteq> EUndefined \<and>
    (epc (consumer p) = EData v \<longrightarrow> (\<exists>p'. consumer_step Q func P p = Some p')) \<and>
    (epc (consumer p) = ETake \<longrightarrow> (\<exists>p'. consumer_step Q func P p = Some p'))"
proof -
  note D = fifo_invD [OF fifo_safe.run_inv [OF init_fifo_inv [OF assms(1-3)] assms(4)]]
  have cap: "cap (V (internal (consumer p))) = P" "\<not> shut (V (internal (consumer p)))"
    "held (V (internal (consumer p))) = ejoining (epc (consumer p))"
    "end_count P (length (elems (V (internal (consumer p))))) (active (consumer p)) (epc (consumer p))"
    using D(2,5,7) by (auto simp: fifo_shape_def fifo_scopes_def fifo_internal_def)
  have data: "end_worker_step Q func N P q ts (consumer p) \<noteq> None" if "epc (consumer p) = EData v" for N q ts
  proof -
    have "sq_push Q x (internal (consumer p)) \<noteq> None" if "P \<noteq> 1" for x
      using spsc_push_None [OF D(1), of x "internal (consumer p)"] that cap \<open>epc (consumer p) = EData v\<close>
      by (auto simp: fill_def)
    then show ?thesis
      using that by (auto simp: end_worker_step_def inline_worker_def parallel_worker_def)
  qed
  have take: "end_worker_step Q func N P q ts (consumer p) \<noteq> None" if "epc (consumer p) = ETake" for N q ts
    using that cap by (auto simp: end_worker_step_def parallel_worker_def end_take_def
        split: prod.splits pulled.splits elem.splits dest!: spsc_pull_Suspended [OF D(1)])
  show ?thesis
  proof (intro conjI impI)
    show "epc (consumer p) \<noteq> EUndefined" using cap(4) by auto
    show "\<exists>p'. consumer_step Q func P p = Some p'" if "epc (consumer p) = EData v"
      using consumer_can_step data [OF that] .
    show "\<exists>p'. consumer_step Q func P p = Some p'" if "epc (consumer p) = ETake"
      using consumer_can_step take [OF that] .
  qed
qed

section \<open>A closed example\<close>

definition fifo_schedule :: "fagent list" where
  "fifo_schedule = [Producer, FWorker 0, FWorker 0, FWorker 0, Producer, FWorker 0, Consumer, Task 0,
     Consumer, Consumer, Consumer, FWorker 0, FWorker 0, Producer, FWorker 0, FWorker 0, Consumer,
     Task 1, Consumer, Consumer, Consumer, Consumer, Producer]"

definition fifo_end :: "(nat, nat elem qview, nat list) fifo" where
  "fifo_end = \<lparr> todo = [], producer = DEnd,
     queues = [\<lparr>elems = [], held = False, cap = 1, shut = True\<rparr>, \<lparr>elems = [], held = False, cap = 1, shut = True\<rparr>],
     fworkers = [FReturned],
     consumer = \<lparr>epc = EReturned, internal = \<lparr>elems = [], held = False, cap = 1, shut = False\<rparr>,
                 active = 0, result = [8, 6]\<rparr>,
     tasks = [Finished 6, Finished 8] \<rparr>"

definition fifo_mid :: "(nat, nat elem qview, nat list) fifo" where
  "fifo_mid = \<lparr> todo = [], producer = DPush,
     queues = [\<lparr>elems = [], held = True, cap = 1, shut = False\<rparr>, \<lparr>elems = [], held = True, cap = 1, shut = False\<rparr>],
     fworkers = [FPush 7],
     consumer = \<lparr>epc = EData 6, internal = \<lparr>elems = [], held = False, cap = 2, shut = False\<rparr>,
                 active = 0, result = []\<rparr>,
     tasks = [Finished 6] \<rparr>"

lemmas fifo_execute = fifo_init_eq producer_step_def fworker_step_def consumer_step_def task_step_def
  view_spsc_def fill_def end_worker_step_def inline_worker_def parallel_worker_def task_result_def Let_def

lemma fifo_example_run:
  "run_steps (fifo_step view_spsc [Suc] Cons 1) fifo_schedule
     (fifo_init view_spsc 1 [] 1 [5, 7] []) = Some fifo_end"
  by (simp add: fifo_schedule_def fifo_end_def fifo_execute)

lemma fifo_example_mid:
  "run_steps (fifo_step view_spsc [Suc] Cons 2) (take 9 fifo_schedule)
     (fifo_init view_spsc 1 [] 2 [5, 7] []) = Some fifo_mid"
  by (simp add: fifo_schedule_def fifo_mid_def fifo_execute)

lemma fifo_end_stuck: "stuck (fifo_step view_spsc [Suc] Cons 1) fifo_end"
  unfolding stuck_def
proof
  fix a
  show "fifo_step view_spsc [Suc] Cons 1 a fifo_end = None"
    by (cases a) (auto simp: fifo_end_def fifo_execute nth_Cons' split: nat.splits)
qed

theorem fifo_in_order_witness: "result (consumer fifo_end) = fold Cons (map (through [Suc] 0) [5, 7]) []"
  using fifo_in_order [OF view_spsc_laws _ _ fifo_example_run fifo_end_stuck] by simp

theorem fifo_terminates_witness:
  "length fifo_schedule \<le> (12 + 5 * 1) * length [5::nat, 7] + 2 * 1 + 4 \<and>
   (\<exists>ls q. run_steps (fifo_step view_spsc [Suc] Cons 1) (fifo_schedule @ ls)
      (fifo_init view_spsc 1 [] 1 [5, 7] []) = Some q \<and> producer q = DEnd)"
  using fifo_terminates [OF view_spsc_laws _ _ fifo_example_run] by simp

theorem fifo_gated_witness:
  "fill (queues fifo_mid ! 1) \<le> 1 \<and> in_flight fifo_mid 0 \<le> 1 \<and> in_flight fifo_mid 1 \<le> 2 \<and>
   length (elems (internal (consumer fifo_mid))) \<le> 2"
  using fifo_gated [OF view_spsc_laws _ _ fifo_example_mid, of 1]
    fifo_gated [OF view_spsc_laws _ _ fifo_example_mid, of 0]
  by (auto simp: fifo_mid_def fill_def)

theorem fifo_internal_push_never_blocks_witness:
  "\<exists>p'. consumer_step view_spsc Cons 2 fifo_mid = Some p'"
proof -
  have "epc (consumer fifo_mid) = EData 6" by (simp add: fifo_mid_def)
  then show ?thesis
    using fifo_internal_push_never_blocks [OF view_spsc_laws _ _ fifo_example_mid, of 6] by simp
qed

end
