(* ===== verification/Pipeline_Fifo_App.thy ===== *)
theory Pipeline_Fifo_App
  imports Pipeline_App Pipeline_Fifo_Correct
begin

text \<open>
  The program \<open>examples/pipeline_fifo.cpp\<close>: its own copies of the processing functions, the
  consuming lambda and the construction of the five stages, and the numbers it prints.
\<close>

definition fifo_plus_half :: "int \<Rightarrow> rat" where
  "fifo_plus_half i = float_round (float_round (of_int i) + 1/2)"

definition fifo_times_two :: "rat \<Rightarrow> rat" where
  "fifo_times_two x = float_round (2 * x)"

definition fifo_minus_one :: "rat \<Rightarrow> int" where
  "fifo_minus_one x = trunc x - 1"

definition fifo_as_bool :: "int \<Rightarrow> bool" where
  "fifo_as_bool i = (i > 2)"

definition fifo_app_funcs :: "(val \<Rightarrow> val) list" where
  "fifo_app_funcs =
    [\<lambda>v. case v of VInt i \<Rightarrow> VFloat (fifo_plus_half i) | _ \<Rightarrow> v,
     \<lambda>v. case v of VFloat x \<Rightarrow> VDouble (fifo_times_two x) | _ \<Rightarrow> v,
     \<lambda>v. case v of VDouble x \<Rightarrow> VInt (fifo_minus_one x) | _ \<Rightarrow> v,
     \<lambda>v. case v of VInt i \<Rightarrow> VBool (fifo_as_bool i) | _ \<Rightarrow> v]"

text \<open>\<open>sum += static_cast<size_t>(i); count += 1;\<close>\<close>

definition fifo_accumulate :: "val \<Rightarrow> 'w::len word \<times> 'w word \<Rightarrow> 'w word \<times> 'w word" where
  "fifo_accumulate v st =
     (case v of VBool b \<Rightarrow> (fst st + (if b then 1 else 0), snd st + 1) | _ \<Rightarrow> st)"

definition fifo_app_init ::
    "('q, val elem) spsc_ops \<Rightarrow> nat \<Rightarrow> (val, 'q, 'w::len word \<times> 'w word) fifo" where
  "fifo_app_init Q nelems =
     fifo_init Q 10 [10, 10, 10] 1 (map (\<lambda>i. VInt (int i)) [0..<nelems]) (0, 0)"

lemma fifo_app_funcs_eq: "fifo_app_funcs = app_funcs"
proof -
  have "(case v of VInt i \<Rightarrow> VFloat (fifo_plus_half i) | _ \<Rightarrow> v) = plus_half_stage v"
    and "(case v of VFloat x \<Rightarrow> VDouble (fifo_times_two x) | _ \<Rightarrow> v) = times_two_stage v"
    and "(case v of VDouble x \<Rightarrow> VInt (fifo_minus_one x) | _ \<Rightarrow> v) = minus_one_stage v"
    and "(case v of VInt i \<Rightarrow> VBool (fifo_as_bool i) | _ \<Rightarrow> v) = as_bool_stage v" for v
    by (cases v; simp add: fifo_plus_half_def plus_half_def fifo_times_two_def times_two_def
        fifo_minus_one_def minus_one_def fifo_as_bool_def as_bool_def)+
  then show ?thesis by (simp add: fifo_app_funcs_def app_funcs_def fun_eq_iff)
qed

lemma fifo_accumulate_eq: "fifo_accumulate = accumulate"
proof (intro ext)
  fix v and st :: "'w::len word \<times> 'w word"
  show "fifo_accumulate v st = accumulate v st"
    by (cases v; cases st) (simp_all add: fifo_accumulate_def)
qed

text \<open>
  C13. \<open>examples/pipeline_fifo.cpp\<close> prints \<open>element sum: 999998\<close> and \<open>element count: 1000000\<close> in
  every run that ends, whatever the width of \<open>size_t\<close>, and gets there in at most 32000012 steps of
  its coroutines.
\<close>

theorem pipeline_fifo_cpp_output:
  fixes p :: "(val, 'q, 'w::len word \<times> 'w word) fifo"
  assumes "spsc_laws Q V"
    and "run_steps (fifo_step Q fifo_app_funcs fifo_accumulate 1) ks (fifo_app_init Q 1000000) = Some p"
  shows "length ks \<le> 32000012 \<and>
    (stuck (fifo_step Q fifo_app_funcs fifo_accumulate 1) p \<longrightarrow>
       producer p = DEnd \<and> result (consumer p) = (999998, 1000000))"
proof -
  have len: "length fifo_app_funcs = Suc (length [10, 10, 10 :: nat])"
    by (simp add: fifo_app_funcs_def)
  have start: "fifo_live Q V fifo_app_funcs fifo_accumulate (10 # 10 # [10, 10, 10]) 1 (0, 0)
      (app_inputs 1000000) (fifo_app_init Q 1000000)"
    unfolding fifo_app_init_def app_inputs_def by (rule fifo_start [OF assms(1) len]) simp
  have "fifo_work V (length fifo_app_funcs)
      (fifo_app_init Q 1000000 :: (val, 'q, 'w word \<times> 'w word) fifo) = 32000012"
    unfolding len fifo_app_init_def by (simp only: fifo_work_init [OF assms(1)] length_map length_upt) simp
  then have "length ks \<le> 32000012"
    using fifo_run.run_bound [OF start assms(2)] by linarith
  moreover have "producer p = DEnd \<and> result (consumer p) = (999998, 1000000)"
    if stuck: "stuck (fifo_step Q fifo_app_funcs fifo_accumulate 1) p"
  proof -
    have live: "fifo_live Q V fifo_app_funcs fifo_accumulate (10 # 10 # [10, 10, 10]) 1 (0, 0)
        (app_inputs 1000000) p"
      by (rule fifo_run.run_inv [OF start assms(2)])
    obtain calls where "result (consumer p) = fold fifo_accumulate calls (0, 0)"
      and "mset calls = mset (map (through fifo_app_funcs 0) (app_inputs 1000000))"
      using fifo_finished [OF live stuck] by blast
    then show ?thesis
      using app_total [of calls 1000000] fifo_run.progress [OF live stuck]
      by (simp add: fifo_app_funcs_eq fifo_accumulate_eq)
  qed
  ultimately show ?thesis by blast
qed

theorem pipeline_fifo_cpp_output_witness:
  "\<exists>ks p. run_steps (fifo_step view_spsc fifo_app_funcs fifo_accumulate 1) ks
       (fifo_app_init view_spsc 1000000) = Some p \<and> result (consumer p) = (999998 :: 64 word, 1000000)"
proof -
  have "fifo_live view_spsc (\<lambda>v. v) fifo_app_funcs fifo_accumulate (10 # 10 # [10, 10, 10]) 1 (0, 0)
      (app_inputs 1000000) (fifo_app_init view_spsc 1000000)"
    unfolding fifo_app_init_def app_inputs_def
    by (rule fifo_start [OF view_spsc_laws]) (simp_all add: fifo_app_funcs_def)
  from fifo_run.reaches_stuck [OF this] obtain ks and p :: "(val, _, 64 word \<times> 64 word) fifo" where
    run: "run_steps (fifo_step view_spsc fifo_app_funcs fifo_accumulate 1) ks
       (fifo_app_init view_spsc 1000000) = Some p"
    and "stuck (fifo_step view_spsc fifo_app_funcs fifo_accumulate 1) p"
    by blast
  then have "result (consumer p) = (999998, 1000000)"
    using pipeline_fifo_cpp_output [OF view_spsc_laws run] by blast
  with run show ?thesis by blast
qed

end
