(* ===== verification/Format.thy ===== *)
theory Format
  imports Fp
begin

text \<open>
  Formatting of throughputs: \<open>formatWithCommas\<close> of the benchmarks (\<open>chan_bench.cpp\<close>,
  \<open>queue_bench.cpp\<close>, \<open>exec_st_roundtrip_bench.cpp\<close>) and \<open>formatElementsPerSec\<close> of the two
  pipeline programs, which share one loop that inserts a comma before every third digit.
\<close>

section \<open>\<open>std::to_string\<close>, \<open>std::string::insert\<close> and the loop\<close>

fun to_string :: "nat \<Rightarrow> string" where
  "to_string n =
     (if n < 10 then [char_of (48 + n)] else to_string (n div 10) @ [char_of (48 + n mod 10)])"

declare to_string.simps [simp del]

text \<open>\<open>insert\<close> throws \<open>std::out_of_range\<close> (\<open>None\<close>) when the position is past the end.\<close>

definition str_insert :: "nat \<Rightarrow> string \<Rightarrow> string \<Rightarrow> string option" where
  "str_insert i t s = (if i \<le> length s then Some (take i s @ t @ drop i s) else None)"

function comma_loop :: "int \<Rightarrow> string \<Rightarrow> string option" where
  "comma_loop i s =
     (if i > 0
      then (case str_insert (nat i) '','' s of None \<Rightarrow> None | Some s' \<Rightarrow> comma_loop (i - 3) s')
      else Some s)"
  by pat_completeness auto
termination
  by (relation "measure (\<lambda>(i, s). nat i)") auto

declare comma_loop.simps [simp del]

definition formatWithCommas :: "nat \<Rightarrow> string option" where
  "formatWithCommas n = (let s = to_string n in comma_loop (int (length s) - 3) s)"

text \<open>The same function in the other two benchmarks.\<close>

definition queue_bench_formatWithCommas :: "nat \<Rightarrow> string option" where
  "queue_bench_formatWithCommas n = (let s = to_string n in comma_loop (int (length s) - 3) s)"

definition roundtrip_bench_formatWithCommas :: "nat \<Rightarrow> string option" where
  "roundtrip_bench_formatWithCommas n = (let s = to_string n in comma_loop (int (length s) - 3) s)"

text \<open>
  \<open>formatElementsPerSec\<close>: a quotient of doubles, truncated. A duration of 0 ms divides by zero; the
  infinite result has no \<open>size_t\<close> value, so the conversion is undefined behaviour (\<open>None\<close>).
\<close>

definition elementsPerSec :: "nat \<Rightarrow> nat \<Rightarrow> nat option" where
  "elementsPerSec nelems durMs =
     (if durMs = 0 then None
      else Some (nat (trunc (double_round
        (double_round (of_nat nelems * 1000) / double_round (of_nat durMs))))))"

definition formatElementsPerSec :: "nat \<Rightarrow> string option" where
  "formatElementsPerSec durMs =
     (case elementsPerSec 1000000 durMs of
        None \<Rightarrow> None
      | Some e \<Rightarrow> (let s = to_string e in comma_loop (int (length s) - 3) s))"

definition fifo_formatElementsPerSec :: "nat \<Rightarrow> string option" where
  "fifo_formatElementsPerSec durMs =
     (case elementsPerSec 1000000 durMs of
        None \<Rightarrow> None
      | Some e \<Rightarrow> (let s = to_string e in comma_loop (int (length s) - 3) s))"

section \<open>What the loop computes\<close>

text \<open>The reference: commas between groups of three, counted from the end of the string.\<close>

fun group3 :: "string \<Rightarrow> string" where
  "group3 (a # b # c # d # xs) = a # b # c # CHR '','' # group3 (d # xs)"
| "group3 xs = xs"

definition with_commas :: "string \<Rightarrow> string" where
  "with_commas s = rev (group3 (rev s))"

lemma group3_append:
  "length us = 3 \<Longrightarrow> vs \<noteq> [] \<Longrightarrow> group3 (us @ vs) = us @ CHR '','' # group3 vs"
  by (cases vs) (auto simp: length_Suc_conv numeral_3_eq_3)

lemma with_commas_snoc3:
  "length us = 3 \<Longrightarrow> vs \<noteq> [] \<Longrightarrow> with_commas (vs @ us) = with_commas vs @ '','' @ us"
  by (simp add: with_commas_def group3_append)

lemma group3_short: "length xs \<le> 3 \<Longrightarrow> group3 xs = xs"
  by (cases xs rule: group3.cases) auto

lemma with_commas_short: "length s \<le> 3 \<Longrightarrow> with_commas s = s"
  by (simp add: with_commas_def group3_short)

text \<open>
  The loop on a string whose part before position \<open>i\<close> is untouched and whose rest is done.
\<close>

lemma comma_loop_spec:
  "int (length s) = i + 3 \<Longrightarrow> comma_loop i (s @ t) = Some (with_commas s @ t)"
proof (induction "length s" arbitrary: s i t rule: less_induct)
  case less
  show ?case
  proof (cases "0 < i")
    case False
    then have "length s \<le> 3" using less.prems(1) by linarith
    then show ?thesis using False by (subst comma_loop.simps) (simp add: with_commas_short)
  next
    case True
    define u where "u = take (nat i) s"
    define v where "v = drop (nat i) s"
    have s: "s = u @ v" by (simp add: u_def v_def)
    have len: "length s = nat i + 3" using True less.prems(1) by linarith
    then have lv: "length v = 3" and lu: "length u = nat i" by (simp_all add: u_def v_def)
    then have ne: "u \<noteq> []" using True by auto
    have ins: "str_insert (nat i) '','' (s @ t) = Some (u @ '','' @ v @ t)"
      using lu by (simp add: str_insert_def s)
    have "comma_loop (i - 3) (u @ ('','' @ v @ t)) = Some (with_commas u @ ('','' @ v @ t))"
      using lu lv True s by (intro less.hyps) auto
    then have "comma_loop i (s @ t) = Some (with_commas u @ '','' @ v @ t)"
      using True ins by (subst comma_loop.simps) simp
    then show ?thesis using with_commas_snoc3 [OF lv ne] by (simp add: s)
  qed
qed

lemma comma_loop_with_commas: "comma_loop (int (length s) - 3) s = Some (with_commas s)"
  using comma_loop_spec [of s "int (length s) - 3" "[]"] by simp

lemmas format_defs = formatWithCommas_def queue_bench_formatWithCommas_def
  roundtrip_bench_formatWithCommas_def Let_def comma_loop_with_commas

section \<open>Reading the result back\<close>

definition digits_value :: "string \<Rightarrow> nat" where
  "digits_value s = fold (\<lambda>c a. a * 10 + (of_char c - 48)) s 0"

definition without_commas :: "string \<Rightarrow> string" where
  "without_commas s = filter (\<lambda>c. c \<noteq> CHR '','') s"

lemma without_commas_group3: "without_commas (group3 s) = without_commas s"
  by (induction s rule: group3.induct) (simp_all add: without_commas_def)

lemma without_commas_with_commas: "without_commas (with_commas s) = without_commas s"
  using without_commas_group3 [of "rev s"]
  by (simp add: with_commas_def without_commas_def rev_filter [symmetric])

lemma digit_value: "d < 10 \<Longrightarrow> (of_char (char_of (48 + d :: nat) :: char) :: nat) = 48 + d"
  by (simp add: of_char_of)

lemma digit_not_comma: "d < 10 \<Longrightarrow> char_of (48 + d :: nat) \<noteq> CHR '','' "
proof
  assume d: "d < 10" and eq: "char_of (48 + d :: nat) = CHR '','' "
  from eq have "(of_char (char_of (48 + d :: nat) :: char) :: nat) = of_char (CHR '','')" by simp
  with digit_value [OF d] show False by simp
qed

lemma to_string_digits: "without_commas (to_string n) = to_string n \<and> digits_value (to_string n) = n"
proof (induction n rule: to_string.induct)
  case (1 n)
  have m: "n mod 10 < 10" by simp
  show ?case
  proof (cases "n < 10")
    case True
    then show ?thesis
      using digit_value [OF True] digit_not_comma [OF True]
      by (simp add: to_string.simps [of n] without_commas_def digits_value_def)
  next
    case False
    with 1 have "without_commas (to_string (n div 10)) = to_string (n div 10)"
      "digits_value (to_string (n div 10)) = n div 10" by auto
    then show ?thesis
      using digit_value [OF m] digit_not_comma [OF m] False
      by (simp add: to_string.simps [of n] without_commas_def digits_value_def)
  qed
qed

lemma group3_every_third:
  "i < length (group3 s) \<Longrightarrow> group3 s ! i = CHR '','' \<Longrightarrow> CHR '','' \<notin> set s \<Longrightarrow> i mod 4 = 3"
proof (induction s arbitrary: i rule: group3.induct)
  case (1 a b c d xs)
  show ?case
  proof (cases "i < 4")
    case True
    then have "i = 0 \<or> i = 1 \<or> i = 2 \<or> i = 3" by linarith
    then show ?thesis using "1.prems" by auto
  next
    case False
    then obtain j where j: "i = 4 + j" using le_Suc_ex not_less by blast
    then have "group3 (d # xs) ! j = CHR '',''" "j < length (group3 (d # xs))"
      using "1.prems" by (auto simp: numeral_eq_Suc)
    then show ?thesis using "1.IH" [of j] "1.prems"(3) j by auto
  qed
qed (auto simp: less_Suc_eq)

lemma with_commas_positions:
  assumes "i < length (with_commas s)" and "rev (with_commas s) ! i = CHR '',''"
    and "CHR '','' \<notin> set s"
  shows "i mod 4 = 3"
  using group3_every_third [of i "rev s"] assms by (simp add: with_commas_def)

lemma group3_commas:
  "CHR '','' \<notin> set s \<Longrightarrow> length (filter (\<lambda>c. c = CHR '','') (group3 s)) = (length s - 1) div 3"
  by (induction s rule: group3.induct) auto

lemma to_string_no_comma: "CHR '','' \<notin> set (to_string n)"
proof -
  have "set (to_string n) = set (without_commas (to_string n))" using to_string_digits [of n] by simp
  then show ?thesis by (auto simp: without_commas_def)
qed

lemma double_nat_exact: "n < 2 ^ 53 \<Longrightarrow> double_round (of_nat n) = of_nat n"
  using fp_round_exact [of "of_nat n" "int n" 0 53] by (simp add: double_round_def pow2_def)

lemma elementsPerSec_exact:
  assumes "nelems * 1000 < 2 ^ 53" and "0 < durMs" and "durMs < 2 ^ 53"
  shows "elementsPerSec nelems durMs = Some (nelems * 1000 div durMs)"
proof -
  have "double_round (of_nat nelems * 1000) = of_nat (nelems * 1000)"
    using double_nat_exact [OF assms(1)] by simp
  moreover have "trunc (fp_round 53 (of_int (int (nelems * 1000)) / of_int (int durMs)))
      = int (nelems * 1000) div int durMs"
    using assms by (intro trunc_round_div) auto
  ultimately show ?thesis
    using assms(2,3) double_nat_exact [OF assms(3)]
    by (simp add: elementsPerSec_def double_round_def nat_div_distrib nat_mult_distrib)
qed

text \<open>
  C7. \<open>formatWithCommas\<close> of the three benchmarks never runs past the end of its string, and its
  result is the decimal number with a comma at every fourth place counted from the right and
  nowhere else: without the commas it reads back as the number.
\<close>

theorem formatWithCommas_correct:
  "\<exists>r. formatWithCommas n = Some r \<and> queue_bench_formatWithCommas n = Some r \<and>
     roundtrip_bench_formatWithCommas n = Some r \<and>
     digits_value (without_commas r) = n \<and>
     length (filter (\<lambda>c. c = CHR '','') r) = (length (to_string n) - 1) div 3 \<and>
     (\<forall>i<length r. rev r ! i = CHR '','' \<longrightarrow> i mod 4 = 3)"
proof (intro exI conjI)
  let ?r = "with_commas (to_string n)"
  show "formatWithCommas n = Some ?r" "queue_bench_formatWithCommas n = Some ?r"
    "roundtrip_bench_formatWithCommas n = Some ?r"
    by (simp_all add: format_defs)
  show "digits_value (without_commas ?r) = n"
    using to_string_digits [of n] by (simp add: without_commas_with_commas)
  show "length (filter (\<lambda>c. c = CHR '','') ?r) = (length (to_string n) - 1) div 3"
    using group3_commas [of "rev (to_string n)"] to_string_no_comma [of n]
    by (simp add: with_commas_def rev_filter [symmetric])
  show "\<forall>i<length ?r. rev ?r ! i = CHR '','' \<longrightarrow> i mod 4 = 3"
    using with_commas_positions [of _ "to_string n"] to_string_no_comma [of n] by blast
qed

theorem formatWithCommas_correct_witness:
  "formatWithCommas 1234567 = Some ''1,234,567'' \<and> digits_value ''1234567'' = 1234567"
proof -
  obtain r where r: "formatWithCommas 1234567 = Some r" "digits_value (without_commas r) = 1234567"
    using formatWithCommas_correct [of 1234567] by blast
  moreover have "to_string 1234567 = ''1234567''"
    by (simp add: to_string.simps char_of_def bit_0)
  then have "formatWithCommas 1234567 = Some ''1,234,567''"
    by (simp add: format_defs with_commas_def)
  ultimately have "r = ''1,234,567''" by simp
  then show ?thesis using r by (simp add: without_commas_def)
qed

text \<open>
  C8. \<open>formatElementsPerSec\<close> of \<open>pipeline.cpp\<close> and \<open>pipeline_fifo.cpp\<close>: although the
  quotient is computed in doubles, for a positive duration the string is the exact integer quotient
  \<open>1000000 * 1000 div durMs\<close> with its commas; for a duration of 0 ms the conversion of the
  infinite quotient has no defined result.
\<close>

theorem formatElementsPerSec_exact:
  assumes "durMs < 2 ^ 53"
  shows "formatElementsPerSec durMs =
      (if durMs = 0 then None else Some (with_commas (to_string (1000000 * 1000 div durMs)))) \<and>
    fifo_formatElementsPerSec durMs = formatElementsPerSec durMs"
proof (cases "durMs = 0")
  case True
  then show ?thesis
    by (simp add: formatElementsPerSec_def fifo_formatElementsPerSec_def elementsPerSec_def)
next
  case False
  then have "elementsPerSec 1000000 durMs = Some (1000000 * 1000 div durMs)"
    using assms by (intro elementsPerSec_exact) auto
  with False show ?thesis
    by (simp add: formatElementsPerSec_def fifo_formatElementsPerSec_def Let_def comma_loop_with_commas)
qed

theorem formatElementsPerSec_exact_witness:
  "formatElementsPerSec 333 = Some ''3,003,003''"
proof -
  have "formatElementsPerSec 333 = Some (with_commas (to_string 3003003))"
    using formatElementsPerSec_exact [of 333] by simp
  moreover have "to_string 3003003 = ''3003003''"
    by (simp add: to_string.simps char_of_def bit_0)
  then have "with_commas (to_string 3003003) = ''3,003,003''"
    by (simp add: with_commas_def)
  ultimately show ?thesis by simp
qed

end
