(* ===== verification/Fork_Join.thy ===== *)
theory Fork_Join
  imports Prelude
begin

text \<open>
  Recursive coroutines that fork their children and await the results (\<open>fib\<close>, \<open>skynet_one\<close>).
  A coroutine is given by the code before it forks (\<open>body\<close>: it returns at once, or forks calls with
  these arguments) and after it has awaited them (\<open>combine\<close>). The state of a program is the tree of
  the frames that exist; any frame that is not waiting may run next.
\<close>

datatype ('a, 'r) frame = Call 'a | Join 'a "('a, 'r) frame list" | Ret 'r

fun is_ret :: "('a, 'r) frame \<Rightarrow> bool" where
  "is_ret (Ret r) = True"
| "is_ret _ = False"

fun ret_of :: "('a, 'r) frame \<Rightarrow> 'r" where
  "ret_of (Ret r) = r"
| "ret_of _ = undefined"

text \<open>
  One step of the frame at a path of the tree: it starts and forks, or joins when all of its children
  have returned.
\<close>

fun frame_step ::
    "('a \<Rightarrow> 'r + 'a list) \<Rightarrow> ('a \<Rightarrow> 'r list \<Rightarrow> 'r) \<Rightarrow>
     nat list \<Rightarrow> ('a, 'r) frame \<Rightarrow> ('a, 'r) frame option" where
  "frame_step body combine [] (Call a) =
     Some (case body a of Inl r \<Rightarrow> Ret r | Inr args \<Rightarrow> Join a (map Call args))"
| "frame_step body combine [] (Join a fs) =
     (if list_all is_ret fs then Some (Ret (combine a (map ret_of fs))) else None)"
| "frame_step body combine [] (Ret r) = None"
| "frame_step body combine (i # path) (Join a fs) =
     (if i < length fs
      then map_option (\<lambda>f. Join a (fs[i := f])) (frame_step body combine path (fs ! i))
      else None)"
| "frame_step body combine (i # path) (Call a) = None"
| "frame_step body combine (i # path) (Ret r) = None"

text \<open>
  The contract of such a coroutine: \<open>sem\<close> is the value its calls shall have, \<open>ok\<close> their precondition,
  and \<open>cost\<close> bounds the steps.
\<close>

locale fork_join =
  fixes body :: "'a \<Rightarrow> 'r + 'a list"
    and combine :: "'a \<Rightarrow> 'r list \<Rightarrow> 'r"
    and ok :: "'a \<Rightarrow> bool"
    and sem :: "'a \<Rightarrow> 'r"
    and cost :: "'a \<Rightarrow> nat"
  assumes sem_return: "ok a \<Longrightarrow> body a = Inl r \<Longrightarrow> sem a = r \<and> 0 < cost a"
    and sem_fork: "ok a \<Longrightarrow> body a = Inr args \<Longrightarrow>
      sem a = combine a (map sem args) \<and> list_all ok args \<and> 2 + sum_list (map cost args) \<le> cost a"
begin

fun denote :: "('a, 'r) frame \<Rightarrow> 'r" where
  "denote (Call a) = sem a"
| "denote (Join a fs) = combine a (map denote fs)"
| "denote (Ret r) = r"

fun sound :: "('a, 'r) frame \<Rightarrow> bool" where
  "sound (Call a) = ok a"
| "sound (Join a fs) = list_all sound fs"
| "sound (Ret r) = True"

fun frame_work :: "('a, 'r) frame \<Rightarrow> nat" where
  "frame_work (Call a) = cost a"
| "frame_work (Join a fs) = 1 + sum_list (map frame_work fs)"
| "frame_work (Ret r) = 0"

lemma denote_rets: "list_all is_ret fs \<Longrightarrow> map denote fs = map ret_of fs"
  by (auto simp: list_all_iff elim!: is_ret.elims)

lemma step_denote:
  "sound f \<Longrightarrow> frame_step body combine path f = Some g \<Longrightarrow> sound g \<and> denote g = denote f \<and> frame_work g < frame_work f"
proof (induction path arbitrary: f g)
  case Nil
  show ?case
  proof (cases f)
    case (Call a)
    then show ?thesis
      using Nil sem_return [of a] sem_fork [of a]
      by (cases "body a") (auto simp: list_all_iff comp_def)
  next
    case (Join a fs)
    then have "list_all is_ret fs" and "g = Ret (combine a (map ret_of fs))"
      using Nil by (auto split: if_splits)
    then show ?thesis using Join denote_rets [of fs] by (simp del: map_eq_conv)
  qed (use Nil in simp)
next
  case (Cons i path)
  then obtain a fs h where f: "f = Join a fs" and i: "i < length fs"
    and h: "frame_step body combine path (fs ! i) = Some h" and g: "g = Join a (fs[i := h])"
    by (cases f) (auto split: if_splits)
  have IH: "sound h" "denote h = denote (fs ! i)" "frame_work h < frame_work (fs ! i)"
    using Cons.IH [OF _ h] Cons.prems(1) i by (auto simp: f list_all_length)
  have "map denote (fs[i := h]) = map denote fs"
    using i IH(2) by (simp add: map_update list_update_same_conv)
  moreover have "list_all sound (fs[i := h])"
    using Cons.prems(1) IH(1) by (auto simp: f list_all_iff dest: set_update_le)
  moreover have "sum_list (map frame_work (fs[i := h])) < sum_list (map frame_work fs)"
    using sum_map_update [OF i, of frame_work h] IH(3) by linarith
  ultimately show ?case by (simp add: f g)
qed

lemma some_step: "\<not> is_ret f \<Longrightarrow> \<exists>path g. frame_step body combine path f = Some g"
proof (induction f)
  case (Call a)
  have "\<exists>g. frame_step body combine [] (Call a) = Some g" by simp
  then show ?case by blast
next
  case (Join a fs)
  show ?case
  proof (cases "list_all is_ret fs")
    case True
    then have "\<exists>g. frame_step body combine [] (Join a fs) = Some g" by simp
    then show ?thesis by blast
  next
    case False
    then obtain i where i: "i < length fs" "\<not> is_ret (fs ! i)" by (auto simp: list_all_length)
    then obtain path g where "frame_step body combine path (fs ! i) = Some g"
      using Join.IH [of "fs ! i"] by auto
    with i have "\<exists>g. frame_step body combine (i # path) (Join a fs) = Some g" by simp
    then show ?thesis by blast
  qed
qed simp

lemma stuck_is_ret: "stuck (frame_step body combine) f \<Longrightarrow> is_ret f"
  using some_step [of f] unfolding stuck_def by fastforce

end

sublocale fork_join \<subseteq> runs: terminating_system
  "frame_step body combine" sound frame_work is_ret
  by unfold_locales (use step_denote stuck_is_ret in blast)+

context fork_join begin

lemma run_denote:
  "sound f \<Longrightarrow> run_steps (frame_step body combine) paths f = Some g \<Longrightarrow> denote g = denote f"
proof (induction paths arbitrary: f)
  case (Cons p ps)
  then show ?case using step_denote by (fastforce split: option.splits)
qed simp

text \<open>Whatever order the frames run in: the call ends, with its value, within its cost.\<close>

lemma call_result:
  assumes "ok a" and "run_steps (frame_step body combine) paths (Call a) = Some f"
  shows "length paths \<le> cost a \<and> (stuck (frame_step body combine) f \<longrightarrow> f = Ret (sem a))"
proof -
  have "sound (Call a)" using assms(1) by simp
  note bound = runs.run_bound [OF this assms(2)] and den = run_denote [OF this assms(2)]
  have "f = Ret (sem a)" if "stuck (frame_step body combine) f"
    using stuck_is_ret [OF that] den by (cases f) auto
  then show ?thesis using bound by simp
qed

lemma call_finishes:
  assumes "ok a" and "run_steps (frame_step body combine) paths (Call a) = Some f"
  shows "\<exists>more. run_steps (frame_step body combine) (paths @ more) (Call a) = Some (Ret (sem a))"
proof -
  have s: "sound (Call a)" using assms(1) by simp
  obtain more g where "run_steps (frame_step body combine) (paths @ more) (Call a) = Some g" and "is_ret g"
    using runs.can_finish [OF s assms(2)] by blast
  moreover have "denote g = sem a" using run_denote [OF s calculation(1)] by simp
  ultimately show ?thesis by (cases g) auto
qed

end

end
