(* ===== verification/Skynet.thy ===== *)
theory Skynet
  imports Fork_Join
begin

text \<open>
  \<open>examples/skynet.cpp\<close> and \<open>examples/fib.cpp\<close>: the two recursive fork-join programs. \<open>size_t\<close> is a
  word of any width \<open>'w\<close>; the recursion depth is a natural number.
\<close>

section \<open>Skynet\<close>

text \<open>The loop that multiplies \<open>depthOffset\<close> by 10.\<close>

fun depth_offset :: "nat \<Rightarrow> 'w::len word \<Rightarrow> 'w word" where
  "depth_offset 0 depthOffset = depthOffset"
| "depth_offset (Suc i) depthOffset = depth_offset i (depthOffset * 10)"

text \<open>\<open>skynet_one(BaseNum, Depth)\<close> up to its \<open>spawn_many\<close>, and after it.\<close>

definition skynet_body :: "nat \<Rightarrow> 'w::len word \<times> nat \<Rightarrow> 'w word + ('w word \<times> nat) list" where
  "skynet_body DepthMax = (\<lambda>(BaseNum, Depth).
     if Depth = DepthMax then Inl BaseNum
     else let depthOffset = depth_offset (DepthMax - Depth - 1) 1
          in Inr (map (\<lambda>idx. (BaseNum + depthOffset * of_nat idx, Depth + 1)) [0..<10]))"

definition skynet_combine :: "'w::len word \<times> nat \<Rightarrow> 'w word list \<Rightarrow> 'w word" where
  "skynet_combine a results = fold (\<lambda>idx count. count + results ! idx) [0..<10] 0"

definition EXPECTED_RESULT :: "'w::len word" where
  "EXPECTED_RESULT = (if LENGTH('w) = 64 then 499999500000 else 1783293664)"

text \<open>What \<open>skynet()\<close> and \<open>loop_skynet()\<close> print, given the results of \<open>skynet_one(0, 0)\<close>.\<close>

datatype 'a line = WrongResult 'a | Iterations nat

definition skynet :: "'w::len word \<Rightarrow> 'w word line list" where
  "skynet cnt = (if cnt \<noteq> EXPECTED_RESULT then [WrongResult cnt] else [])"

definition loop_skynet :: "(nat \<Rightarrow> nat \<Rightarrow> 'w::len word) \<Rightarrow> 'w word line list" where
  "loop_skynet counts =
     concat (map (\<lambda>j. concat (map (\<lambda>i. skynet (counts j i)) [0..<1000]) @ [Iterations 1000]) [0..<5])"

subsection \<open>The value and the cost of a call\<close>

definition leaf_sum :: "nat \<Rightarrow> 'w::len word \<times> nat \<Rightarrow> 'w word" where
  "leaf_sum DepthMax = (\<lambda>(BaseNum, Depth). \<Sum>j<10 ^ (DepthMax - Depth). BaseNum + of_nat j)"

fun skynet_cost :: "nat \<Rightarrow> nat" where
  "skynet_cost 0 = 1"
| "skynet_cost (Suc k) = 2 + 10 * skynet_cost k"

lemma depth_offset_power: "depth_offset n d = d * 10 ^ n"
  by (induction n arbitrary: d) (simp_all add: ac_simps)

lemma fold_results: "fold (\<lambda>idx count. count + f idx) [0..<n] c = (c :: 'w::len word) + (\<Sum>i<n. f i)"
  by (induction n) (simp_all add: ac_simps)

lemma sum_blocks:
  fixes f :: "nat \<Rightarrow> 'w::len word"
  shows "(\<Sum>i<m. \<Sum>j<n. f (i * n + j)) = (\<Sum>j<m * n. f j)"
proof -
  have "(\<Sum>j<n. f (i * n + j)) = sum f {i * n..<i * n + n}" for i
    using sum.shift_bounds_nat_ivl [of f 0 "i * n" n]
    by (simp add: atLeast0LessThan add.commute)
  then show ?thesis by (simp add: sum.nat_group)
qed

lemma skynet_split:
  assumes "Depth < DepthMax"
  shows "leaf_sum DepthMax (BaseNum, Depth) =
    (\<Sum>idx<10. leaf_sum DepthMax
       (BaseNum + depth_offset (DepthMax - Depth - 1) 1 * of_nat idx, Depth + 1))"
proof -
  obtain k where k: "DepthMax - Depth = Suc k" using assms by (metis Suc_diff_Suc)
  then have k': "DepthMax - Suc Depth = k" by simp
  have "(\<Sum>idx<10. \<Sum>j<10 ^ k. BaseNum + of_nat (idx * 10 ^ k + j)) =
      (\<Sum>j<10 * 10 ^ k. BaseNum + of_nat j)"
    by (rule sum_blocks)
  then show ?thesis
    by (simp add: leaf_sum_def k k' depth_offset_power ac_simps)
qed

interpretation skynet: fork_join "skynet_body DepthMax" skynet_combine "\<lambda>(b, d). d \<le> DepthMax"
    "leaf_sum DepthMax" "\<lambda>(b, d). skynet_cost (DepthMax - d)"
  for DepthMax
proof unfold_locales
  fix a :: "'w::len word \<times> nat" and r
  assume "case a of (b, d) \<Rightarrow> d \<le> DepthMax" and "skynet_body DepthMax a = Inl r"
  then show "leaf_sum DepthMax a = r \<and> 0 < (case a of (b, d) \<Rightarrow> skynet_cost (DepthMax - d))"
    by (auto simp: skynet_body_def leaf_sum_def Let_def split: if_splits)
next
  fix a :: "'w::len word \<times> nat" and args
  assume ok: "case a of (b, d) \<Rightarrow> d \<le> DepthMax" and body: "skynet_body DepthMax a = Inr args"
  obtain b d where a: "a = (b, d)" by (cases a)
  have d: "d < DepthMax"
    and args: "args = map (\<lambda>idx. (b + depth_offset (DepthMax - d - 1) 1 * of_nat idx, d + 1)) [0..<10]"
    using ok body by (auto simp: a skynet_body_def Let_def split: if_splits)
  have "skynet_combine a (map (leaf_sum DepthMax) args) =
      (\<Sum>idx<10. leaf_sum DepthMax (b + depth_offset (DepthMax - d - 1) 1 * of_nat idx, d + 1))"
    unfolding skynet_combine_def fold_results by (simp add: args del: upt_rec_numeral)
  then have "leaf_sum DepthMax a = skynet_combine a (map (leaf_sum DepthMax) args)"
    using skynet_split [OF d] by (simp add: a)
  moreover have "list_all (\<lambda>(b, d). d \<le> DepthMax) args"
    using d by (auto simp: args list_all_iff)
  moreover obtain k where k: "DepthMax - d = Suc k" using d by (metis Suc_diff_Suc)
  then have "DepthMax - Suc d = k" by simp
  then have "sum_list (map (\<lambda>(b, d). skynet_cost (DepthMax - d)) args) = 10 * skynet_cost k"
    by (simp add: args comp_def sum_list_triv del: upt_rec_numeral)
  ultimately show "leaf_sum DepthMax a = skynet_combine a (map (leaf_sum DepthMax) args) \<and>
      list_all (\<lambda>(b, d). d \<le> DepthMax) args \<and>
      2 + sum_list (map (\<lambda>(b, d). skynet_cost (DepthMax - d)) args) \<le>
      (case a of (b, d) \<Rightarrow> skynet_cost (DepthMax - d))"
    using k by (simp add: a)
qed

lemma leaf_sum_6: "leaf_sum 6 (0, 0) = (of_nat 499999500000 :: 'w::len word)"
proof -
  have "(\<Sum>j<n. j) = n * (n - 1) div 2" for n :: nat
    using Sum_Ico_nat [of 0 n] by (simp add: atLeast0LessThan)
  moreover have "(\<Sum>j<n. of_nat j :: 'w word) = of_nat (\<Sum>j<n. j)" for n :: nat by simp
  ultimately have gauss: "(\<Sum>j<n. of_nat j :: 'w word) = of_nat (n * (n - 1) div 2)" for n :: nat
    by (simp only:)
  have "leaf_sum 6 (0, 0) = (\<Sum>j<10 ^ 6. of_nat j :: 'w word)"
    unfolding leaf_sum_def prod.case by (simp only: diff_zero add_0)
  moreover have "(10 ^ 6 :: nat) * (10 ^ 6 - 1) div 2 = 499999500000" by simp
  ultimately show ?thesis using gauss [of "10 ^ 6"] by (simp only:)
qed

lemma skynet_cost_6: "skynet_cost 6 = 1222222"
proof -
  have "(6 :: nat) = Suc (Suc (Suc (Suc (Suc (Suc 0)))))" by simp
  moreover have "skynet_cost (Suc (Suc (Suc (Suc (Suc (Suc 0)))))) = 1222222" by simp
  ultimately show ?thesis by (simp only:)
qed

lemma loop_skynet_silent:
  "loop_skynet (\<lambda>_ _. EXPECTED_RESULT :: 'w::len word) = replicate 5 (Iterations 1000)"
proof -
  have "concat (replicate n [x]) = replicate n x" for n and x :: "'w word line"
    by (induction n) simp_all
  then show ?thesis
    by (simp add: loop_skynet_def skynet_def map_replicate_const del: upt_rec_numeral)
qed

lemma leaf_sum_expected:
  assumes "LENGTH('w::len) = 64 \<or> LENGTH('w) = 32"
  shows "leaf_sum 6 (0, 0) = (EXPECTED_RESULT :: 'w word)"
  using assms
proof
  assume "LENGTH('w) = 64"
  then show ?thesis by (simp add: leaf_sum_6 EXPECTED_RESULT_def)
next
  assume "LENGTH('w) = 32"
  moreover from this have "(of_nat 499999500000 :: 'w word) = of_nat 1783293664"
    by (simp add: word_of_nat_eq_iff take_bit_eq_mod)
  ultimately show ?thesis unfolding leaf_sum_6 by (simp add: EXPECTED_RESULT_def)
qed

text \<open>
  C14. \<open>examples/skynet.cpp\<close> computes its \<open>EXPECTED_RESULT\<close> on platforms with 64-bit and with 32-bit
  \<open>size_t\<close>, in whatever order the 1111111 coroutines of a run are resumed: a run takes at most 1222222
  steps, and when no coroutine can run any more the root has returned the expected result, so
  that the program prints its five timing lines only.
\<close>

theorem skynet_expected_result:
  fixes f :: "('w::len word \<times> nat, 'w word) frame"
  assumes "LENGTH('w) = 64 \<or> LENGTH('w) = 32"
    and "run_steps (frame_step (skynet_body 6) skynet_combine) paths (Call (0, 0)) = Some f"
  shows "length paths \<le> 1222222 \<and>
    (stuck (frame_step (skynet_body 6) skynet_combine) f \<longrightarrow>
      f = Ret EXPECTED_RESULT \<and> skynet (ret_of f) = [] \<and>
      loop_skynet (\<lambda>_ _. ret_of f) = replicate 5 (Iterations 1000))"
proof -
  have "length paths \<le> skynet_cost 6 \<and>
      (stuck (frame_step (skynet_body 6) skynet_combine) f \<longrightarrow> f = Ret (leaf_sum 6 (0, 0)))"
    using skynet.call_result [OF _ assms(2)] by simp
  then show ?thesis
    using leaf_sum_expected [OF assms(1)] by (auto simp: skynet_cost_6 loop_skynet_silent skynet_def)
qed

theorem skynet_expected_result_witness:
  "\<exists>paths. run_steps (frame_step (skynet_body 6) skynet_combine) paths (Call (0, 0)) =
     Some (Ret (499999500000 :: 64 word))"
proof -
  obtain paths f where run: "run_steps (frame_step (skynet_body 6) skynet_combine) paths (Call (0, 0)) =
      Some (f :: (64 word \<times> nat, 64 word) frame)" and "stuck (frame_step (skynet_body 6) skynet_combine) f"
    using skynet.runs.reaches_stuck [of 6 "Call (0, 0)"] by auto
  then have "f = Ret EXPECTED_RESULT"
    using skynet_expected_result [OF _ run] by simp
  then show ?thesis using run by (auto simp: EXPECTED_RESULT_def)
qed

section \<open>Fibonacci\<close>

text \<open>
  \<open>fib(n)\<close> of \<open>examples/fib.cpp\<close> forks \<open>fib(n - 1)\<close>, runs \<open>fib(n - 2)\<close> itself, and adds the two
  results when both have returned.
\<close>

definition fib_body :: "'w::len word \<Rightarrow> 'w word + 'w word list" where
  "fib_body n = (if n < 2 then Inl n else Inr [n - 1, n - 2])"

definition fib_combine :: "'w::len word \<Rightarrow> 'w word list \<Rightarrow> 'w word" where
  "fib_combine n results = results ! 0 + results ! 1"

fun fibonacci :: "nat \<Rightarrow> nat" where
  "fibonacci 0 = 0"
| "fibonacci (Suc 0) = 1"
| "fibonacci (Suc (Suc n)) = fibonacci (Suc n) + fibonacci n"

fun fib_cost :: "nat \<Rightarrow> nat" where
  "fib_cost 0 = 1"
| "fib_cost (Suc 0) = 1"
| "fib_cost (Suc (Suc n)) = 2 + (fib_cost (Suc n) + fib_cost n)"

lemma fib_cost_closed: "fib_cost n + 2 = 3 * fibonacci (Suc n)"
  by (induction n rule: fib_cost.induct) simp_all

lemma unat_two: "2 \<le> LENGTH('w::len) \<Longrightarrow> unat (2 :: 'w word) = 2"
  using power_increasing [of 2 "LENGTH('w)" "2 :: nat"] by (simp add: take_bit_nat_eq_self)

lemma fib_args:
  fixes n :: "'w::len word"
  assumes "2 \<le> LENGTH('w)" and "\<not> n < 2"
  obtains k where "unat n = Suc (Suc k)" "unat (n - 1) = Suc k" "unat (n - 2) = k"
proof -
  have two: "unat (2 :: 'w word) = 2"
    using assms(1) by (rule unat_two)
  have "2 \<le> unat n" using assms(2) two by (simp add: word_less_nat_alt)
  moreover have "unat (n - 1) = unat n - 1" "unat (n - 2) = unat n - 2"
    using calculation two by (simp_all add: unat_sub word_le_nat_alt)
  ultimately show thesis using that [of "unat n - 2"] by simp
qed

interpretation fib: fork_join "fib_body :: 'w::len word \<Rightarrow> _" fib_combine "\<lambda>n. 2 \<le> LENGTH('w)"
    "\<lambda>n. of_nat (fibonacci (unat n))" "\<lambda>n. fib_cost (unat n)"
proof unfold_locales
  fix n r :: "'w word"
  assume "2 \<le> LENGTH('w)" and body: "fib_body n = Inl r"
  then have two: "unat (2 :: 'w word) = 2" by (intro unat_two)
  have "n < 2" and r: "r = n" using body by (auto simp: fib_body_def split: if_splits)
  then have "unat n = 0 \<or> unat n = 1" using two by (auto simp: word_less_nat_alt)
  then have "n = 0 \<or> n = 1" by (auto simp: word_unat_eq_iff)
  then show "of_nat (fibonacci (unat n)) = r \<and> 0 < fib_cost (unat n)"
    using r by auto
next
  fix n :: "'w word" and args
  assume len: "2 \<le> LENGTH('w)" and body: "fib_body n = Inr args"
  then have "\<not> n < 2" and args: "args = [n - 1, n - 2]" by (auto simp: fib_body_def split: if_splits)
  with len obtain k where "unat n = Suc (Suc k)" "unat (n - 1) = Suc k" "unat (n - 2) = k"
    by (elim fib_args)
  then show "of_nat (fibonacci (unat n)) = fib_combine n (map (\<lambda>n. of_nat (fibonacci (unat n))) args) \<and>
      list_all (\<lambda>n. 2 \<le> LENGTH('w)) args \<and>
      2 + sum_list (map (\<lambda>n. fib_cost (unat n)) args) \<le> fib_cost (unat n)"
    using len by (simp add: args fib_combine_def)
qed

lemma fibonacci_mono: "m \<le> n \<Longrightarrow> fibonacci m \<le> fibonacci n"
  by (rule lift_Suc_mono_le [of fibonacci]) (metis fibonacci.simps fibonacci.elims le_add1 zero_le)

text \<open>The iterative computation, to evaluate without the tree recursion.\<close>

fun fib_iter :: "nat \<Rightarrow> nat \<Rightarrow> nat \<Rightarrow> nat" where
  "fib_iter 0 a b = a"
| "fib_iter (Suc n) a b = fib_iter n b (b + a)"

lemma fib_iter_correct: "fib_iter n (fibonacci m) (fibonacci (Suc m)) = fibonacci (n + m)"
proof (induction n arbitrary: m)
  case (Suc n)
  from Suc [of "Suc m"] show ?case by simp
qed simp

lemma fib_iter_numeral:
  "fib_iter (numeral k) a b = fib_iter (pred_numeral k) b (b + a)" "fib_iter 1 a b = b"
  by (simp_all add: numeral_eq_Suc)

lemma fibonacci_93: "fibonacci 93 = 12200160415121876738"
  using fib_iter_correct [of 93 0]
  by (simp add: fib_iter_numeral del: fib_iter.simps(2) One_nat_def)

lemma fibonacci_94: "fibonacci 94 = 19740274219868223167"
  using fib_iter_correct [of 94 0]
  by (simp add: fib_iter_numeral del: fib_iter.simps(2) One_nat_def)

text \<open>
  C15. \<open>fib(n)\<close> of \<open>examples/fib.cpp\<close>, in whatever order the forked and the inline calls run, takes at
  most \<open>3 F(n + 1)\<close> steps and returns the Fibonacci number modulo the range of \<open>size_t\<close>; on 64 bits
  that is the number itself exactly up to \<open>n = 93\<close>, and already 94 wraps around.
\<close>

theorem fib_result:
  fixes n :: "'w::len word"
  assumes "2 \<le> LENGTH('w)"
    and "run_steps (frame_step fib_body fib_combine) paths (Call n) = Some f"
  shows "length paths \<le> 3 * fibonacci (Suc (unat n)) \<and>
    (stuck (frame_step fib_body fib_combine) f \<longrightarrow>
      f = Ret (of_nat (fibonacci (unat n))) \<and>
      (LENGTH('w) = 64 \<longrightarrow>
        (unat n \<le> 93 \<longrightarrow> unat (ret_of f) = fibonacci (unat n)) \<and>
        (unat n = 94 \<longrightarrow> unat (ret_of f) \<noteq> fibonacci (unat n))))"
proof -
  have call: "length paths \<le> fib_cost (unat n) \<and>
      (stuck (frame_step fib_body fib_combine) f \<longrightarrow> f = Ret (of_nat (fibonacci (unat n))))"
    using fib.call_result [OF assms] .
  have small: "unat (of_nat (fibonacci (unat n)) :: 'w word) = fibonacci (unat n)"
    if "LENGTH('w) = 64" "unat n \<le> 93"
  proof -
    have "fibonacci (unat n) < 2 ^ LENGTH('w)"
      using fibonacci_mono [OF that(2)] that(1) by (simp add: fibonacci_93)
    then show ?thesis by (simp add: unsigned_of_nat take_bit_nat_eq_self)
  qed
  have "unat (of_nat (fibonacci (unat n)) :: 'w word) < 2 ^ 64" if "LENGTH('w) = 64"
    using unsigned_less [of "of_nat (fibonacci (unat n)) :: 'w word"] that by simp
  then have "unat (of_nat (fibonacci (unat n)) :: 'w word) \<noteq> fibonacci (unat n)"
    if "LENGTH('w) = 64" "unat n = 94"
    using that by (simp add: fibonacci_94)
  then show ?thesis
    using call small fib_cost_closed [of "unat n"] by auto
qed

definition fib_paths :: "nat list list" where
  "fib_paths = [[], [0], [0, 1], [1], [0, 0], [0], []]"

theorem fib_result_witness:
  "run_steps (frame_step fib_body fib_combine) fib_paths (Call (3 :: 64 word)) = Some (Ret 2) \<and>
   length fib_paths \<le> 3 * fibonacci (Suc 3)"
proof -
  have run: "run_steps (frame_step fib_body fib_combine) fib_paths (Call (3 :: 64 word)) = Some (Ret 2)"
    by (simp add: fib_paths_def fib_body_def fib_combine_def)
  then show ?thesis using fib_result [OF _ run] by simp
qed

end
