(* ===== verification/Spawn_Iterator.thy ===== *)
theory Spawn_Iterator
  imports Prelude
begin

text \<open>
  \<open>examples/spawn_iterator.cpp\<close>: tasks made by lazy ranges and passed to \<open>tmc::spawn_many\<close> with and
  without a bound. \<open>int\<close> arithmetic that leaves the range of a 32-bit \<open>int\<close> is undefined behaviour,
  and an \<open>assert\<close> may fail: both are errors of the result type.
\<close>

section \<open>Integers and assertions\<close>

datatype cpp_error = Overflow | AssertionFailed

type_synonym 'a outcome = "cpp_error + 'a"

fun bind :: "'a outcome \<Rightarrow> ('a \<Rightarrow> 'b outcome) \<Rightarrow> 'b outcome" where
  "bind (Inl e) f = Inl e"
| "bind (Inr x) f = f x"

definition int_range :: "int \<Rightarrow> int outcome" where
  "int_range x = (if - (2 ^ 31) \<le> x \<and> x < 2 ^ 31 then Inr x else Inl Overflow)"

text \<open>\<open>1 << i\<close>: undefined outside of 0 to 31, and \<open>1 << 31\<close> is the smallest \<open>int\<close>.\<close>

definition shl_one :: "int \<Rightarrow> int outcome" where
  "shl_one i = (if i < 0 \<or> 32 \<le> i then Inl Overflow
                else if i = 31 then Inr (- (2 ^ 31)) else Inr (2 ^ nat i))"

definition assertion :: "bool \<Rightarrow> unit outcome" where
  "assertion c = (if c then Inr () else Inl AssertionFailed)"

text \<open>\<open>std::accumulate\<close> from 0.\<close>

fun accumulate_int :: "int list \<Rightarrow> int \<Rightarrow> int outcome" where
  "accumulate_int [] acc = Inr acc"
| "accumulate_int (x # xs) acc = bind (int_range (acc + x)) (accumulate_int xs)"

section \<open>The library's \<open>spawn_many\<close>\<close>

text \<open>
  Which tasks \<open>spawn_many\<close> takes from an iterator, with an upper bound (a template argument or a
  third argument) or without one, and the capacity of the vector it makes for so many results. Each
  task that is taken is made by dereferencing the iterator once.
\<close>

record 't spawn_ops =
  sp_take :: "nat option \<Rightarrow> 't list \<Rightarrow> 't list"
  sp_capacity :: "nat \<Rightarrow> nat"

definition spawn_laws :: "'t spawn_ops \<Rightarrow> bool" where
  "spawn_laws S \<longleftrightarrow>
     (\<forall>ts. sp_take S None ts = ts) \<and> (\<forall>n ts. sp_take S (Some n) ts = take n ts) \<and>
     (\<forall>n. sp_capacity S n = n)"

definition take_spawn :: "'t spawn_ops" where
  "take_spawn = \<lparr>sp_take = (\<lambda>b ts. case b of None \<Rightarrow> ts | Some n \<Rightarrow> take n ts), sp_capacity = (\<lambda>n. n)\<rparr>"

lemma take_spawn_laws: "spawn_laws take_spawn"
  by (simp add: spawn_laws_def take_spawn_def)

text \<open>The results of the tasks taken, in their order.\<close>

fun run_all :: "('t \<Rightarrow> int outcome) \<Rightarrow> 't list \<Rightarrow> int list outcome" where
  "run_all run [] = Inr []"
| "run_all run (t # ts) = bind (run t) (\<lambda>x. bind (run_all run ts) (\<lambda>xs. Inr (x # xs)))"

section \<open>The iterators\<close>

text \<open>A task \<open>work(i)\<close> is given by its argument.\<close>

definition work :: "int \<Rightarrow> int outcome" where
  "work i = shl_one i"

definition unpredictable_filter :: "int \<Rightarrow> bool" where
  "unpredictable_filter i = (i \<noteq> 3)"

definition iter_of_static_size :: "nat \<Rightarrow> int list" where
  "iter_of_static_size N = map int [0..<N]"

definition iter_of_dynamic_known_size :: "nat \<Rightarrow> int list" where
  "iter_of_dynamic_known_size N = filter unpredictable_filter (map int [0..<N])"

definition iter_of_dynamic_unknown_size :: "nat \<Rightarrow> int list" where
  "iter_of_dynamic_unknown_size N = filter unpredictable_filter (map int [0..<N])"

section \<open>The examples that await the results\<close>

text \<open>The values the assertions compare with: \<open>(1 << N) - 1\<close>, and with 8 less.\<close>

definition all_sum :: "nat \<Rightarrow> int outcome" where
  "all_sum N = bind (shl_one (int N)) (\<lambda>p. int_range (p - 1))"

definition filtered_sum :: "nat \<Rightarrow> int outcome" where
  "filtered_sum N = bind (all_sum N) (\<lambda>s. int_range (s - 8))"

definition exceeding_sum :: "nat \<Rightarrow> int outcome" where
  "exceeding_sum N = bind (filtered_sum N) (\<lambda>s. bind (shl_one (int N)) (\<lambda>p. int_range (s + p)))"

text \<open>\<open>std::array<int, N>\<close>: what no task has filled stays 0.\<close>

definition result_array :: "nat \<Rightarrow> int list \<Rightarrow> int list" where
  "result_array N results = take N results @ replicate (N - length results) 0"

definition static_sized_iterator :: "int spawn_ops \<Rightarrow> nat \<Rightarrow> unit outcome" where
  "static_sized_iterator S N =
     bind (run_all work (sp_take S (Some N) (iter_of_static_size N))) (\<lambda>rs.
     bind (accumulate_int (result_array N rs) 0) (\<lambda>sum.
     bind (all_sum N) (\<lambda>expected. assertion (sum = expected))))"

text \<open>
  The two halves of \<open>static_bounded_iterator\<close>; \<open>taskCount\<close> counts the dereferences, and the sum
  is over the first \<open>taskCount\<close> results.
\<close>

definition static_bounded_less :: "int spawn_ops \<Rightarrow> nat \<Rightarrow> unit outcome" where
  "static_bounded_less S N =
     (let taken = sp_take S (Some N) (iter_of_dynamic_unknown_size N); taskCount = length taken in
      bind (run_all work taken) (\<lambda>rs.
      bind (assertion (int taskCount = int N - 1)) (\<lambda>_.
      bind (accumulate_int (take taskCount (result_array N rs)) 0) (\<lambda>sum.
      bind (filtered_sum N) (\<lambda>expected. assertion (sum = expected))))))"

definition static_bounded_more :: "int spawn_ops \<Rightarrow> nat \<Rightarrow> unit outcome" where
  "static_bounded_more S N =
     (let taken = sp_take S (Some N) (iter_of_dynamic_unknown_size (N + 20)); taskCount = length taken in
      bind (run_all work taken) (\<lambda>rs.
      bind (assertion (taskCount = N)) (\<lambda>_.
      bind (accumulate_int (take taskCount (result_array N rs)) 0) (\<lambda>sum.
      bind (exceeding_sum N) (\<lambda>expected. assertion (sum = expected))))))"

definition static_bounded_iterator :: "int spawn_ops \<Rightarrow> nat \<Rightarrow> unit outcome" where
  "static_bounded_iterator S N = bind (static_bounded_less S N) (\<lambda>_. static_bounded_more S N)"

definition dynamic_known_sized_iterator :: "int spawn_ops \<Rightarrow> nat \<Rightarrow> unit outcome" where
  "dynamic_known_sized_iterator S N =
     (let iter = iter_of_dynamic_known_size N; taskCount = length iter in
      bind (run_all work (sp_take S None iter)) (\<lambda>results.
      bind (accumulate_int results 0) (\<lambda>sum.
      bind (filtered_sum N) (\<lambda>expected.
      bind (assertion (sum = expected)) (\<lambda>_.
      bind (assertion (length results = taskCount)) (\<lambda>_.
      assertion (length results = sp_capacity S (length results))))))))"

definition dynamic_unknown_sized_iterator :: "int spawn_ops \<Rightarrow> nat \<Rightarrow> unit outcome" where
  "dynamic_unknown_sized_iterator S N =
     bind (run_all work (sp_take S None (iter_of_dynamic_unknown_size N))) (\<lambda>results.
     bind (accumulate_int results 0) (\<lambda>sum.
     bind (filtered_sum N) (\<lambda>expected.
     bind (assertion (sum = expected)) (\<lambda>_.
     assertion (length results = sp_capacity S (length results))))))"

definition dynamic_bounded_less :: "int spawn_ops \<Rightarrow> nat \<Rightarrow> unit outcome" where
  "dynamic_bounded_less S MaxTasks =
     (let taken = sp_take S (Some MaxTasks) (iter_of_dynamic_unknown_size MaxTasks);
          taskCount = length taken in
      bind (run_all work taken) (\<lambda>results.
      bind (assertion (int taskCount = int MaxTasks - 1)) (\<lambda>_.
      bind (accumulate_int (take taskCount results) 0) (\<lambda>sum.
      bind (filtered_sum MaxTasks) (\<lambda>expected.
      bind (assertion (sum = expected)) (\<lambda>_.
      bind (assertion (length results = taskCount)) (\<lambda>_.
      assertion (length results = sp_capacity S (length results)))))))))"

definition dynamic_bounded_more :: "int spawn_ops \<Rightarrow> nat \<Rightarrow> unit outcome" where
  "dynamic_bounded_more S MaxTasks =
     (let taken = sp_take S (Some MaxTasks) (iter_of_dynamic_unknown_size (MaxTasks + 20));
          taskCount = length taken in
      bind (run_all work taken) (\<lambda>results.
      bind (assertion (taskCount = MaxTasks)) (\<lambda>_.
      bind (accumulate_int (take taskCount results) 0) (\<lambda>sum.
      bind (exceeding_sum MaxTasks) (\<lambda>expected.
      bind (assertion (sum = expected)) (\<lambda>_.
      bind (assertion (length results = taskCount)) (\<lambda>_.
      assertion (length results = sp_capacity S (length results)))))))))"

definition dynamic_bounded_iterator :: "int spawn_ops \<Rightarrow> nat \<Rightarrow> unit outcome" where
  "dynamic_bounded_iterator S N = bind (dynamic_bounded_less S N) (\<lambda>_. dynamic_bounded_more S N)"

section \<open>Sums of powers of two\<close>

lemma accumulate_int_sum:
  "\<forall>x\<in>set xs. 0 \<le> x \<Longrightarrow> 0 \<le> acc \<Longrightarrow> acc + sum_list xs < 2 ^ 31 \<Longrightarrow>
   accumulate_int xs acc = Inr (acc + sum_list xs)"
proof (induction xs arbitrary: acc)
  case (Cons x xs)
  then have "0 \<le> sum_list xs" by (simp add: sum_list_nonneg)
  then have "int_range (acc + x) = Inr (acc + x)"
    using Cons.prems by (simp add: int_range_def)
  then show ?case using Cons by (simp add: add.assoc)
qed simp

lemma run_all_work: "\<forall>i\<in>set is. 0 \<le> i \<and> i < 31 \<Longrightarrow> run_all work is = Inr (map (\<lambda>i. 2 ^ nat i) is)"
  by (induction "is") (auto simp: work_def shl_one_def)

definition kept :: "nat \<Rightarrow> nat list" where
  "kept N = filter (\<lambda>i. i \<noteq> 3) [0..<N]"

lemma iter_kept: "iter_of_dynamic_unknown_size N = map int (kept N)"
  "iter_of_dynamic_known_size N = map int (kept N)"
  by (simp_all add: iter_of_dynamic_unknown_size_def iter_of_dynamic_known_size_def kept_def
      unpredictable_filter_def filter_map comp_def)

lemma kept_Suc: "kept (Suc N) = kept N @ (if N = 3 then [] else [N])"
  by (simp add: kept_def)

lemma length_kept: "length (kept N) = (if 4 \<le> N then N - 1 else N)"
  by (induction N) (auto simp: kept_Suc kept_def)

lemma kept_less: "i \<in> set (kept N) \<Longrightarrow> i < N"
  by (simp add: kept_def)

lemma sum_kept: "sum_list (map (\<lambda>i. 2 ^ i :: int) (kept N)) = (if 4 \<le> N then 2 ^ N - 9 else 2 ^ N - 1)"
  by (induction N) (auto simp: kept_Suc kept_def not_le less_Suc_eq numeral_eq_Suc)

lemma sum_all: "sum_list (map (\<lambda>i. 2 ^ i :: int) [0..<N]) = 2 ^ N - 1"
  by (induction N) auto

lemma kept_append: "\<exists>is. kept (N + M) = kept N @ is"
  by (induction M) (auto simp: kept_Suc)

lemma take_kept: "4 \<le> N \<Longrightarrow> take N (kept (N + 20)) = kept (Suc N)"
  using kept_append [of "Suc N" 19] length_kept [of "Suc N"] by (auto simp: eval_nat_numeral)

section \<open>The assertions hold\<close>

lemma shl_one_30: "N \<le> 30 \<Longrightarrow> shl_one (int N) = Inr (2 ^ N)"
  by (simp add: shl_one_def)

lemma power_30: "N \<le> 30 \<Longrightarrow> (2 :: int) ^ N \<le> 2 ^ 30"
  by (rule power_increasing) simp_all

lemma expected_sums:
  assumes "N \<le> 30"
  shows "all_sum N = Inr (2 ^ N - 1)" and "filtered_sum N = Inr (2 ^ N - 9)"
    and "exceeding_sum N = Inr (2 ^ N - 9 + 2 ^ N)"
proof -
  have "(1 :: int) \<le> 2 ^ N" "- (2 ^ 31) < (2 :: int) ^ N"
    by simp (rule less_le_trans [of _ 0], simp_all)
  then show "all_sum N = Inr (2 ^ N - 1)" "filtered_sum N = Inr (2 ^ N - 9)"
    "exceeding_sum N = Inr (2 ^ N - 9 + 2 ^ N)"
    using power_30 [OF assms]
    by (simp_all add: all_sum_def filtered_sum_def exceeding_sum_def shl_one_30 [OF assms] int_range_def)
qed

lemma powers_map: "map (\<lambda>i. 2 ^ nat i) (map int is) = map (\<lambda>i. 2 ^ i :: int) is"
  by simp

lemma run_kept: "N \<le> 31 \<Longrightarrow> run_all work (map int (kept N)) = Inr (map (\<lambda>i. 2 ^ i) (kept N))"
  using run_all_work [of "map int (kept N)"] kept_less [of _ N] by (force simp: powers_map)

lemma accumulate_kept:
  "N \<le> 31 \<Longrightarrow> accumulate_int (map (\<lambda>i. 2 ^ i) (kept N)) 0 = Inr (if 4 \<le> N then 2 ^ N - 9 else 2 ^ N - 1)"
  using accumulate_int_sum [of "map (\<lambda>i. 2 ^ i) (kept N)" 0] power_increasing [of N 31 "2 :: int"]
  by (simp add: sum_kept split: if_splits)

lemma take_all_kept: "take N (map int (kept N)) = map int (kept N)"
  by (simp add: length_kept)

lemma static_sized_holds:
  assumes S: "spawn_laws S" and N: "N \<le> 30"
  shows "static_sized_iterator S N = Inr ()"
proof -
  have "run_all work (map int [0..<N]) = Inr (map (\<lambda>i. 2 ^ i) [0..<N])"
    using run_all_work [of "map int [0..<N]"] N by (simp add: comp_def)
  moreover have "accumulate_int (map (\<lambda>i. 2 ^ i) [0..<N]) 0 = Inr (2 ^ N - 1)"
    using accumulate_int_sum [of "map (\<lambda>i. 2 ^ i) [0..<N]" 0] power_30 [OF N] by (simp add: sum_all)
  ultimately show ?thesis
    using S by (simp add: static_sized_iterator_def iter_of_static_size_def spawn_laws_def
        result_array_def expected_sums [OF N] assertion_def)
qed

lemma filtered_holds:
  assumes S: "spawn_laws S" and N: "N \<le> 30"
  shows "static_bounded_less S N = (if 4 \<le> N then Inr () else Inl AssertionFailed)"
    and "dynamic_bounded_less S N = (if 4 \<le> N then Inr () else Inl AssertionFailed)"
    and "dynamic_known_sized_iterator S N = (if 4 \<le> N then Inr () else Inl AssertionFailed)"
    and "dynamic_unknown_sized_iterator S N = (if 4 \<le> N then Inr () else Inl AssertionFailed)"
proof -
  have N': "N \<le> 31" using N by simp
  note facts = run_kept [OF N'] accumulate_kept [OF N'] expected_sums [OF N] take_all_kept
    iter_kept length_kept assertion_def result_array_def
  show "static_bounded_less S N = (if 4 \<le> N then Inr () else Inl AssertionFailed)"
    using S by (simp add: static_bounded_less_def facts spawn_laws_def Let_def of_nat_diff)
  show "dynamic_bounded_less S N = (if 4 \<le> N then Inr () else Inl AssertionFailed)"
    using S by (simp add: dynamic_bounded_less_def facts spawn_laws_def Let_def of_nat_diff)
  show "dynamic_known_sized_iterator S N = (if 4 \<le> N then Inr () else Inl AssertionFailed)"
    using S by (simp add: dynamic_known_sized_iterator_def facts spawn_laws_def Let_def)
  show "dynamic_unknown_sized_iterator S N = (if 4 \<le> N then Inr () else Inl AssertionFailed)"
    using S by (simp add: dynamic_unknown_sized_iterator_def facts spawn_laws_def)
qed

lemma exceeding_holds:
  assumes S: "spawn_laws S" and N: "N \<le> 30" "4 \<le> N"
  shows "static_bounded_more S N = Inr ()" and "dynamic_bounded_more S N = Inr ()"
proof -
  have N': "Suc N \<le> 31" using N by simp
  have "take N (map int (kept (N + 20))) = map int (kept (Suc N))"
    using take_kept [OF N(2)] by (simp add: take_map)
  note facts = this run_kept [OF N'] accumulate_kept [OF N'] expected_sums [OF N(1)] 
    iter_kept length_kept assertion_def result_array_def
  show "static_bounded_more S N = Inr ()" "dynamic_bounded_more S N = Inr ()"
    using S N(2) by (simp_all add: static_bounded_more_def dynamic_bounded_more_def facts spawn_laws_def Let_def)
qed

lemma run_all_static_31: "run_all work (map int [0..<31]) = Inr (map (\<lambda>i. 2 ^ i) [0..<31])"
  using run_all_work [of "map int [0..<31]"] by (simp add: comp_def del: upt_rec_numeral)

lemma static_sized_overflow:
  assumes "spawn_laws S"
  shows "static_sized_iterator S 31 = Inl Overflow \<and>
    accumulate_int (map (\<lambda>i. 2 ^ i) [0..<31]) 0 = Inr (2 ^ 31 - 1)"
proof -
  have "accumulate_int (map (\<lambda>i. 2 ^ i) [0..<31]) 0 = Inr (2 ^ 31 - 1)"
    using accumulate_int_sum [of "map (\<lambda>i. 2 ^ i) [0..<31]" 0] sum_all [of 31]
    by (simp del: upt_rec_numeral)
  moreover have "all_sum 31 = Inl Overflow"
    by (simp add: all_sum_def shl_one_def int_range_def)
  ultimately show ?thesis
    using assms run_all_static_31
    by (simp add: static_sized_iterator_def iter_of_static_size_def spawn_laws_def result_array_def
        del: upt_rec_numeral)
qed

text \<open>
  C20. The assertions of the awaiting examples of \<open>examples/spawn_iterator.cpp\<close>, for every \<open>N\<close> up
  to 30 and not just the 5 of the program: nothing overflows, those over the unfiltered range hold,
  and those over the filtered ranges hold exactly when the range reaches past the element 3 that the
  filter drops (\<open>N \<ge> 4\<close>), bounded or not, with fewer or with more tasks than the bound; for smaller \<open>N\<close> an
  assertion fails, and that is the only thing that goes wrong. The bound 30 is
  sharp: with \<open>N = 31\<close> all the results and their sum are still \<open>int\<close>s, but the \<open>(1 << N) - 1\<close> that the first
  example compares with is a signed overflow.
\<close>

theorem spawn_iterator_assertions:
  assumes "spawn_laws S" and "N \<le> 30"
  shows "static_sized_iterator S N = Inr () \<and>
    static_bounded_iterator S N = (if 4 \<le> N then Inr () else Inl AssertionFailed) \<and>
    dynamic_bounded_iterator S N = (if 4 \<le> N then Inr () else Inl AssertionFailed) \<and>
    dynamic_known_sized_iterator S N = (if 4 \<le> N then Inr () else Inl AssertionFailed) \<and>
    dynamic_unknown_sized_iterator S N = (if 4 \<le> N then Inr () else Inl AssertionFailed) \<and>
    static_sized_iterator S 31 = Inl Overflow \<and>
    accumulate_int (map (\<lambda>i. 2 ^ i) [0..<31]) 0 = Inr (2 ^ 31 - 1)"
  using static_sized_holds [OF assms] filtered_holds [OF assms] exceeding_holds [OF assms]
    static_sized_overflow [OF assms(1)]
  by (simp add: static_bounded_iterator_def dynamic_bounded_iterator_def)

theorem spawn_iterator_assertions_witness:
  "static_bounded_iterator take_spawn 5 = Inr () \<and> dynamic_known_sized_iterator take_spawn 3 = Inl AssertionFailed"
  using spawn_iterator_assertions [OF take_spawn_laws, of 5] spawn_iterator_assertions [OF take_spawn_laws, of 3]
  by simp

section \<open>The examples that detach\<close>

text \<open>
  The tasks each increment a shared atomic counter; the example sleeps and then asserts its value. A
  state is the flag of each task spawned (it has run) and the counter; \<open>detach_step i\<close> runs task
  \<open>i\<close> on some thread.
\<close>

type_synonym detached = "bool list \<times> int"

definition detach :: "int list \<Rightarrow> detached" where
  "detach taken = (replicate (length taken) False, 0)"

definition detach_step :: "nat \<Rightarrow> detached \<Rightarrow> detached option" where
  "detach_step i = (\<lambda>(fin, counter).
     if i < length fin \<and> \<not> fin ! i then Some (fin[i := True], counter + 1) else None)"

definition detach_maxCount_less :: "int spawn_ops \<Rightarrow> detached \<times> int" where
  "detach_maxCount_less S = (detach (sp_take S (Some 5) (map int [0..<10])), 5)"

definition detach_maxCount_greater :: "int spawn_ops \<Rightarrow> detached \<times> int" where
  "detach_maxCount_greater S = (detach (sp_take S (Some 15) (map int [0..<10])), 10)"

definition detach_maxCount_template_less :: "int spawn_ops \<Rightarrow> detached \<times> int" where
  "detach_maxCount_template_less S = (detach (sp_take S (Some 5) (map int [0..<10])), 5)"

definition detach_maxCount_template_greater :: "int spawn_ops \<Rightarrow> detached \<times> int" where
  "detach_maxCount_template_greater S = (detach (sp_take S (Some 15) (map int [0..<10])), 10)"

definition detach_maxCount_less_uncountable_iter :: "int spawn_ops \<Rightarrow> detached \<times> int" where
  "detach_maxCount_less_uncountable_iter S =
     (detach (sp_take S (Some 5) (filter unpredictable_filter (map int [0..<10]))), 5)"

definition detach_maxCount_greater_uncountable_iter :: "int spawn_ops \<Rightarrow> detached \<times> int" where
  "detach_maxCount_greater_uncountable_iter S =
     (detach (sp_take S (Some 15) (filter unpredictable_filter (map int [0..<10]))), 9)"

definition detach_maxCount_template_less_uncountable_iter :: "int spawn_ops \<Rightarrow> detached \<times> int" where
  "detach_maxCount_template_less_uncountable_iter S =
     (detach (sp_take S (Some 5) (filter unpredictable_filter (map int [0..<10]))), 5)"

definition detach_maxCount_template_greater_uncountable_iter :: "int spawn_ops \<Rightarrow> detached \<times> int" where
  "detach_maxCount_template_greater_uncountable_iter S =
     (detach (sp_take S (Some 15) (filter unpredictable_filter (map int [0..<10]))), 9)"

definition detach_examples :: "int spawn_ops \<Rightarrow> (detached \<times> int) list" where
  "detach_examples S =
     [detach_maxCount_less S, detach_maxCount_greater S,
      detach_maxCount_template_less S, detach_maxCount_template_greater S,
      detach_maxCount_less_uncountable_iter S, detach_maxCount_greater_uncountable_iter S,
      detach_maxCount_template_less_uncountable_iter S, detach_maxCount_template_greater_uncountable_iter S]"

text \<open>\<open>main\<close>: the awaiting examples with \<open>IterMax = 5\<close>, in order.\<close>

definition spawn_iterator_main :: "int spawn_ops \<Rightarrow> unit outcome" where
  "spawn_iterator_main S =
     bind (static_sized_iterator S 5) (\<lambda>_.
     bind (static_bounded_iterator S 5) (\<lambda>_.
     bind (dynamic_known_sized_iterator S 5) (\<lambda>_.
     bind (dynamic_unknown_sized_iterator S 5) (\<lambda>_. dynamic_bounded_iterator S 5))))"

definition pending :: "detached \<Rightarrow> nat" where
  "pending st = length (filter Not (fst st))"

definition detach_inv :: "nat \<Rightarrow> detached \<Rightarrow> bool" where
  "detach_inv n st \<longleftrightarrow> snd st + int (pending st) = int n"

lemma pending_run: "i < length fin \<Longrightarrow> \<not> fin ! i \<Longrightarrow> Suc (pending (fin[i := True], c')) = pending (fin, c)"
  unfolding pending_def by (induction fin arbitrary: i) (auto split: nat.splits)

interpretation detach_run: terminating_system detach_step "detach_inv n" pending "\<lambda>st. pending st = 0" for n
proof unfold_locales
  fix st i t
  assume "detach_inv n st" and "detach_step i st = Some t"
  then show "detach_inv n t" and "pending t < pending st"
    using pending_run [of i "fst st" "snd t" "snd st"]
    by (auto simp: detach_inv_def detach_step_def split: prod.splits if_splits)
next
  fix st
  assume "stuck detach_step st"
  then have "fin ! i" if "i < length fin" "st = (fin, c)" for i fin c
    using that stuckD [of detach_step st i] by (auto simp: detach_step_def split: if_splits)
  then show "pending st = 0"
    by (cases st) (auto simp: pending_def filter_empty_conv in_set_conv_nth)
qed

lemma detach_expected:
  assumes "spawn_laws S" and "(st, expected) \<in> set (detach_examples S)"
  shows "expected = int (pending st) \<and> snd st = 0 \<and> pending st \<le> 10"
  using assms
  by (auto simp: detach_examples_def spawn_laws_def detach_def pending_def unpredictable_filter_def
      detach_maxCount_less_def detach_maxCount_greater_def detach_maxCount_template_less_def
      detach_maxCount_template_greater_def detach_maxCount_less_uncountable_iter_def
      detach_maxCount_greater_uncountable_iter_def detach_maxCount_template_less_uncountable_iter_def
      detach_maxCount_template_greater_uncountable_iter_def numeral_eq_Suc)

text \<open>
  C22. The eight \<open>detach()\<close> examples of \<open>examples/spawn_iterator.cpp\<close>: however the detached tasks
  are scheduled, the counter reaches the number the example asserts (5, 10 or 9) exactly when all the
  tasks taken from the iterator have run, and exceeds it never; the assertions depend on nothing but
  the sleep being long enough.
\<close>

theorem detach_counts:
  assumes "spawn_laws S" and "(st0, expected) \<in> set (detach_examples S)"
    and "run_steps detach_step ks st0 = Some st"
  shows "length ks \<le> 10 \<and> snd st \<le> expected \<and>
    (assertion (snd st = expected) = Inr () \<longleftrightarrow> stuck detach_step st)"
proof -
  note e = detach_expected [OF assms(1,2)]
  have start: "detach_inv (pending st0) st0" using e by (simp add: detach_inv_def)
  have inv: "detach_inv (pending st0) st" by (rule detach_run.run_inv [OF start assms(3)])
  have "stuck detach_step st" if "pending st = 0"
    using that by (cases st) (auto simp: stuck_def detach_step_def pending_def filter_empty_conv)
  then show ?thesis
    using detach_run.run_bound [OF start assms(3)] detach_run.progress [OF inv] inv e
    by (auto simp: detach_inv_def assertion_def)
qed

theorem detach_counts_witness:
  "\<not> stuck detach_step ([True, False, True, False, False], 2)"
proof -
  have ex: "detach_maxCount_less take_spawn = (detach [0, 1, 2, 3, 4], 5)"
    by (simp add: detach_maxCount_less_def take_spawn_def numeral_eq_Suc)
  have run: "run_steps detach_step [2, 0] (detach [0, 1, 2, 3, 4]) = Some ([True, False, True, False, False], 2)"
    by (simp add: detach_def detach_step_def numeral_eq_Suc)
  show ?thesis
    using detach_counts [OF take_spawn_laws, of _ 5, OF _ run] ex
    by (simp add: detach_examples_def assertion_def)
qed

theorem spawn_iterator_main_passes: "spawn_laws S \<Longrightarrow> spawn_iterator_main S = Inr ()"
  using static_sized_holds [of S 5] filtered_holds [of S 5] exceeding_holds [of S 5]
  by (simp add: spawn_iterator_main_def static_bounded_iterator_def dynamic_bounded_iterator_def)

end
