(* ===== verification/Work_Split.thy ===== *)
theory Work_Split
  imports Prelude
begin

text \<open>
  How the benchmarks divide their elements among the producers: the first \<open>n mod p\<close> of \<open>p\<close> producers
  get one element more than the others. The same loop stands in \<open>chan_bench.cpp\<close>,
  \<open>queue_bench.cpp\<close> and (without the offsets) \<open>exec_st_roundtrip_bench.cpp\<close>.
\<close>

text \<open>The loop over the producers: \<open>k\<close> are left, \<open>i\<close> is the next; a producer gets \<open>(count, base)\<close>.\<close>

fun split_loop :: "nat \<Rightarrow> nat \<Rightarrow> nat \<Rightarrow> nat \<Rightarrow> nat \<Rightarrow> (nat \<times> nat) list" where
  "split_loop per_task rem 0 i base = []"
| "split_loop per_task rem (Suc k) i base =
     (let cnt = if i < rem then per_task + 1 else per_task
      in (cnt, base) # split_loop per_task rem k (i + 1) (base + cnt))"

text \<open>The three programs; a division by zero producers is undefined.\<close>

definition chan_bench_split :: "nat \<Rightarrow> nat \<Rightarrow> (nat \<times> nat) list option" where
  "chan_bench_split NELEMS prodCount =
     (if prodCount = 0 then None
      else Some (split_loop (NELEMS div prodCount) (NELEMS mod prodCount) prodCount 0 0))"

definition queue_bench_split :: "nat \<Rightarrow> nat \<Rightarrow> (nat \<times> nat) list option" where
  "queue_bench_split NELEMS PRODUCER_COUNT =
     (if PRODUCER_COUNT = 0 then None
      else Some (split_loop (NELEMS div PRODUCER_COUNT) (NELEMS mod PRODUCER_COUNT) PRODUCER_COUNT 0 0))"

definition run_bench_split :: "nat \<Rightarrow> nat \<Rightarrow> nat list option" where
  "run_bench_split NELEMS prodCount =
     (if prodCount = 0 then None
      else Some (map (\<lambda>i. if i < NELEMS mod prodCount then NELEMS div prodCount + 1
                         else NELEMS div prodCount) [0..<prodCount]))"

section \<open>The parts partition the elements\<close>

abbreviation part :: "nat \<times> nat \<Rightarrow> nat list" where
  "part \<equiv> (\<lambda>(cnt, base). [base..<base + cnt])"

lemma split_loop_length [simp]: "length (split_loop per_task rem k i base) = k"
  by (induction k arbitrary: i base) (simp_all add: Let_def)

lemma split_loop_total:
  "sum_list (map fst (split_loop per_task rem k i base)) + min i rem = k * per_task + min (i + k) rem"
proof (induction k arbitrary: i base)
  case (Suc k)
  show ?case
    using Suc [of "Suc i" "base + (if i < rem then per_task + 1 else per_task)"]
    by (cases "i < rem") (simp_all add: Let_def min_def split: if_splits)
qed simp

lemma split_loop_parts:
  "concat (map part (split_loop per_task rem k i base)) =
     [base..<base + sum_list (map fst (split_loop per_task rem k i base))]"
proof (induction k arbitrary: i base)
  case (Suc k)
  let ?c = "if i < rem then per_task + 1 else per_task"
  have "[base..<base + ?c] @ [base + ?c..<base + ?c + n] = [base..<base + (?c + n)]" for n
    using upt_add_eq_append [of base "base + ?c" n] by (simp add: add.assoc)
  then show ?case using Suc [of "i + 1" "base + ?c"] by (simp add: Let_def)
qed simp

lemma split_loop_counts:
  "map fst (split_loop per_task rem k i base) =
     map (\<lambda>j. if j < rem then per_task + 1 else per_task) [i..<i + k]"
  by (induction k arbitrary: i base) (simp_all add: Let_def upt_conv_Cons)

lemma split_total:
  "0 < p \<Longrightarrow> sum_list (map fst (split_loop (n div p) (n mod p) p 0 0)) = n"
  using split_loop_total [of "n div p" "n mod p" p 0 0] mod_less_divisor [of p n]
  by (simp add: min_absorb2)

text \<open>
  The contract of the three: any way of splitting that gives these counts. The facts about the
  balance of the parts are proved once.
\<close>

locale balanced_split =
  fixes counts :: "nat \<Rightarrow> nat \<Rightarrow> nat list option"
  assumes undefined_split: "counts n 0 = None"
    and defined_split: "0 < p \<Longrightarrow>
      counts n p = Some (map (\<lambda>i. if i < n mod p then n div p + 1 else n div p) [0..<p])"
begin

lemma split_length: "counts n p = Some cs \<Longrightarrow> length cs = p \<and> 0 < p"
  using undefined_split [of n] defined_split [of p n] by (cases "p = 0") auto

lemma split_sum: "counts n p = Some cs \<Longrightarrow> sum_list cs = n"
  using split_length [of n p cs] defined_split [of p n] split_total [of p n]
    split_loop_counts [of "n div p" "n mod p" p 0 0] by simp

lemma split_balance: "counts n p = Some cs \<Longrightarrow> x \<in> set cs \<Longrightarrow> x = n div p \<or> x = n div p + 1"
  using split_length [of n p cs] defined_split [of p n] by auto

end

interpretation chan_split: balanced_split "\<lambda>n p. map_option (map fst) (chan_bench_split n p)"
  by unfold_locales (simp_all add: chan_bench_split_def split_loop_counts)

interpretation queue_split: balanced_split "\<lambda>n p. map_option (map fst) (queue_bench_split n p)"
  by unfold_locales (simp_all add: queue_bench_split_def split_loop_counts)

interpretation roundtrip_split: balanced_split run_bench_split
  by unfold_locales (simp_all add: run_bench_split_def)

text \<open>
  C19. The producers of \<open>chan_bench.cpp\<close> and \<open>queue_bench.cpp\<close> are given parts of the elements that,
  in their order, are exactly \<open>0, \<dots>, NELEMS - 1\<close>; the parts of all three benchmarks differ by at
  most one in size and add up to \<open>NELEMS\<close>; and only zero producers are undefined.
\<close>

theorem work_split_partition:
  "(chan_bench_split n p = None \<longleftrightarrow> p = 0) \<and> queue_bench_split n p = chan_bench_split n p \<and>
   map_option (concat \<circ> map part) (chan_bench_split n p) = (if p = 0 then None else Some [0..<n]) \<and>
   map_option sum_list (run_bench_split n p) = (if p = 0 then None else Some n) \<and>
   pred_option (list_all (\<lambda>c. c = n div p \<or> c = n div p + 1)) (run_bench_split n p) \<and>
   run_bench_split n p = map_option (map fst) (chan_bench_split n p)"
proof (cases "p = 0")
  case True
  then show ?thesis
    by (simp add: chan_bench_split_def queue_bench_split_def run_bench_split_def)
next
  case False
  then obtain cs where cs: "run_bench_split n p = Some cs" by (auto simp: run_bench_split_def)
  have "concat (map part (split_loop (n div p) (n mod p) p 0 0)) = [0..<n]"
    using split_loop_parts [of "n div p" "n mod p" p 0 0] split_total [of p n] False by simp
  moreover have "run_bench_split n p = map_option (map fst) (chan_bench_split n p)"
    using False by (simp add: run_bench_split_def chan_bench_split_def split_loop_counts)
  moreover have "sum_list cs = n" and "list_all (\<lambda>c. c = n div p \<or> c = n div p + 1) cs"
    using roundtrip_split.split_sum [OF cs] roundtrip_split.split_balance [OF cs]
    by (auto simp: list_all_iff)
  ultimately show ?thesis
    using False cs by (simp add: chan_bench_split_def queue_bench_split_def)
qed

end
