(* ===== verification/Chan_Bench.thy ===== *)
theory Chan_Bench
  imports Tmc Work_Split
begin

text \<open>
  One configuration of \<open>examples/chan_bench.cpp\<close>: producers push the elements of their parts to a
  channel, consumers count and sum what they pull until the channel is closed and empty, and
  \<open>main\<close> closes the channel, drains it and compares the totals. \<open>size_t\<close> is a word of any width.
\<close>

section \<open>The program\<close>

text \<open>A producer is \<open>(i, count, base)\<close>, a consumer whether it has returned, its count and its sum.\<close>

type_synonym producing = "nat \<times> nat \<times> nat"
type_synonym 'a consuming = "bool \<times> 'a \<times> 'a"

datatype bench_pc = AwaitProducers | Draining | AwaitConsumers | Finished_Bench

record ('c, 'a) bench =
  bchan :: "'c"
  bprods :: "producing list"
  bcons :: "'a consuming list"
  bmain :: bench_pc

datatype bench_agent = BMain | BProducer nat | BConsumer nat

text \<open>\<open>producer\<close>: an iteration of its loop; \<open>None\<close> when it has returned.\<close>

definition chan_producer ::
    "('c, 'w::len word) chan_ops \<Rightarrow> producing \<Rightarrow> 'c \<Rightarrow> (producing \<times> 'c) option" where
  "chan_producer C = (\<lambda>(i, cnt, base) c.
     if i < cnt then Some ((i + 1, cnt, base), ch_post C (of_nat (base + i)) c) else None)"

text \<open>\<open>consumer\<close>: one \<open>pull\<close> and what it does with its result.\<close>

definition chan_consumer ::
    "('c, 'w::len word) chan_ops \<Rightarrow> 'w word consuming \<Rightarrow> 'c \<Rightarrow> ('w word consuming \<times> 'c) option" where
  "chan_consumer C = (\<lambda>(returned, cnt, acc) c.
     if returned then None
     else case ch_pull C c of
            (Item data, c') \<Rightarrow> Some ((False, cnt + 1, acc + data), c')
          | (Suspended, _) \<Rightarrow> None
          | (Exhausted, c') \<Rightarrow> Some ((True, cnt, acc), c'))"

text \<open>\<open>main\<close>, from \<open>spawn_many(prod)\<close> to the results of the consumers.\<close>

definition bench_main_step :: "('c, 'a) chan_ops \<Rightarrow> ('c, 'b) bench \<Rightarrow> ('c, 'b) bench option" where
  "bench_main_step C b =
     (case bmain b of
        AwaitProducers \<Rightarrow>
          (if list_all (\<lambda>(i, cnt, base). cnt \<le> i) (bprods b)
           then Some (b\<lparr>bchan := ch_close C (bchan b), bmain := Draining\<rparr>) else None)
      | Draining \<Rightarrow> (if ch_drained C (bchan b) then Some (b\<lparr>bmain := AwaitConsumers\<rparr>) else None)
      | AwaitConsumers \<Rightarrow> (if list_all fst (bcons b) then Some (b\<lparr>bmain := Finished_Bench\<rparr>) else None)
      | Finished_Bench \<Rightarrow> None)"

fun bench_step ::
    "('c, 'w::len word) chan_ops \<Rightarrow> bench_agent \<Rightarrow> ('c, 'w word) bench \<Rightarrow> ('c, 'w word) bench option" where
  "bench_step C BMain b = bench_main_step C b"
| "bench_step C (BProducer k) b =
     (if k < length (bprods b) then
        map_option (\<lambda>(p, c). b\<lparr>bprods := (bprods b)[k := p], bchan := c\<rparr>)
          (chan_producer C (bprods b ! k) (bchan b))
      else None)"
| "bench_step C (BConsumer k) b =
     (if k < length (bcons b) then
        map_option (\<lambda>(r, c). b\<lparr>bcons := (bcons b)[k := r], bchan := c\<rparr>)
          (chan_consumer C (bcons b ! k) (bchan b))
      else None)"

definition bench_init ::
    "('c, 'w::len word) chan_ops \<Rightarrow> nat \<Rightarrow> nat \<Rightarrow> nat \<Rightarrow> ('c, 'w word) bench option" where
  "bench_init C NELEMS prodCount consCount =
     map_option (\<lambda>parts.
       \<lparr>bchan = ch_make C, bprods = map (\<lambda>(cnt, base). (0, cnt, base)) parts,
        bcons = replicate consCount (False, 0, 0), bmain = AwaitProducers\<rparr>)
       (chan_bench_split NELEMS prodCount)"

text \<open>The checks at the end of a configuration: the \<open>FAIL\<close> lines it prints.\<close>

datatype 'a fail = WrongCount 'a | WrongSum 'a 'a

definition total_results :: "'w::len word consuming list \<Rightarrow> 'w word \<times> 'w word" where
  "total_results rs = fold (\<lambda>(_, c, s) (cnt, acc). (cnt + c, acc + s)) rs (0, 0)"

definition expected_sum :: "nat \<Rightarrow> 'w::len word" where
  "expected_sum NELEMS = fold (\<lambda>i acc. acc + of_nat i) [0..<NELEMS] 0"

definition bench_report :: "nat \<Rightarrow> 'w::len word consuming list \<Rightarrow> 'w word fail list" where
  "bench_report NELEMS rs =
     (let (cnt, acc) = total_results rs in
      (if cnt \<noteq> of_nat NELEMS then [WrongCount cnt] else []) @
      (if acc \<noteq> expected_sum NELEMS then [WrongSum (expected_sum NELEMS) acc] else []))"

section \<open>The invariant\<close>

definition to_come :: "producing \<Rightarrow> nat list" where
  "to_come = (\<lambda>(i, cnt, base). [base + i..<base + cnt])"

definition bench_closing :: "('c \<Rightarrow> 'a multiset) \<Rightarrow> ('c \<Rightarrow> bool) \<Rightarrow> ('c, 'b) bench \<Rightarrow> bool" where
  "bench_closing items closed b \<longleftrightarrow>
     (closed (bchan b) \<longleftrightarrow> bmain b \<noteq> AwaitProducers) \<and>
     (bmain b \<noteq> AwaitProducers \<longrightarrow> (\<forall>p\<in>set (bprods b). to_come p = [])) \<and>
     (\<forall>c\<in>set (bcons b). fst c \<longrightarrow> closed (bchan b) \<and> items (bchan b) = {#}) \<and>
     (bmain b = Finished_Bench \<longrightarrow> (\<forall>c\<in>set (bcons b). fst c))"

definition bench_count :: "('c \<Rightarrow> 'w::len word multiset) \<Rightarrow> nat \<Rightarrow> ('c, 'w word) bench \<Rightarrow> bool" where
  "bench_count items n b \<longleftrightarrow>
     sum_list (map (\<lambda>(_, c, _). c) (bcons b)) + of_nat (size (items (bchan b))) +
     sum_list (map (\<lambda>p. of_nat (length (to_come p))) (bprods b)) = of_nat n"

definition bench_sum :: "('c \<Rightarrow> 'w::len word multiset) \<Rightarrow> nat \<Rightarrow> ('c, 'w word) bench \<Rightarrow> bool" where
  "bench_sum items n b \<longleftrightarrow>
     sum_list (map (\<lambda>(_, _, s). s) (bcons b)) + sum_mset (items (bchan b)) +
     sum_list (map (\<lambda>p. sum_list (map of_nat (to_come p))) (bprods b)) = expected_sum n"

definition bench_inv ::
    "('c, 'w::len word) chan_ops \<Rightarrow> ('c \<Rightarrow> 'w word multiset) \<Rightarrow> ('c \<Rightarrow> bool) \<Rightarrow> nat \<Rightarrow>
     ('c, 'w word) bench \<Rightarrow> bool" where
  "bench_inv C items closed n b \<longleftrightarrow>
     chan_laws C items closed \<and> bcons b \<noteq> [] \<and> bench_closing items closed b \<and>
     bench_count items n b \<and> bench_sum items n b"

definition bench_work :: "('c \<Rightarrow> 'a multiset) \<Rightarrow> ('c, 'b) bench \<Rightarrow> nat" where
  "bench_work items b =
     sum_list (map (\<lambda>p. 2 * length (to_come p)) (bprods b)) + size (items (bchan b)) +
     sum_list (map (\<lambda>c. of_bool (\<not> fst c)) (bcons b)) +
     (case bmain b of AwaitProducers \<Rightarrow> 3 | Draining \<Rightarrow> 2 | AwaitConsumers \<Rightarrow> 1 | Finished_Bench \<Rightarrow> 0)"

lemma expected_sum_list: "expected_sum n = sum_list (map of_nat [0..<n])"
  unfolding expected_sum_def by (induction n) (simp_all add: ac_simps)

lemma total_results_sums:
  fixes rs :: "'w::len word consuming list"
  shows "total_results rs = (sum_list (map (\<lambda>(_, c, _). c) rs), sum_list (map (\<lambda>(_, _, s). s) rs))"
proof -
  have "fold (\<lambda>(_, c, s) (cnt, acc). (cnt + c, acc + s)) rs (a, b) =
      (a + sum_list (map (\<lambda>(_, c, _). c) rs), b + sum_list (map (\<lambda>(_, _, s). s) rs))" for a b
    by (induction rs arbitrary: a b) (auto simp: ac_simps)
  then show ?thesis by (simp add: total_results_def)
qed

lemma to_come_step: "i < cnt \<Longrightarrow> to_come (i, cnt, base) = (base + i) # to_come (i + 1, cnt, base)"
  by (simp add: to_come_def upt_conv_Cons)

lemma to_come_Nil: "to_come (i, cnt, base) = [] \<longleftrightarrow> cnt \<le> i"
  by (auto simp: to_come_def)

section \<open>Every step keeps it\<close>

lemma sum_exchange_word:
  fixes f :: "'a \<Rightarrow> 'w::len word"
  assumes "k < length xs"
  shows "sum_list (map f (xs[k := y])) = sum_list (map f xs) - f (xs ! k) + f y"
  using sum_map_exchange [OF assms, of f y] by (simp add: algebra_simps eq_diff_eq)

lemma main_keeps:
  assumes "bench_inv C items closed n b" and "bench_main_step C b = Some b'"
  shows "bench_inv C items closed n b' \<and> bench_work items b' < bench_work items b"
proof -
  have C: "chan_laws C items closed" using assms(1) by (simp add: bench_inv_def)
  have p: "to_come p = []" if "p \<in> set (bprods b)" "list_all (\<lambda>(i, cnt, base). cnt \<le> i) (bprods b)" for p
    using that by (cases p) (auto simp: list_all_iff to_come_Nil)
  show ?thesis
    using assms p
    by (auto simp: bench_main_step_def bench_inv_def bench_closing_def bench_count_def bench_sum_def
        bench_work_def chan_close [OF C] list_all_iff split: bench_pc.splits if_splits)
qed

lemma producer_keeps_bench:
  assumes inv: "bench_inv C items closed n b" and step: "bench_step C (BProducer k) b = Some b'"
  shows "bench_inv C items closed n b' \<and> bench_work items b' < bench_work items b"
proof -
  have C: "chan_laws C items closed" using inv by (simp add: bench_inv_def)
  obtain i cnt base where k: "k < length (bprods b)" and p: "bprods b ! k = (i, cnt, base)" and i: "i < cnt"
    and b': "b' = b\<lparr>bprods := (bprods b)[k := (i + 1, cnt, base)],
      bchan := ch_post C (of_nat (base + i)) (bchan b)\<rparr>"
    using step by (auto simp: chan_producer_def split: if_splits prod.splits)
  have come: "to_come (bprods b ! k) = (base + i) # to_come (i + 1, cnt, base)"
    using to_come_step [OF i] p by simp
  have "bprods b ! k \<in> set (bprods b)" using k by simp
  then have pc: "bmain b = AwaitProducers" and opn: "\<not> closed (bchan b)"
    using inv come by (auto simp: bench_inv_def bench_closing_def)
  note post = chan_post [OF C opn]
  have nocons: "\<not> fst c" if "c \<in> set (bcons b)" for c
    using inv that opn by (auto simp: bench_inv_def bench_closing_def)
  have "bench_closing items closed b'"
    using pc post nocons by (auto simp: bench_closing_def b')
  moreover have "bench_count items n b'" "bench_sum items n b'"
    using inv
    by (simp_all add: bench_inv_def bench_count_def bench_sum_def b' post sum_exchange_word [OF k] come algebra_simps)
  moreover have "bench_work items b' < bench_work items b"
    using sum_map_update [OF k, of "\<lambda>p. 2 * length (to_come p)" "(i + 1, cnt, base)"] come
    by (simp add: bench_work_def b' post)
  ultimately show ?thesis
    using inv by (simp add: bench_inv_def b')
qed

lemma consumer_keeps_bench:
  assumes inv: "bench_inv C items closed n b" and step: "bench_step C (BConsumer k) b = Some b'"
  shows "bench_inv C items closed n b' \<and> bench_work items b' < bench_work items b"
proof -
  have C: "chan_laws C items closed" using inv by (simp add: bench_inv_def)
  obtain cnt acc r c where k: "k < length (bcons b)" and b: "bcons b ! k = (False, cnt, acc)"
    and w: "chan_consumer C (False, cnt, acc) (bchan b) = Some (r, c)"
    and b': "b' = b\<lparr>bcons := (bcons b)[k := r], bchan := c\<rparr>"
  proof -
    obtain f cnt acc where "bcons b ! k = (f, cnt, acc)" by (cases "bcons b ! k")
    then show thesis
      using step that by (auto simp: chan_consumer_def split: if_splits)
  qed
  have old: "(False, cnt, acc) \<in> set (bcons b)" using k b by (metis nth_mem)
  then have unfinished: "bmain b \<noteq> Finished_Bench"
    using inv by (auto simp: bench_inv_def bench_closing_def)
  have ne: "bcons b' \<noteq> []" using inv by (auto simp: bench_inv_def b')
  consider (item) x where "ch_pull C (bchan b) = (Item x, c)" "r = (False, cnt + 1, acc + x)"
    | (exhausted) "ch_pull C (bchan b) = (Exhausted, c)" "r = (True, cnt, acc)"
    using w by (auto simp: chan_consumer_def split: prod.splits pulled.splits)
  then show ?thesis
  proof cases
    case item
    note law = chan_pull_Item [OF C item(1)]
    have "\<not> fst d" if "d \<in> set (bcons b)" for d
      using inv that law by (auto simp: bench_inv_def bench_closing_def)
    then have "bench_closing items closed b'"
      using inv law unfinished
      by (auto simp: bench_inv_def bench_closing_def b' item(2) dest!: set_update_le)
    moreover have "bench_count items n b'" "bench_sum items n b'"
      using inv
      by (simp_all add: bench_inv_def bench_count_def bench_sum_def b' item(2) sum_exchange_word [OF k] b law
          algebra_simps)
    moreover have "bench_work items b' < bench_work items b"
      using sum_map_update [OF k, of "\<lambda>c. of_bool (\<not> fst c)" r] b law
      by (simp add: bench_work_def b' item(2))
    ultimately show ?thesis using inv ne by (simp add: bench_inv_def)
  next
    case exhausted
    note law = chan_pull_Exhausted [OF C exhausted(1)]
    have "bench_closing items closed b'"
      using inv law unfinished
      by (auto simp: bench_inv_def bench_closing_def b' exhausted(2) dest!: set_update_le)
    moreover have "bench_count items n b'" "bench_sum items n b'"
      using inv
      by (simp_all add: bench_inv_def bench_count_def bench_sum_def b' exhausted(2) sum_exchange_word [OF k] b law
          algebra_simps)
    moreover have "bench_work items b' < bench_work items b"
      using sum_map_update [OF k, of "\<lambda>c. of_bool (\<not> fst c)" r] b law
      by (simp add: bench_work_def b' exhausted(2))
    ultimately show ?thesis using inv ne by (simp add: bench_inv_def)
  qed
qed

lemma bench_keeps:
  assumes "bench_inv C items closed n b" and "bench_step C a b = Some b'"
  shows "bench_inv C items closed n b' \<and> bench_work items b' < bench_work items b"
proof (cases a)
  case BMain
  then show ?thesis using assms(2) main_keeps [OF assms(1)] by simp
next
  case (BProducer k)
  then show ?thesis using assms(2) producer_keeps_bench [OF assms(1)] by blast
next
  case (BConsumer k)
  then show ?thesis using assms(2) consumer_keeps_bench [OF assms(1)] by blast
qed

section \<open>Nothing can run: the configuration has finished\<close>

lemma bench_progress:
  assumes inv: "bench_inv C items closed n b" and stuck: "stuck (bench_step C) b"
  shows "bmain b = Finished_Bench"
proof -
  have C: "chan_laws C items closed" using inv by (simp add: bench_inv_def)
  have "cnt \<le> i" if "k < length (bprods b)" "bprods b ! k = (i, cnt, base)" for k i cnt base
    using stuckD [OF stuck, of "BProducer k"] that by (auto simp: chan_producer_def split: if_splits)
  then have prods: "list_all (\<lambda>(i, cnt, base). cnt \<le> i) (bprods b)"
    by (auto simp: list_all_length)
  have main: "bench_main_step C b = None" using stuckD [OF stuck, of BMain] by simp
  then have pc: "bmain b \<noteq> AwaitProducers"
    using prods by (auto simp: bench_main_step_def)
  then have cl: "closed (bchan b)" using inv by (simp add: bench_inv_def bench_closing_def)
  have ret: "fst (bcons b ! k)" if "k < length (bcons b)" for k
    using stuckD [OF stuck, of "BConsumer k"] that cl
    by (auto simp: chan_consumer_def split: if_splits prod.splits pulled.splits
        dest!: chan_pull_Suspended [OF C])
  then have all: "list_all fst (bcons b)" by (simp add: list_all_length)
  moreover have "bcons b \<noteq> []" using inv by (simp add: bench_inv_def)
  ultimately have "items (bchan b) = {#}"
    using inv by (cases "bcons b") (auto simp: bench_inv_def bench_closing_def)
  then have "ch_drained C (bchan b)" using chan_drained [OF C cl] by simp
  then show ?thesis
    using main pc all by (auto simp: bench_main_step_def split: bench_pc.splits if_splits)
qed

interpretation bench_run: terminating_system "bench_step C" "bench_inv C items closed n"
    "bench_work items" "\<lambda>b. bmain b = Finished_Bench"
  for C items closed n
  by unfold_locales (use bench_keeps bench_progress in blast)+

lemma total_lengths: "sum_list (map (\<lambda>p. 2 * length (f p)) ps) = 2 * length (concat (map f ps))"
  by (induction ps) simp_all

lemma total_of_nat:
  "sum_list (map (\<lambda>p. of_nat (length (f p)) :: 'w::len word) ps) = of_nat (length (concat (map f ps)))"
  by (induction ps) simp_all

lemma total_values:
  "sum_list (map (\<lambda>p. sum_list (map g (f p)) :: 'w::len word) ps) = sum_list (map g (concat (map f ps)))"
  by (induction ps) simp_all

lemma init_bench_inv:
  assumes C: "chan_laws C items closed" and init: "bench_init C n prodCount consCount = Some b"
    and cons: "0 < consCount"
  shows "bench_inv C items closed n b \<and> bench_work items b = 2 * n + consCount + 3"
proof -
  obtain parts where parts: "chan_bench_split n prodCount = Some parts"
    and b: "b = \<lparr>bchan = ch_make C, bprods = map (\<lambda>(cnt, base). (0, cnt, base)) parts,
        bcons = replicate consCount (False, 0, 0), bmain = AwaitProducers\<rparr>"
    using init by (auto simp: bench_init_def)
  have come: "map to_come (bprods b) = map part parts"
    by (auto simp: b to_come_def)
  have "concat (map part parts) = [0..<n]"
    using parts split_loop_parts [of "n div prodCount" "n mod prodCount" prodCount 0 0]
      split_total [of prodCount n] by (auto simp: chan_bench_split_def split: if_splits)
  then have all: "concat (map to_come (bprods b)) = [0..<n]" using come by simp
  note totals = total_lengths [of to_come "bprods b"] total_of_nat [of to_come "bprods b"]
    total_values [of of_nat to_come "bprods b"]
  have "sum_list (map (\<lambda>p. 2 * length (to_come p)) (bprods b)) = 2 * n"
    and "sum_list (map (\<lambda>p. of_nat (length (to_come p)) :: 'b word) (bprods b)) = of_nat n"
    and "sum_list (map (\<lambda>p. sum_list (map of_nat (to_come p)) :: 'b word) (bprods b)) = expected_sum n"
    unfolding totals all by (simp_all add: expected_sum_list)
  moreover have "sum_list (map (\<lambda>(_, c, _). c) (bcons b)) = 0" "sum_list (map (\<lambda>(_, _, s). s) (bcons b)) = 0"
    "sum_list (map (\<lambda>c. of_bool (\<not> fst c)) (bcons b)) = consCount"
    by (simp_all add: b sum_list_replicate)
  moreover have "bench_closing items closed b"
    using chan_make [OF C] by (auto simp: bench_closing_def b)
  moreover have "bcons b \<noteq> []" "bmain b = AwaitProducers" "items (bchan b) = {#}"
    using cons chan_make [OF C] by (auto simp: b)
  ultimately show ?thesis
    using C by (simp add: bench_inv_def bench_count_def bench_sum_def bench_work_def)
qed

text \<open>Whenever a producer has an element to push, the channel is open.\<close>

lemma producer_finds_open:
  assumes "chan_laws C items closed" and "bench_init C n prodCount consCount = Some b0" and "0 < consCount"
    and "run_steps (bench_step C) ks b0 = Some b" and "k < length (bprods b)"
    and "chan_producer C (bprods b ! k) (bchan b) = Some (p, c)"
  shows "\<not> closed (bchan b)"
proof -
  have inv: "bench_inv C items closed n b"
    using bench_run.run_inv [OF conjunct1 [OF init_bench_inv [OF assms(1-3)]] assms(4)] .
  obtain i cnt base where "bprods b ! k = (i, cnt, base)" "i < cnt"
    using assms(6) by (cases "bprods b ! k") (auto simp: chan_producer_def split: if_splits)
  then have "to_come (bprods b ! k) \<noteq> []" by (simp add: to_come_Nil)
  moreover have "bprods b ! k \<in> set (bprods b)" using assms(5) by simp
  ultimately show ?thesis using inv by (auto simp: bench_inv_def bench_closing_def)
qed

text \<open>
  C16. \<open>examples/chan_bench.cpp\<close> never prints \<open>FAIL\<close>: for any number of elements, any positive
  numbers of producers and consumers and any scheduling, a configuration takes at most
  \<open>2 NELEMS + consCount + 3\<close> steps, and when nothing can run any more \<open>main\<close> has come past the
  drain and the consumers, and the total count and the (wrapping) total sum are the expected ones.
  The \<open>assert(ok)\<close> of the producers holds: a channel that a producer still pushes to is open.
\<close>

theorem chan_bench_never_fails:
  assumes "chan_laws C items closed" and "bench_init C n prodCount consCount = Some b0" and "0 < consCount"
    and "run_steps (bench_step C) ks b0 = Some b"
  shows "length ks \<le> 2 * n + consCount + 3 \<and>
    (stuck (bench_step C) b \<longrightarrow> bmain b = Finished_Bench \<and> bench_report n (bcons b) = []) \<and>
    (\<forall>k p c. k < length (bprods b) \<and> chan_producer C (bprods b ! k) (bchan b) = Some (p, c) \<longrightarrow>
       \<not> closed (bchan b))"
proof -
  note start = init_bench_inv [OF assms(1-3)]
  have inv: "bench_inv C items closed n b"
    using bench_run.run_inv [OF conjunct1 [OF start] assms(4)] .
  have "bench_report n (bcons b) = []" if stuck: "stuck (bench_step C) b"
  proof -
    have fin: "bmain b = Finished_Bench" using bench_progress [OF inv stuck] .
    then have "\<forall>c\<in>set (bcons b). fst c" "\<forall>p\<in>set (bprods b). to_come p = []" "bcons b \<noteq> []"
      using inv by (auto simp: bench_inv_def bench_closing_def)
    moreover from this have "items (bchan b) = {#}"
      using inv by (cases "bcons b") (auto simp: bench_inv_def bench_closing_def)
    moreover have "sum_list (map (\<lambda>p. of_nat (length (to_come p)) :: 'b word) (bprods b)) = 0"
      "sum_list (map (\<lambda>p. sum_list (map of_nat (to_come p)) :: 'b word) (bprods b)) = 0"
      using calculation(2) by (simp_all cong: map_cong)
    ultimately show ?thesis
      using inv by (simp add: bench_inv_def bench_count_def bench_sum_def bench_report_def total_results_sums)
  qed
  then show ?thesis
    using bench_run.run_bound [OF conjunct1 [OF start] assms(4)] start bench_progress [OF inv]
      producer_finds_open [OF assms] by auto
qed

definition bench_schedule :: "bench_agent list" where
  "bench_schedule = [BProducer 0, BProducer 1, BConsumer 0, BProducer 0, BMain, BConsumer 0, BConsumer 0,
     BMain, BConsumer 0, BMain]"

definition bench_start :: "(64 word list \<times> bool, 64 word) bench" where
  "bench_start = \<lparr>bchan = ([], False), bprods = [(0, 2, 0), (0, 1, 2)], bcons = [(False, 0, 0)],
     bmain = AwaitProducers\<rparr>"

definition bench_end :: "(64 word list \<times> bool, 64 word) bench" where
  "bench_end = \<lparr>bchan = ([], True), bprods = [(2, 2, 0), (1, 1, 2)], bcons = [(True, 3, 3)],
     bmain = Finished_Bench\<rparr>"

lemma bench_start_init: "bench_init list_chan 3 2 1 = Some bench_start"
proof -
  have "(3 :: nat) div 2 = 1" "(3 :: nat) mod 2 = 1" by simp_all
  then have "split_loop (3 div 2) (3 mod 2) 2 0 0 = [(2, 0), (1, 2)]"
    by (simp only:) (simp add: numeral_2_eq_2 Let_def)
  then show ?thesis
    by (simp only: bench_init_def chan_bench_split_def) (simp add: bench_start_def list_chan_def)
qed

lemma bench_example_run: "run_steps (bench_step list_chan) bench_schedule bench_start = Some bench_end"
  by (simp add: bench_schedule_def bench_start_def bench_end_def bench_main_step_def chan_producer_def
      chan_consumer_def list_chan_def)

lemma bench_end_stuck: "stuck (bench_step list_chan) bench_end"
  unfolding stuck_def
proof
  fix a
  show "bench_step list_chan a bench_end = None"
    by (cases a) (auto simp: bench_end_def bench_main_step_def chan_producer_def chan_consumer_def nth_Cons'
        less_Suc_eq)
qed

theorem chan_bench_never_fails_witness:
  "length bench_schedule \<le> 2 * 3 + 1 + 3 \<and> bench_report 3 (bcons bench_end) = []"
  using chan_bench_never_fails [OF list_chan_laws bench_start_init _ bench_example_run] bench_end_stuck
  by simp

end
