(* ===== verification/Queue_Bench.thy ===== *)
theory Queue_Bench
  imports Chan_Bench
begin

text \<open>
  \<open>examples/queue_bench.cpp\<close>: producers post their parts to an unbounded single-consumer queue that
  is never closed, and the consumer pulls until it has counted all the elements. The queue is the
  library's; of its interface the program uses what \<open>chan_ops\<close> has.
\<close>

section \<open>The program\<close>

datatype queue_pc = QAwaitProducers | QAwaitConsumer | QFinished

record ('c, 'a) qbench =
  qqueue :: "'c"
  qprods :: "producing list"
  qcons :: "'a \<times> 'a"              \<comment> \<open>\<open>count\<close> and \<open>sum\<close> of the consumer\<close>
  qmain :: queue_pc

datatype queue_agent = QMain | QProducer nat | QConsumer

definition queue_producer ::
    "('c, 'w::len word) chan_ops \<Rightarrow> producing \<Rightarrow> 'c \<Rightarrow> (producing \<times> 'c) option" where
  "queue_producer C = (\<lambda>(i, cnt, base) c.
     if i < cnt then Some ((i + 1, cnt, base), ch_post C (of_nat (base + i)) c) else None)"

text \<open>\<open>consumer\<close>: \<open>None\<close> when it is suspended or has returned; \<open>*data\<close> of an empty result is undefined.\<close>

definition queue_consumer ::
    "('c, 'w::len word) chan_ops \<Rightarrow> 'w word \<Rightarrow> 'w word \<times> 'w word \<Rightarrow> 'c \<Rightarrow>
     (('w word \<times> 'w word) \<times> 'c) option" where
  "queue_consumer C expected_count = (\<lambda>(cnt, acc) c.
     if cnt < expected_count then
       (case ch_pull C c of (Item data, c') \<Rightarrow> Some ((cnt + 1, acc + data), c') | _ \<Rightarrow> None)
     else None)"

text \<open>\<open>consumer_try_pull\<close>: it does not suspend but reschedules itself, so a step may change nothing.\<close>

definition consumer_try_pull ::
    "('c, 'w::len word) chan_ops \<Rightarrow> 'w word \<Rightarrow> 'w word \<times> 'w word \<Rightarrow> 'c \<Rightarrow>
     (('w word \<times> 'w word) \<times> 'c) option" where
  "consumer_try_pull C expected_count = (\<lambda>(cnt, acc) c.
     if cnt < expected_count then
       (case ch_pull C c of (Item data, c') \<Rightarrow> Some ((cnt + 1, acc + data), c')
        | _ \<Rightarrow> Some ((cnt, acc), c))
     else None)"

definition queue_main_step ::
    "nat \<Rightarrow> ('c, 'w::len word) qbench \<Rightarrow> ('c, 'w word) qbench option" where
  "queue_main_step NELEMS b =
     (case qmain b of
        QAwaitProducers \<Rightarrow>
          (if list_all (\<lambda>(i, cnt, base). cnt \<le> i) (qprods b)
           then Some (b\<lparr>qmain := QAwaitConsumer\<rparr>) else None)
      | QAwaitConsumer \<Rightarrow>
          (if \<not> fst (qcons b) < of_nat NELEMS then Some (b\<lparr>qmain := QFinished\<rparr>) else None)
      | QFinished \<Rightarrow> None)"

fun queue_step ::
    "('c, 'w::len word) chan_ops \<Rightarrow> nat \<Rightarrow> queue_agent \<Rightarrow> ('c, 'w word) qbench \<Rightarrow>
     ('c, 'w word) qbench option" where
  "queue_step C NELEMS QMain b = queue_main_step NELEMS b"
| "queue_step C NELEMS (QProducer k) b =
     (if k < length (qprods b) then
        map_option (\<lambda>(p, c). b\<lparr>qprods := (qprods b)[k := p], qqueue := c\<rparr>)
          (queue_producer C (qprods b ! k) (qqueue b))
      else None)"
| "queue_step C NELEMS QConsumer b =
     map_option (\<lambda>(r, c). b\<lparr>qcons := r, qqueue := c\<rparr>)
       (queue_consumer C (of_nat NELEMS) (qcons b) (qqueue b))"

definition queue_init ::
    "('c, 'w::len word) chan_ops \<Rightarrow> nat \<Rightarrow> nat \<Rightarrow> ('c, 'w word) qbench option" where
  "queue_init C NELEMS PRODUCER_COUNT =
     map_option (\<lambda>parts.
       \<lparr>qqueue = ch_make C, qprods = map (\<lambda>(cnt, base). (0, cnt, base)) parts, qcons = (0, 0),
        qmain = QAwaitProducers\<rparr>)
       (queue_bench_split NELEMS PRODUCER_COUNT)"

text \<open>The checks at the end, over the results of the \<open>CONSUMER_COUNT = 1\<close> consumers.\<close>

definition queue_report :: "nat \<Rightarrow> ('w::len word \<times> 'w word) list \<Rightarrow> 'w word fail list" where
  "queue_report NELEMS consResults =
     (let (cnt, acc) = fold (\<lambda>(c, s) (cnt, acc). (cnt + c, acc + s)) consResults (0, 0) in
      (if cnt \<noteq> of_nat NELEMS then [WrongCount cnt] else []) @
      (if acc \<noteq> expected_sum NELEMS then [WrongSum (expected_sum NELEMS) acc] else []))"

definition maxProducerDuration :: "nat list \<Rightarrow> nat" where
  "maxProducerDuration durations = fold (\<lambda>d m. if m < d then d else m) durations 0"

section \<open>The invariant\<close>

definition queue_inv ::
    "('c, 'w::len word) chan_ops \<Rightarrow> ('c \<Rightarrow> 'w word multiset) \<Rightarrow> ('c \<Rightarrow> bool) \<Rightarrow> nat \<Rightarrow>
     ('c, 'w word) qbench \<Rightarrow> bool" where
  "queue_inv C items closed n b \<longleftrightarrow>
     chan_laws C items closed \<and> n < 2 ^ LENGTH('w) \<and> \<not> closed (qqueue b) \<and>
     (qmain b \<noteq> QAwaitProducers \<longrightarrow> (\<forall>p\<in>set (qprods b). to_come p = [])) \<and>
     (qmain b = QFinished \<longrightarrow> unat (fst (qcons b)) = n) \<and>
     unat (fst (qcons b)) + size (items (qqueue b)) +
       sum_list (map (\<lambda>p. length (to_come p)) (qprods b)) = n \<and>
     snd (qcons b) + sum_mset (items (qqueue b)) +
       sum_list (map (\<lambda>p. sum_list (map of_nat (to_come p))) (qprods b)) = expected_sum n"

definition queue_work :: "('c \<Rightarrow> 'a multiset) \<Rightarrow> ('c, 'b) qbench \<Rightarrow> nat" where
  "queue_work items b =
     2 * sum_list (map (\<lambda>p. length (to_come p)) (qprods b)) + size (items (qqueue b)) +
     (case qmain b of QAwaitProducers \<Rightarrow> 2 | QAwaitConsumer \<Rightarrow> 1 | QFinished \<Rightarrow> 0)"

lemma queue_main_keeps:
  assumes inv: "queue_inv C items closed n b" and step: "queue_main_step n b = Some b'"
  shows "queue_inv C items closed n b' \<and> queue_work items b' < queue_work items b"
proof (cases "qmain b")
  case QAwaitProducers
  then have fin: "list_all (\<lambda>(i, cnt, base). cnt \<le> i) (qprods b)" and b': "b' = b\<lparr>qmain := QAwaitConsumer\<rparr>"
    using step by (auto simp: queue_main_step_def split: if_splits)
  have "to_come p = []" if "p \<in> set (qprods b)" for p
    using fin that by (cases p) (auto simp: list_all_iff to_come_Nil)
  then show ?thesis using inv QAwaitProducers by (auto simp: queue_inv_def queue_work_def b')
next
  case QAwaitConsumer
  then have fin: "\<not> fst (qcons b) < of_nat n" and b': "b' = b\<lparr>qmain := QFinished\<rparr>"
    using step by (auto simp: queue_main_step_def split: if_splits)
  have "unat (of_nat n :: 'b word) = n"
    using inv by (simp add: queue_inv_def take_bit_nat_eq_self unsigned_of_nat)
  then have "n \<le> unat (fst (qcons b))" using fin by (simp add: word_less_nat_alt)
  then show ?thesis using inv QAwaitConsumer by (auto simp: queue_inv_def queue_work_def b')
next
  case QFinished
  then show ?thesis using step by (simp add: queue_main_step_def)
qed

lemma queue_producer_keeps:
  assumes inv: "queue_inv C items closed n b" and step: "queue_step C n (QProducer k) b = Some b'"
  shows "queue_inv C items closed n b' \<and> queue_work items b' < queue_work items b"
proof -
  have C: "chan_laws C items closed" and opn: "\<not> closed (qqueue b)"
    using inv by (simp_all add: queue_inv_def)
  obtain i cnt base where k: "k < length (qprods b)" and p: "qprods b ! k = (i, cnt, base)" and i: "i < cnt"
    and b': "b' = b\<lparr>qprods := (qprods b)[k := (i + 1, cnt, base)],
      qqueue := ch_post C (of_nat (base + i)) (qqueue b)\<rparr>"
    using step by (auto simp: queue_producer_def split: if_splits prod.splits)
  have come: "to_come (qprods b ! k) = (base + i) # to_come (i + 1, cnt, base)"
    using to_come_step [OF i] p by simp
  have "qprods b ! k \<in> set (qprods b)" using k by simp
  then have pc: "qmain b = QAwaitProducers"
    using inv come by (auto simp: queue_inv_def)
  note post = chan_post [OF C opn]
  have len: "sum_list (map (\<lambda>p. length (to_come p)) (qprods b)) =
      Suc (sum_list (map (\<lambda>p. length (to_come p)) (qprods b')))"
    using sum_map_update [OF k, of "\<lambda>p. length (to_come p)" "(i + 1, cnt, base)"] come by (simp add: b')
  have "snd (qcons b') + sum_mset (items (qqueue b')) +
      sum_list (map (\<lambda>p. sum_list (map of_nat (to_come p))) (qprods b')) = expected_sum n"
    using inv by (simp add: queue_inv_def b' post sum_exchange_word [OF k] come algebra_simps)
  then show ?thesis
    using inv len pc by (simp add: queue_inv_def queue_work_def b' post)
qed

lemma queue_consumer_keeps:
  assumes inv: "queue_inv C items closed n b" and step: "queue_step C n QConsumer b = Some b'"
  shows "queue_inv C items closed n b' \<and> queue_work items b' < queue_work items b"
proof -
  have C: "chan_laws C items closed" using inv by (simp add: queue_inv_def)
  obtain cnt acc x c where q: "qcons b = (cnt, acc)" and lt: "cnt < of_nat n"
    and pull: "ch_pull C (qqueue b) = (Item x, c)" and b': "b' = b\<lparr>qcons := (cnt + 1, acc + x), qqueue := c\<rparr>"
    using step by (auto simp: queue_consumer_def split: if_splits prod.splits pulled.splits)
  note law = chan_pull_Item [OF C pull]
  have "unat cnt + 1 < 2 ^ LENGTH('b)"
    using inv law q by (auto simp: queue_inv_def)
  then have "unat (cnt + 1) = unat cnt + 1"
    using unat_add_lem [of cnt 1] by simp
  moreover have "qmain b \<noteq> QFinished"
    using inv law q by (auto simp: queue_inv_def)
  ultimately show ?thesis
    using inv law q by (simp add: queue_inv_def queue_work_def b' algebra_simps)
qed

lemma queue_keeps:
  assumes "queue_inv C items closed n b" and "queue_step C n a b = Some b'"
  shows "queue_inv C items closed n b' \<and> queue_work items b' < queue_work items b"
proof (cases a)
  case QMain
  then show ?thesis using assms(2) queue_main_keeps [OF assms(1)] by simp
next
  case (QProducer k)
  then show ?thesis using assms(2) queue_producer_keeps [OF assms(1)] by blast
next
  case QConsumer
  then show ?thesis using assms(2) queue_consumer_keeps [OF assms(1)] by blast
qed

lemma queue_progress:
  assumes inv: "queue_inv C items closed n b" and stuck: "stuck (queue_step C n) b"
  shows "qmain b = QFinished"
proof -
  have C: "chan_laws C items closed" and opn: "\<not> closed (qqueue b)"
    using inv by (simp_all add: queue_inv_def)
  have "cnt \<le> i" if "k < length (qprods b)" "qprods b ! k = (i, cnt, base)" for k i cnt base
    using stuckD [OF stuck, of "QProducer k"] that by (auto simp: queue_producer_def split: if_splits)
  then have prods: "list_all (\<lambda>(i, cnt, base). cnt \<le> i) (qprods b)"
    by (auto simp: list_all_length)
  have main: "queue_main_step n b = None" using stuckD [OF stuck, of QMain] by simp
  then have pc: "qmain b \<noteq> QAwaitProducers"
    using prods by (auto simp: queue_main_step_def)
  then have none: "\<forall>p\<in>set (qprods b). to_come p = []" using inv by (simp add: queue_inv_def)
  have "\<not> fst (qcons b) < of_nat n"
  proof
    assume less: "fst (qcons b) < of_nat n"
    have n: "unat (of_nat n :: 'b word) = n"
      using inv by (simp add: queue_inv_def take_bit_nat_eq_self unsigned_of_nat)
    have "sum_list (map (\<lambda>p. length (to_come p)) (qprods b)) = 0"
      using none by (simp cong: map_cong)
    moreover have "unat (fst (qcons b)) + size (items (qqueue b)) +
        sum_list (map (\<lambda>p. length (to_come p)) (qprods b)) = n"
      using inv by (simp only: queue_inv_def)
    moreover have "unat (fst (qcons b)) < n" using less n by (simp add: word_less_nat_alt)
    ultimately have "0 < size (items (qqueue b))" by linarith
    then have "items (qqueue b) \<noteq> {#}" by auto
    then show False
      using stuckD [OF stuck, of QConsumer] less opn
      by (cases "qcons b") (auto simp: queue_consumer_def split: prod.splits pulled.splits
          dest!: chan_pull_Suspended [OF C] chan_pull_Exhausted [OF C])
  qed
  then show ?thesis
    using main pc by (auto simp: queue_main_step_def split: queue_pc.splits)
qed

interpretation queue_run: terminating_system "queue_step C n" "queue_inv C items closed n"
    "queue_work items" "\<lambda>b. qmain b = QFinished"
  for C items closed n
  by unfold_locales (use queue_keeps queue_progress in blast)+

lemma init_queue_inv:
  assumes C: "chan_laws C items closed" and n: "n < 2 ^ LENGTH('w::len)"
    and init: "queue_init C n prodCount = Some (b :: ('c, 'w word) qbench)"
  shows "queue_inv C items closed n b \<and> queue_work items b = 2 * n + 2"
proof -
  obtain parts where parts: "chan_bench_split n prodCount = Some parts"
    and b: "b = \<lparr>qqueue = ch_make C, qprods = map (\<lambda>(cnt, base). (0, cnt, base)) parts, qcons = (0, 0),
        qmain = QAwaitProducers\<rparr>"
    using init by (auto simp: queue_init_def queue_bench_split_def chan_bench_split_def)
  have come: "map to_come (qprods b) = map part parts"
    by (auto simp: b to_come_def)
  have "concat (map part parts) = [0..<n]"
    using parts split_loop_parts [of "n div prodCount" "n mod prodCount" prodCount 0 0]
      split_total [of prodCount n] by (auto simp: chan_bench_split_def split: if_splits)
  then have all: "concat (map to_come (qprods b)) = [0..<n]" using come by simp
  note totals = total_lengths [of to_come "qprods b"] total_values [of of_nat to_come "qprods b"]
  have "2 * sum_list (map (\<lambda>p. length (to_come p)) (qprods b)) = 2 * n"
    and "sum_list (map (\<lambda>p. sum_list (map of_nat (to_come p)) :: 'w word) (qprods b)) = expected_sum n"
    using totals unfolding all by (simp_all add: expected_sum_list sum_list_const_mult)
  moreover have "qcons b = (0, 0)" "qmain b = QAwaitProducers" "qqueue b = ch_make C" by (simp_all add: b)
  ultimately show ?thesis
    using C n chan_make [OF C] by (simp add: queue_inv_def queue_work_def)
qed

text \<open>When \<open>main\<close> is through, its checks pass and the queue is empty.\<close>

lemma queue_finished:
  fixes b :: "('c, 'w::len word) qbench"
  assumes inv: "queue_inv C items closed n b" and fin: "qmain b = QFinished"
  shows "queue_report n [qcons b] = [] \<and> items (qqueue b) = {#}"
proof -
  have none: "\<forall>p\<in>set (qprods b). to_come p = []" and c: "unat (fst (qcons b)) = n"
    using inv fin by (auto simp: queue_inv_def)
  have "unat (fst (qcons b)) + size (items (qqueue b)) +
      sum_list (map (\<lambda>p. length (to_come p)) (qprods b)) = n"
    using inv by (simp only: queue_inv_def)
  then have e: "items (qqueue b) = {#}" using c by simp
  have "sum_list (map (\<lambda>p. sum_list (map of_nat (to_come p)) :: 'w word) (qprods b)) = 0"
    using none by (simp cong: map_cong)
  then have s: "snd (qcons b) = expected_sum n"
    using inv e unfolding queue_inv_def by (metis add.right_neutral sum_mset.empty)
  have "fst (qcons b) = of_nat n" using c by (metis of_nat_unat ucast_id)
  then show ?thesis
    using s e by (cases "qcons b") (simp add: queue_report_def)
qed

text \<open>
  C17. \<open>examples/queue_bench.cpp\<close> never prints \<open>FAIL\<close>, for any positive number of producers and any
  number of elements that \<open>size_t\<close> can hold: the run ends, after at most \<open>2 NELEMS + 2\<close> steps,
  although the queue is never closed, and the consumer has then counted all of the elements and their
  (wrapping) sum. The queue is empty and no further pull is pending.
\<close>

theorem queue_bench_never_fails:
  assumes "chan_laws C items closed" and "n < 2 ^ LENGTH('w::len)"
    and "queue_init C n prodCount = Some (b0 :: ('c, 'w word) qbench)"
    and "run_steps (queue_step C n) ks b0 = Some b"
  shows "length ks \<le> 2 * n + 2 \<and>
    (stuck (queue_step C n) b \<longrightarrow>
      qmain b = QFinished \<and> queue_report n [qcons b] = [] \<and> items (qqueue b) = {#})"
proof -
  note start = init_queue_inv [OF assms(1-3)]
  have inv: "queue_inv C items closed n b"
    using queue_run.run_inv [OF conjunct1 [OF start] assms(4)] .
  show ?thesis
    using queue_run.run_bound [OF conjunct1 [OF start] assms(4)] start queue_progress [OF inv]
      queue_finished [OF inv] by auto
qed

definition queue_start :: "(64 word list \<times> bool, 64 word) qbench" where
  "queue_start = \<lparr>qqueue = ([], False), qprods = [(0, 2, 0)], qcons = (0, 0), qmain = QAwaitProducers\<rparr>"

definition queue_end :: "(64 word list \<times> bool, 64 word) qbench" where
  "queue_end = \<lparr>qqueue = ([], False), qprods = [(2, 2, 0)], qcons = (2, 1), qmain = QFinished\<rparr>"

lemma queue_start_init: "queue_init list_chan 2 1 = Some queue_start"
  by (simp add: queue_init_def queue_bench_split_def queue_start_def list_chan_def Let_def)

lemma queue_example_run:
  "run_steps (queue_step list_chan 2) [QProducer 0, QConsumer, QProducer 0, QMain, QConsumer, QMain] queue_start =
     Some queue_end"
  by (simp add: queue_start_def queue_end_def queue_main_step_def queue_producer_def queue_consumer_def
      list_chan_def)

lemma queue_end_stuck: "stuck (queue_step list_chan 2) queue_end"
  unfolding stuck_def
proof
  fix a
  show "queue_step list_chan 2 a queue_end = None"
    by (cases a) (auto simp: queue_end_def queue_main_step_def queue_producer_def queue_consumer_def)
qed

theorem queue_bench_never_fails_witness: "queue_report 2 [qcons queue_end] = []"
  using queue_bench_never_fails [OF list_chan_laws _ queue_start_init queue_example_run] queue_end_stuck
  by simp

section \<open>The benchmark with \<open>consumer_try_pull\<close>\<close>

text \<open>
  The program with the alternative consumer in the place of the one in use. It is never suspended before
  it has counted all elements: a poll that finds nothing leaves everything as it is.
\<close>

fun polling_step ::
    "('c, 'w::len word) chan_ops \<Rightarrow> nat \<Rightarrow> queue_agent \<Rightarrow> ('c, 'w word) qbench \<Rightarrow>
     ('c, 'w word) qbench option" where
  "polling_step C NELEMS QMain b = queue_main_step NELEMS b"
| "polling_step C NELEMS (QProducer k) b = queue_step C NELEMS (QProducer k) b"
| "polling_step C NELEMS QConsumer b =
     map_option (\<lambda>(r, c). b\<lparr>qcons := r, qqueue := c\<rparr>)
       (consumer_try_pull C (of_nat NELEMS) (qcons b) (qqueue b))"

text \<open>A schedule without the polls that find nothing.\<close>

fun productive ::
    "('c, 'w::len word) chan_ops \<Rightarrow> nat \<Rightarrow> queue_agent list \<Rightarrow> ('c, 'w word) qbench \<Rightarrow> queue_agent list" where
  "productive C NELEMS [] b = []"
| "productive C NELEMS (a # as) b =
     (case queue_step C NELEMS a b of
        None \<Rightarrow> productive C NELEMS as b
      | Some b' \<Rightarrow> a # productive C NELEMS as b')"

lemma try_pull_step:
  "consumer_try_pull C n s q =
     (case queue_consumer C n s q of
        Some r \<Rightarrow> Some r
      | None \<Rightarrow> if fst s < n then Some (s, q) else None)"
  by (cases s) (auto simp: consumer_try_pull_def queue_consumer_def split: prod.splits pulled.splits)

lemma polling_step_cases:
  "polling_step C n a b = Some b' \<Longrightarrow> queue_step C n a b = Some b' \<or> queue_step C n a b = None \<and> b' = b"
  by (cases a) (auto simp: try_pull_step split: option.splits if_splits)

lemma queue_step_polls: "queue_step C n a b = Some b' \<Longrightarrow> polling_step C n a b = Some b'"
  by (cases a) (auto simp: try_pull_step)

lemma polling_run:
  "run_steps (polling_step C n) ks b = Some b' \<Longrightarrow> run_steps (queue_step C n) (productive C n ks b) b = Some b'"
proof (induction ks arbitrary: b)
  case (Cons a ks)
  then obtain u where u: "polling_step C n a b = Some u" and r: "run_steps (polling_step C n) ks u = Some b'"
    by (auto split: option.splits)
  from polling_step_cases [OF u] show ?case using Cons.IH [OF r] by auto
qed simp

lemma queue_run_polls:
  "run_steps (queue_step C n) ks b = Some b' \<Longrightarrow> run_steps (polling_step C n) ks b = Some b'"
  by (induction ks arbitrary: b) (auto split: option.splits dest: queue_step_polls)

text \<open>
  C18. The benchmark with \<open>consumer_try_pull\<close> refines the one with \<open>consumer\<close> up to idle steps: a run of it
  without the polls that find nothing is a run of the other to the same state, so at most \<open>2 NELEMS + 2\<close>
  of its steps do anything and its checks do not print \<open>FAIL\<close> either; its consumer is never suspended
  before the end, and every run of it can be continued until \<open>main\<close> is through.
\<close>

theorem try_pull_refines_pull:
  assumes "chan_laws C items closed" and "n < 2 ^ LENGTH('w::len)"
    and "queue_init C n prodCount = Some (b0 :: ('c, 'w word) qbench)"
    and "run_steps (polling_step C n) ks b0 = Some b"
  shows "run_steps (queue_step C n) (productive C n ks b0) b0 = Some b \<and>
    length (productive C n ks b0) \<le> 2 * n + 2 \<and>
    (qmain b = QFinished \<longrightarrow> queue_report n [qcons b] = [] \<and> items (qqueue b) = {#}) \<and>
    (fst (qcons b) < of_nat n \<longrightarrow> polling_step C n QConsumer b \<noteq> None) \<and>
    (\<exists>ls b'. run_steps (polling_step C n) (ks @ ls) b0 = Some b' \<and> qmain b' = QFinished)"
proof -
  note start = init_queue_inv [OF assms(1-3)] and run = polling_run [OF assms(4)]
  have inv: "queue_inv C items closed n b"
    using queue_run.run_inv [OF conjunct1 [OF start] run] .
  obtain ls b' where "run_steps (queue_step C n) ls b = Some b'" "stuck (queue_step C n) b'"
    using queue_run.reaches_stuck [OF inv] by blast
  then have "run_steps (polling_step C n) (ks @ ls) b0 = Some b' \<and> qmain b' = QFinished"
    using queue_run.maximal_final [OF inv] queue_run_polls assms(4) by (auto simp: run_steps_append)
  then show ?thesis
    using run queue_run.run_bound [OF conjunct1 [OF start] run] start queue_finished [OF inv]
    by (auto simp: try_pull_step split: option.splits)
qed

theorem try_pull_refines_pull_witness:
  "\<exists>b. run_steps (polling_step list_chan 2) [QConsumer, QProducer 0, QConsumer, QConsumer] queue_start = Some b \<and>
     productive list_chan 2 [QConsumer, QProducer 0, QConsumer, QConsumer] queue_start = [QProducer 0, QConsumer] \<and>
     run_steps (queue_step list_chan 2) [QProducer 0, QConsumer] queue_start = Some b"
proof -
  let ?ks = "[QConsumer, QProducer 0, QConsumer, QConsumer]"
  obtain b where run: "run_steps (polling_step list_chan 2) ?ks queue_start = Some b"
    and p: "productive list_chan 2 ?ks queue_start = [QProducer 0, QConsumer]"
    by (simp add: queue_start_def consumer_try_pull_def queue_consumer_def queue_producer_def list_chan_def)
  have "(2 :: nat) < 2 ^ LENGTH(64)" by simp
  from try_pull_refines_pull [OF list_chan_laws this queue_start_init run] show ?thesis using run p by metis
qed

lemma maxProducerDuration_Max: "maxProducerDuration ds = Max (set (0 # ds))"
proof -
  have "fold (\<lambda>d m. if m < d then d else m) ds m = Max (set (m # ds))" for m
  proof (induction ds arbitrary: m)
    case (Cons d ds)
    have "Max (set ((if m < d then d else m) # ds)) = Max (set (m # d # ds))"
      by (cases "ds = []") (auto simp: max_def)
    then show ?case using Cons by simp
  qed simp
  then show ?thesis by (simp add: maxProducerDuration_def)
qed

end
