(* ===== verification/Braid.thy ===== *)
theory Braid
  imports Prelude
begin

text \<open>
  \<open>examples/braid.cpp\<close>: six ways to serialise \<open>value++\<close> with a braid. The increment is a load and a
  store, between which other tasks may run, so that a missing braid would lose increments. A braid
  is the library's: of it the model uses that at most one coroutine runs on it at a time.
\<close>

section \<open>The interface of a braid\<close>

text \<open>
  \<open>br_enter i\<close> is one attempt of task \<open>i\<close> to continue on the braid (\<open>None\<close>: it waits), \<open>br_exit i\<close>
  what happens when it suspends, ends or moves to another executor.
\<close>

record 'b braid_ops =
  br_make :: "'b"
  br_enter :: "nat \<Rightarrow> 'b \<Rightarrow> 'b option"
  br_exit :: "nat \<Rightarrow> 'b \<Rightarrow> 'b"

definition braid_laws :: "'b braid_ops \<Rightarrow> ('b \<Rightarrow> nat option) \<Rightarrow> bool" where
  "braid_laws B holder \<longleftrightarrow>
     holder (br_make B) = None \<and>
     (\<forall>i b. case br_enter B i b of
              None \<Rightarrow> \<exists>j. j \<noteq> i \<and> holder b = Some j
            | Some b' \<Rightarrow> holder b \<in> {None, Some i} \<and> holder b' = Some i) \<and>
     (\<forall>i b. holder (br_exit B i b) = (if holder b = Some i then None else holder b))"

lemma braid_make: "braid_laws B holder \<Longrightarrow> holder (br_make B) = None"
  by (simp add: braid_laws_def)

lemma braid_enter_law:
  "braid_laws B holder \<Longrightarrow>
     (case br_enter B i b of
        None \<Rightarrow> \<exists>j. j \<noteq> i \<and> holder b = Some j
      | Some b' \<Rightarrow> holder b \<in> {None, Some i} \<and> holder b' = Some i)"
  by (simp add: braid_laws_def)

lemma braid_enter_Some:
  "braid_laws B holder \<Longrightarrow> br_enter B i b = Some b' \<Longrightarrow> holder b \<in> {None, Some i} \<and> holder b' = Some i"
  using braid_enter_law [of B holder i b] by simp

lemma braid_enter_None:
  "braid_laws B holder \<Longrightarrow> br_enter B i b = None \<Longrightarrow> \<exists>j. j \<noteq> i \<and> holder b = Some j"
  using braid_enter_law [of B holder i b] by simp

lemma braid_exit:
  "braid_laws B holder \<Longrightarrow> holder (br_exit B i b) = (if holder b = Some i then None else holder b)"
  by (simp add: braid_laws_def)

definition option_braid :: "nat option braid_ops" where
  "option_braid = \<lparr> br_make = None,
     br_enter = (\<lambda>i b. if b = None \<or> b = Some i then Some (Some i) else None),
     br_exit = (\<lambda>i b. if b = Some i then None else b) \<rparr>"

lemma option_braid_laws: "braid_laws option_braid (\<lambda>b. b)"
  by (auto simp: braid_laws_def option_braid_def)

section \<open>The tasks of the examples\<close>

text \<open>
  What a task does that matters to the others: it starts or is resumed on the braid, loads and
  stores \<open>value\<close>, and leaves the braid.
\<close>

datatype braid_op = BEnter | BLoad | BStore | BExit

text \<open>\<open>v++; co_return;\<close> on the braid\<close>

definition child_tasks_run_on_braid :: "braid_op list" where
  "child_tasks_run_on_braid = [BEnter, BLoad, BStore, BExit]"

definition child_funcs_run_on_braid :: "braid_op list" where
  "child_funcs_run_on_braid = [BEnter, BLoad, BStore, BExit]"

text \<open>Run on the braid, and \<open>co_await tmc::enter(braid)\<close> before the increment.\<close>

definition braid_lock :: "braid_op list" where
  "braid_lock = [BEnter, BEnter, BLoad, BStore, BExit]"

text \<open>\<open>braidScope.exit()\<close> returns to the executor it was entered from, which is the braid of \<open>run_on\<close>.\<close>

definition braid_lock_middle :: "braid_op list" where
  "braid_lock_middle = [BEnter, BEnter, BLoad, BStore, BExit, BEnter, BExit]"

text \<open>\<open>resume_on(tmc::cpu_executor())\<close> leaves the braid for the rest of the task.\<close>

definition braid_lock_middle_resume_on :: "braid_op list" where
  "braid_lock_middle_resume_on = [BEnter, BEnter, BLoad, BStore, BExit]"

text \<open>The task suspends while its child function runs on the braid, and is resumed on it.\<close>

definition braid_lock_middle_child :: "braid_op list" where
  "braid_lock_middle_child = [BEnter, BExit, BEnter, BLoad, BStore, BExit, BEnter, BExit]"

definition braid_examples :: "braid_op list list" where
  "braid_examples =
     [child_tasks_run_on_braid, child_funcs_run_on_braid, braid_lock, braid_lock_middle,
      braid_lock_middle_resume_on, braid_lock_middle_child]"

section \<open>Running them\<close>

record ('b, 'a) braided =
  brd :: "'b"
  val :: "'a"
  pcs :: "nat list"        \<comment> \<open>how far each task is in its operations\<close>
  regs :: "'a list"        \<comment> \<open>what each task has loaded\<close>

definition braid_step ::
    "braid_op list \<Rightarrow> 'b braid_ops \<Rightarrow> nat \<Rightarrow> ('b, 'w::len word) braided \<Rightarrow> ('b, 'w word) braided option" where
  "braid_step script B i s =
     (if i < length (pcs s) \<and> pcs s ! i < length script then
        (let s' = s\<lparr>pcs := (pcs s)[i := Suc (pcs s ! i)]\<rparr> in
         case script ! (pcs s ! i) of
           BEnter \<Rightarrow> map_option (\<lambda>b. s'\<lparr>brd := b\<rparr>) (br_enter B i (brd s))
         | BLoad \<Rightarrow> Some (s'\<lparr>regs := (regs s)[i := val s]\<rparr>)
         | BStore \<Rightarrow> Some (s'\<lparr>val := regs s ! i + 1\<rparr>)
         | BExit \<Rightarrow> Some (s'\<lparr>brd := br_exit B i (brd s)\<rparr>))
      else None)"

definition braid_init :: "'b braid_ops \<Rightarrow> nat \<Rightarrow> ('b, 'w::len word) braided" where
  "braid_init B TASK_COUNT =
     \<lparr>brd = br_make B, val = 0, pcs = replicate TASK_COUNT 0, regs = replicate TASK_COUNT 0\<rparr>"

text \<open>The check after the \<open>co_await\<close> of the group: the value of the \<open>FAIL\<close> line.\<close>

definition braid_check :: "nat \<Rightarrow> 'w::len word \<Rightarrow> 'w word option" where
  "braid_check TASK_COUNT v = (if v \<noteq> of_nat TASK_COUNT then Some v else None)"

section \<open>The contract of the scripts\<close>

text \<open>The increment directly follows an entry, and the last thing a task does is to leave.\<close>

locale braid_script =
  fixes script pre post :: "braid_op list"
  assumes script: "script = pre @ [BEnter, BLoad, BStore] @ post @ [BExit]"
    and outside: "set pre \<union> set post \<subseteq> {BEnter, BExit}"
begin

abbreviation entered where "entered \<equiv> length pre + 1"

definition stored :: "nat \<Rightarrow> nat" where
  "stored pc = of_bool (entered + 2 \<le> pc)"

definition inside :: "nat \<Rightarrow> bool" where
  "inside pc \<longleftrightarrow> 0 < pc \<and> script ! (pc - 1) \<noteq> BExit"

definition inv :: "'b braid_ops \<Rightarrow> ('b \<Rightarrow> nat option) \<Rightarrow> ('b, 'w::len word) braided \<Rightarrow> bool" where
  "inv B holder s \<longleftrightarrow>
     braid_laws B holder \<and> length (regs s) = length (pcs s) \<and>
     (\<forall>i<length (pcs s). pcs s ! i \<le> length script) \<and>
     (\<forall>i. holder (brd s) = Some i \<longleftrightarrow> i < length (pcs s) \<and> inside (pcs s ! i)) \<and>
     (\<forall>i<length (pcs s). pcs s ! i = entered + 1 \<longrightarrow> regs s ! i = val s) \<and>
     val s = of_nat (sum_list (map stored (pcs s)))"

lemma op_cases:
  assumes "pc < length script"
  obtains (load) "pc = entered" "script ! pc = BLoad" "script ! (pc - 1) = BEnter"
  | (store) "pc = entered + 1" "script ! pc = BStore" "script ! (pc - 1) = BLoad"
  | (other) "script ! pc \<in> {BEnter, BExit}" "pc \<noteq> entered" "pc \<noteq> entered + 1"
proof -
  consider "pc < length pre" | "pc = length pre" | "pc = entered" | "pc = entered + 1"
    | "entered + 2 \<le> pc" by linarith
  then show thesis
  proof cases
    case 1
    then have "script ! pc \<in> set pre" by (simp add: script nth_append)
    with 1 outside show thesis by (intro other) auto
  next
    case 2
    then show thesis by (intro other) (simp_all add: script nth_append)
  next
    case 3
    then show thesis by (intro load) (simp_all add: script nth_append)
  next
    case 4
    then show thesis by (intro store) (simp_all add: script nth_append nth_Cons')
  next
    case 5
    define j where "j = pc - (length pre + 3)"
    then have j: "pc = length pre + 3 + j" using 5 by simp
    then have "script ! pc = (post @ [BExit]) ! j" and "j < length (post @ [BExit])"
      using assms by (simp_all add: script nth_append)
    then have "script ! pc \<in> set (post @ [BExit])" by (metis nth_mem)
    then show thesis using 5 outside by (intro other) auto
  qed
qed

lemma inside_end: "\<not> inside (length script)"
  unfolding inside_def by (simp add: script nth_append)

lemma stored_Suc: "stored (Suc pc) = stored pc + of_bool (pc = entered + 1)"
  by (auto simp: stored_def)

text \<open>What a step does to the counter of the task and to the holder of the braid.\<close>

lemma stored_update:
  assumes "i < length ps"
  shows "of_nat (sum_list (map stored (ps[i := Suc (ps ! i)]))) =
    (of_nat (sum_list (map stored ps)) + of_bool (ps ! i = entered + 1) :: 'w::len word)"
proof -
  have "sum_list (map stored (ps[i := Suc (ps ! i)])) = sum_list (map stored ps) + of_bool (ps ! i = entered + 1)"
    using sum_map_update [OF assms, of stored "Suc (ps ! i)"] by (simp add: stored_Suc)
  then show ?thesis by simp
qed

lemma step_inv:
  fixes s :: "('b, 'w::len word) braided"
  assumes inv: "inv B holder s" and step: "braid_step script B i s = Some t"
  shows "inv B holder t"
proof -
  let ?pc = "pcs s ! i"
  have B: "braid_laws B holder" and len: "length (regs s) = length (pcs s)"
    and H: "\<And>j. holder (brd s) = Some j \<longleftrightarrow> j < length (pcs s) \<and> inside (pcs s ! j)"
    and R: "\<And>j. j < length (pcs s) \<Longrightarrow> pcs s ! j = entered + 1 \<Longrightarrow> regs s ! j = val s"
    and V: "val s = of_nat (sum_list (map stored (pcs s)))"
    and P: "\<And>j. j < length (pcs s) \<Longrightarrow> pcs s ! j \<le> length script"
    using inv by (auto simp: inv_def)
  have i: "i < length (pcs s)" and pc: "?pc < length script"
    using step by (auto simp: braid_step_def split: if_splits)
  have upd: "(pcs s)[i := Suc ?pc] ! j = (if j = i then Suc ?pc else pcs s ! j)" if "j < length (pcs s)" for j
    using that by (simp add: nth_list_update)
  have ins: "inside (Suc ?pc) \<longleftrightarrow> script ! ?pc \<noteq> BExit" by (simp add: inside_def)
  have st: "(of_nat (sum_list (map stored ((pcs s)[i := Suc ?pc]))) :: 'w word) =
      of_nat (sum_list (map stored (pcs s))) + of_bool (?pc = entered + 1)"
    by (rule stored_update [OF i])
  have alone: "j = i" if "holder (brd s) = Some i" "j < length (pcs s)" "inside (pcs s ! j)" for j
    using H [of j] that by simp
  show ?thesis
    using pc
  proof (cases rule: op_cases)
    case load
    have t: "t = s\<lparr>pcs := (pcs s)[i := Suc ?pc], regs := (regs s)[i := val s]\<rparr>"
      using step i pc load(2) by (simp add: braid_step_def Let_def)
    have "inside ?pc" using load by (simp add: inside_def)
    then have h: "holder (brd s) = Some i" using H [of i] i by simp
    have "holder (brd t) = Some j \<longleftrightarrow> j < length (pcs t) \<and> inside (pcs t ! j)" for j
      using H [of j] upd [of j] ins load(2) h i by (auto simp: t)
    moreover have "regs t ! j = val t" if "j < length (pcs t)" "pcs t ! j = entered + 1" for j
      using that R [of j] upd [of j] len i load(1) by (auto simp: t nth_list_update)
    moreover have "val t = of_nat (sum_list (map stored (pcs t)))"
      using V st load(1) by (simp add: t)
    moreover have "pcs t ! j \<le> length script" if "j < length (pcs t)" for j
      using that P [of j] upd [of j] pc by (auto simp: t)
    ultimately show ?thesis using B len by (auto simp: inv_def t)
  next
    case store
    have t: "t = s\<lparr>pcs := (pcs s)[i := Suc ?pc], val := regs s ! i + 1\<rparr>"
      using step i pc store(2) by (simp add: braid_step_def Let_def)
    have "inside ?pc" using store by (simp add: inside_def)
    then have h: "holder (brd s) = Some i" using H [of i] i by simp
    have "holder (brd t) = Some j \<longleftrightarrow> j < length (pcs t) \<and> inside (pcs t ! j)" for j
      using H [of j] upd [of j] ins store(2) h i by (auto simp: t)
    moreover have "inside (entered + 1)"
      using store by (simp add: inside_def)
    then have "regs t ! j = val t" if "j < length (pcs t)" "pcs t ! j = entered + 1" for j
    proof -
      have j: "j < length (pcs s)" using that(1) by (simp add: t)
      have p: "(pcs s)[i := Suc ?pc] ! j = entered + 1" using that(2) by (simp add: t)
      have "j \<noteq> i" using p upd [OF j] store(1) by auto
      then have "pcs s ! j = entered + 1" using p upd [OF j] by simp
      then have "inside (pcs s ! j)" using \<open>inside (entered + 1)\<close> by simp
      then have "j = i" by (rule alone [OF h j])
      with \<open>j \<noteq> i\<close> show ?thesis ..
    qed
    moreover have "val t = of_nat (sum_list (map stored (pcs t)))"
      using V st store(1) R [OF i] by (simp add: t)
    moreover have "pcs t ! j \<le> length script" if "j < length (pcs t)" for j
      using that P [of j] upd [of j] pc by (auto simp: t)
    ultimately show ?thesis using B len by (auto simp: inv_def t)
  next
    case other
    obtain b where t: "t = s\<lparr>pcs := (pcs s)[i := Suc ?pc], brd := b\<rparr>"
      and b: "(if script ! ?pc = BExit then holder b = (if holder (brd s) = Some i then None else holder (brd s))
               else holder (brd s) \<in> {None, Some i} \<and> holder b = Some i)"
      using step i pc other(1) braid_exit [OF B, of i "brd s"] braid_enter_Some [OF B, of i "brd s"]
      by (auto simp: braid_step_def Let_def split: option.splits)
    have "holder (brd t) = Some j \<longleftrightarrow> j < length (pcs t) \<and> inside (pcs t ! j)" for j
      using H [of j] H [of i] upd [of j] ins b i by (auto simp: t split: if_splits)
    moreover have "regs t ! j = val t" if "j < length (pcs t)" "pcs t ! j = entered + 1" for j
      using that R [of j] upd [of j] other(2) by (auto simp: t split: if_splits)
    moreover have "val t = of_nat (sum_list (map stored (pcs t)))"
      using V st other(3) by (simp add: t)
    moreover have "pcs t ! j \<le> length script" if "j < length (pcs t)" for j
      using that P [of j] upd [of j] pc by (auto simp: t)
    ultimately show ?thesis using B len by (auto simp: inv_def t)
  qed
qed

definition left :: "('b, 'w::len word) braided \<Rightarrow> nat" where
  "left s = sum_list (map (\<lambda>pc. length script - pc) (pcs s))"

lemma step_left: "inv B holder s \<Longrightarrow> braid_step script B i s = Some t \<Longrightarrow> left t < left s"
proof -
  assume "inv B holder s" and step: "braid_step script B i s = Some t"
  then have i: "i < length (pcs s)" "pcs s ! i < length script"
    by (auto simp: braid_step_def split: if_splits)
  have "pcs t = (pcs s)[i := Suc (pcs s ! i)]"
    using step i by (auto simp: braid_step_def Let_def split: braid_op.splits)
  then show ?thesis
    using sum_map_update [OF i(1), of "\<lambda>pc. length script - pc" "Suc (pcs s ! i)"] i(2) by (simp add: left_def)
qed

lemma stuck_finished:
  assumes inv: "inv B holder s" and stuck: "stuck (braid_step script B) s" and i: "i < length (pcs s)"
  shows "pcs s ! i = length script"
proof -
  have B: "braid_laws B holder"
    and H: "\<And>j. holder (brd s) = Some j \<longleftrightarrow> j < length (pcs s) \<and> inside (pcs s ! j)"
    and P: "\<And>j. j < length (pcs s) \<Longrightarrow> pcs s ! j \<le> length script"
    using inv by (auto simp: inv_def)
  have blocked: "\<exists>k. k \<noteq> j \<and> holder (brd s) = Some k" if "j < length (pcs s)" "pcs s ! j \<noteq> length script" for j
  proof -
    have "pcs s ! j < length script" using P [OF that(1)] that(2) by simp
    then have "br_enter B j (brd s) = None"
      using stuckD [OF stuck, of j] that(1) by (simp add: braid_step_def Let_def split: braid_op.splits)
    then show ?thesis by (rule braid_enter_None [OF B])
  qed
  show ?thesis
  proof (rule ccontr)
    assume "pcs s ! i \<noteq> length script"
    then obtain k where k: "holder (brd s) = Some k" using blocked i by blast
    then have "k < length (pcs s)" "inside (pcs s ! k)" using H [of k] by simp_all
    moreover from this have "pcs s ! k \<noteq> length script" using inside_end by metis
    ultimately obtain l where "l \<noteq> k" "holder (brd s) = Some l" using blocked by blast
    then show False using k by simp
  qed
qed

end

sublocale braid_script \<subseteq> runs: terminating_system
  "braid_step script B" "inv B holder" left "\<lambda>s. \<forall>i<length (pcs s). pcs s ! i = length script"
  for B holder
proof unfold_locales
  show "\<And>s k t. inv B holder s \<Longrightarrow> braid_step script B k s = Some t \<Longrightarrow> inv B holder t"
    by (rule step_inv)
  show "\<And>s k t. inv B holder s \<Longrightarrow> braid_step script B k s = Some t \<Longrightarrow> left t < left s"
    by (rule step_left)
  show "\<And>s. inv B holder s \<Longrightarrow> stuck (braid_step script B) s \<Longrightarrow>
      \<forall>i<length (pcs s). pcs s ! i = length script"
    by (intro allI impI) (rule stuck_finished)
qed

context braid_script begin

lemma init_inv: "braid_laws B holder \<Longrightarrow> inv B holder (braid_init B n)"
  by (auto simp: inv_def braid_init_def braid_make inside_def stored_def sum_list_replicate)

lemma length_pcs: "run_steps (braid_step script B) ks s = Some t \<Longrightarrow> length (pcs t) = length (pcs s)"
proof (induction ks arbitrary: s)
  case (Cons k ks)
  then obtain u where u: "braid_step script B k s = Some u" and r: "run_steps (braid_step script B) ks u = Some t"
    by (auto split: option.splits)
  have "length (pcs u) = length (pcs s)"
    using u by (auto simp: braid_step_def Let_def split: if_splits braid_op.splits)
  then show ?case using Cons.IH [OF r] by simp
qed simp

lemma no_lost_increments:
  fixes s :: "('a, 'b::len word) braided"
  assumes "braid_laws B holder" and "run_steps (braid_step script B) ks (braid_init B n) = Some s"
  shows "length ks \<le> n * length script \<and>
    (stuck (braid_step script B) s \<longrightarrow> val s = of_nat n \<and> holder (brd s) = None)"
proof -
  note start = init_inv [OF assms(1), of n]
  have inv: "inv B holder s" using runs.run_inv [OF start assms(2)] .
  have len: "length (pcs s) = n" using length_pcs [OF assms(2)] by (simp add: braid_init_def)
  have "val s = of_nat n \<and> holder (brd s) = None" if stuck: "stuck (braid_step script B) s"
  proof -
    have fin: "\<forall>i<length (pcs s). pcs s ! i = length script" using stuck_finished [OF inv stuck] by blast
    then have "pcs s = replicate n (length script)" by (simp add: list_eq_iff_nth_eq len)
    moreover have "stored (length script) = 1" by (simp add: stored_def script)
    ultimately have "sum_list (map stored (pcs s)) = n" by (simp add: sum_list_replicate)
    moreover have "holder (brd s) = None"
    proof (rule ccontr)
      assume "holder (brd s) \<noteq> None"
      then obtain a where "holder (brd s) = Some a" by blast
      then have "a < length (pcs s)" "inside (pcs s ! a)" using inv by (auto simp: inv_def)
      then show False using fin inside_end by simp
    qed
    ultimately show ?thesis using inv by (simp add: inv_def)
  qed
  moreover have "left (braid_init B n :: ('a, 'b word) braided) = n * length script"
    by (simp add: left_def braid_init_def sum_list_replicate)
  moreover have "length ks \<le> left (braid_init B n :: ('a, 'b word) braided)"
    using runs.run_bound [OF start assms(2)] by linarith
  ultimately show ?thesis by simp
qed

lemma exclusive:
  assumes "braid_laws B holder" and "run_steps (braid_step script B) ks (braid_init B n) = Some s"
    and "i < n" and "j < n" and "pcs s ! i \<in> {entered, entered + 1}" and "pcs s ! j \<in> {entered, entered + 1}"
  shows "i = j"
proof -
  have inv: "inv B holder s" using runs.run_inv [OF init_inv [OF assms(1)] assms(2)] .
  have len: "length (pcs s) = n" using length_pcs [OF assms(2)] by (simp add: braid_init_def)
  have "inside entered" "inside (entered + 1)"
    unfolding inside_def by (simp_all add: script nth_append)
  then have "holder (brd s) = Some i" "holder (brd s) = Some j"
    using inv assms(3-6) len by (auto simp: inv_def)
  then show ?thesis by simp
qed

end

section \<open>The six examples\<close>

interpretation run_on_tasks: braid_script child_tasks_run_on_braid "[]" "[]"
  by unfold_locales (simp_all add: child_tasks_run_on_braid_def)

interpretation run_on_funcs: braid_script child_funcs_run_on_braid "[]" "[]"
  by unfold_locales (simp_all add: child_funcs_run_on_braid_def)

interpretation lock_end: braid_script braid_lock "[BEnter]" "[]"
  by unfold_locales (simp_all add: braid_lock_def)

interpretation lock_middle: braid_script braid_lock_middle "[BEnter]" "[BExit, BEnter]"
  by unfold_locales (simp_all add: braid_lock_middle_def)

interpretation lock_resume_on: braid_script braid_lock_middle_resume_on "[BEnter]" "[]"
  by unfold_locales (simp_all add: braid_lock_middle_resume_on_def)

interpretation lock_child: braid_script braid_lock_middle_child "[BEnter, BExit]" "[BExit, BEnter]"
  by unfold_locales (simp_all add: braid_lock_middle_child_def)

text \<open>
  C23. No increment is lost in any of the six examples of \<open>examples/braid.cpp\<close>: with any number of
  tasks, when no task can run any more the value is that number (modulo the range of \<open>size_t\<close>), no
  \<open>FAIL\<close> is printed and the braid is free; and the tasks take at most eight steps each.
\<close>

theorem braid_no_lost_increments:
  assumes "braid_laws B holder" and "script \<in> set braid_examples"
    and "run_steps (braid_step script B) ks (braid_init B TASK_COUNT) = Some s"
  shows "length ks \<le> 8 * TASK_COUNT \<and>
    (stuck (braid_step script B) s \<longrightarrow>
      val s = of_nat TASK_COUNT \<and> braid_check TASK_COUNT (val s) = None \<and> holder (brd s) = None)"
proof -
  have "length ks \<le> TASK_COUNT * length script \<and>
      (stuck (braid_step script B) s \<longrightarrow> val s = of_nat TASK_COUNT \<and> holder (brd s) = None)"
    using assms(2,3) run_on_tasks.no_lost_increments [OF assms(1)] run_on_funcs.no_lost_increments [OF assms(1)]
      lock_end.no_lost_increments [OF assms(1)] lock_middle.no_lost_increments [OF assms(1)]
      lock_resume_on.no_lost_increments [OF assms(1)] lock_child.no_lost_increments [OF assms(1)]
    unfolding braid_examples_def by (elim set_ConsD [THEN disjE]; simp)
  moreover have len: "length script \<le> 8"
    using assms(2) by (auto simp: braid_examples_def child_tasks_run_on_braid_def child_funcs_run_on_braid_def
        braid_lock_def braid_lock_middle_def braid_lock_middle_resume_on_def braid_lock_middle_child_def)
  moreover have "TASK_COUNT * length script \<le> 8 * TASK_COUNT"
    using mult_le_mono2 [OF len, of TASK_COUNT] by (simp add: mult.commute)
  ultimately show ?thesis unfolding braid_check_def by (meson le_trans)
qed

definition braid_end :: "(nat option, 64 word) braided" where
  "braid_end = \<lparr>brd = None, val = 2, pcs = [5, 5], regs = [1, 0]\<rparr>"

lemma braid_example_run:
  "run_steps (braid_step braid_lock option_braid) [1, 1, 1, 1, 1, 0, 0, 0, 0, 0] (braid_init option_braid 2) =
     Some braid_end"
  by (simp add: braid_step_def braid_lock_def option_braid_def braid_init_def braid_end_def numeral_2_eq_2
      numeral_eq_Suc)

lemma braid_end_stuck: "stuck (braid_step braid_lock option_braid) braid_end"
  by (auto simp: stuck_def braid_step_def braid_end_def braid_lock_def nth_Cons' less_Suc_eq)

theorem braid_no_lost_increments_witness: "braid_check 2 (val braid_end) = None"
proof -
  have "braid_lock \<in> set braid_examples" by (simp add: braid_examples_def)
  then show ?thesis
    using braid_no_lost_increments [OF option_braid_laws _ braid_example_run] braid_end_stuck by blast
qed

end
