(* ===== verification/Roundtrip_Bench.thy ===== *)
theory Roundtrip_Bench
  imports Braid Work_Split Format
begin

text \<open>
  \<open>examples/exec_st_roundtrip_bench.cpp\<close>: producers that send one task after the other to a serialising
  executor and await it, or that call the consumer under a mutex. Of a serialising executor and of a mutex
  the model uses the same as of a braid: it has at most one holder, and a waiting task is kept waiting
  only by a holder.
\<close>

section \<open>The program\<close>

text \<open>
  A producer is at the top of its loop, its spawned consumer is queued, the consumer runs, or the
  consumer has run and its executor (or the mutex) is left; with \<open>i\<close> and \<open>count\<close>.
\<close>

datatype rphase = RTop | RQueued | RRunning | RLeave

type_synonym rproducer = "rphase \<times> nat \<times> nat"

record 'b rbench =
  serial :: 'b
  rprods :: "rproducer list"
  calls :: "(nat \<times> nat) list"     \<comment> \<open>\<open>consumer(i)\<close> of producer \<open>k\<close>: \<open>(k, i)\<close>\<close>

definition rt_producer :: "'b braid_ops \<Rightarrow> nat \<Rightarrow> rproducer \<Rightarrow> 'b rbench \<Rightarrow> (rproducer \<times> 'b rbench) option" where
  "rt_producer B k = (\<lambda>(ph, i, cnt) s.
     case ph of
       RTop \<Rightarrow> if i < cnt then Some ((RQueued, i, cnt), s) else None
     | RQueued \<Rightarrow> map_option (\<lambda>b. ((RRunning, i, cnt), s\<lparr>serial := b\<rparr>)) (br_enter B k (serial s))
     | RRunning \<Rightarrow> Some ((RLeave, i, cnt), s\<lparr>calls := calls s @ [(k, i)]\<rparr>)
     | RLeave \<Rightarrow> Some ((RTop, i + 1, cnt), s\<lparr>serial := br_exit B k (serial s)\<rparr>))"

definition mutex_producer :: "'b braid_ops \<Rightarrow> nat \<Rightarrow> rproducer \<Rightarrow> 'b rbench \<Rightarrow> (rproducer \<times> 'b rbench) option" where
  "mutex_producer B k = (\<lambda>(ph, i, cnt) s.
     case ph of
       RTop \<Rightarrow>
         if i < cnt
         then map_option (\<lambda>b. ((RRunning, i, cnt), s\<lparr>serial := b\<rparr>)) (br_enter B k (serial s)) else None
     | RQueued \<Rightarrow> None
     | RRunning \<Rightarrow> Some ((RLeave, i, cnt), s\<lparr>calls := calls s @ [(k, i)]\<rparr>)
     | RLeave \<Rightarrow> Some ((RTop, i + 1, cnt), s\<lparr>serial := br_exit B k (serial s)\<rparr>))"

definition rbench_step :: "bool \<Rightarrow> 'b braid_ops \<Rightarrow> nat \<Rightarrow> 'b rbench \<Rightarrow> 'b rbench option" where
  "rbench_step Mutex B k s =
     (if k < length (rprods s)
      then map_option (\<lambda>(p, s'). s'\<lparr>rprods := (rprods s)[k := p]\<rparr>)
             ((if Mutex then mutex_producer else rt_producer) B k (rprods s ! k) s)
      else None)"

text \<open>\<open>run_bench\<close>: the producers, and the value it prints and returns given the measured duration.\<close>

definition run_bench :: "'b braid_ops \<Rightarrow> nat \<Rightarrow> nat \<Rightarrow> 'b rbench option" where
  "run_bench B NELEMS prodCount =
     map_option (\<lambda>counts. \<lparr>serial = br_make B, rprods = map (\<lambda>cnt. (RTop, 0, cnt)) counts, calls = []\<rparr>)
       (run_bench_split NELEMS prodCount)"

definition run_bench_report :: "nat \<Rightarrow> nat \<Rightarrow> (string \<times> nat) option" where
  "run_bench_report NELEMS durMs =
     Option.bind (elementsPerSec NELEMS durMs) (\<lambda>e. map_option (\<lambda>t. (t, durMs)) (roundtrip_bench_formatWithCommas e))"

text \<open>The sweep of \<open>main\<close>: \<open>dur j p\<close> is the duration of executor \<open>j\<close> with \<open>p\<close> producers.\<close>

definition sweep_totals :: "(nat \<Rightarrow> nat \<Rightarrow> nat) \<Rightarrow> nat \<Rightarrow> nat list" where
  "sweep_totals dur maxProducers =
     fold (\<lambda>prodCount totals. map (\<lambda>j. totals ! j + dur j prodCount) [0..<5]) [1..<maxProducers + 1]
       (replicate 5 0)"

section \<open>The invariant\<close>

definition rt_inside :: "rproducer \<Rightarrow> bool" where
  "rt_inside p = (fst p = RRunning \<or> fst p = RLeave)"

definition called :: "rproducer \<Rightarrow> nat list" where
  "called = (\<lambda>(ph, i, cnt). [0..<if ph = RLeave then i + 1 else i])"

definition calls_of :: "nat \<Rightarrow> 'b rbench \<Rightarrow> nat list" where
  "calls_of k s = map snd (filter (\<lambda>c. fst c = k) (calls s))"

definition producer_ok :: "rproducer \<Rightarrow> bool" where
  "producer_ok = (\<lambda>(ph, i, cnt). i \<le> cnt \<and> (ph \<noteq> RTop \<longrightarrow> i < cnt))"

definition rbench_inv :: "'b braid_ops \<Rightarrow> ('b \<Rightarrow> nat option) \<Rightarrow> bool \<Rightarrow> nat list \<Rightarrow> 'b rbench \<Rightarrow> bool" where
  "rbench_inv B holder Mutex counts s \<longleftrightarrow>
     braid_laws B holder \<and> map (snd \<circ> snd) (rprods s) = counts \<and>
     (\<forall>k<length (rprods s). producer_ok (rprods s ! k) \<and> calls_of k s = called (rprods s ! k) \<and>
        (rt_inside (rprods s ! k) \<longleftrightarrow> holder (serial s) = Some k) \<and> (Mutex \<longrightarrow> fst (rprods s ! k) \<noteq> RQueued)) \<and>
     (\<forall>j. holder (serial s) = Some j \<longrightarrow> j < length (rprods s)) \<and>
     (\<forall>c\<in>set (calls s). fst c < length (rprods s))"

definition rt_producer_work :: "rproducer \<Rightarrow> nat" where
  "rt_producer_work = (\<lambda>(ph, i, cnt). 4 * (cnt - i) -
     (case ph of RTop \<Rightarrow> 0 | RQueued \<Rightarrow> 1 | RRunning \<Rightarrow> 2 | RLeave \<Rightarrow> 3))"

definition rbench_work :: "'b rbench \<Rightarrow> nat" where
  "rbench_work s = sum_list (map rt_producer_work (rprods s))"

text \<open>What one step of producer \<open>k\<close> does, in both variants.\<close>

definition producer_moves ::
    "'b braid_ops \<Rightarrow> ('b \<Rightarrow> nat option) \<Rightarrow> bool \<Rightarrow> nat \<Rightarrow> rproducer \<Rightarrow> 'b rbench \<Rightarrow> rproducer \<Rightarrow> 'b rbench \<Rightarrow> bool" where
  "producer_moves B holder Mutex k p s q t \<longleftrightarrow>
     producer_ok q \<and> snd (snd q) = snd (snd p) \<and> rt_producer_work q < rt_producer_work p \<and>
     (Mutex \<longrightarrow> fst q \<noteq> RQueued) \<and> rprods t = rprods s \<and>
     (\<exists>new. calls t = calls s @ map (Pair k) new \<and> called q = called p @ new) \<and>
     (if rt_inside p = rt_inside q then holder (serial t) = holder (serial s)
      else if rt_inside q then holder (serial s) \<in> {None, Some k} \<and> holder (serial t) = Some k
      else holder (serial t) = (if holder (serial s) = Some k then None else holder (serial s)))"

lemma producer_moves_step:
  assumes B: "braid_laws B holder" and ok: "producer_ok p" "Mutex \<longrightarrow> fst p \<noteq> RQueued"
    and step: "(if Mutex then mutex_producer else rt_producer) B k p s = Some (q, t)"
  shows "producer_moves B holder Mutex k p s q t"
proof -
  obtain ph i cnt where p: "p = (ph, i, cnt)" by (cases p)
  have calls: "\<exists>new. calls s = calls s @ map (Pair k) new \<and> called q = called p @ new" if "called q = called p"
    by (rule exI [of _ "[]"]) (use that in simp)
  have call: "\<exists>new. calls s @ [(k, i)] = calls s @ map (Pair k) new \<and> [0..<Suc i] = [0..<i] @ new"
    by (rule exI [of _ "[i]"]) simp
  show ?thesis
    using step ok calls call braid_enter_Some [OF B, of k "serial s"] braid_exit [OF B, of k "serial s"]
    by (cases ph; cases Mutex)
      (auto simp: p producer_moves_def rt_producer_def mutex_producer_def producer_ok_def rt_producer_work_def
        rt_inside_def called_def split: if_splits)
qed

lemma calls_of_append:
  "calls t = calls s @ map (Pair k) new \<Longrightarrow> calls_of j t = calls_of j s @ (if j = k then new else [])"
  by (simp add: calls_of_def filter_map comp_def)

lemma rbench_keeps:
  assumes inv: "rbench_inv B holder Mutex counts s" and step: "rbench_step Mutex B k s = Some t"
  shows "rbench_inv B holder Mutex counts t \<and> rbench_work t < rbench_work s"
proof -
  have B: "braid_laws B holder" using inv by (simp add: rbench_inv_def)
  obtain q u where k: "k < length (rprods s)"
    and u: "(if Mutex then mutex_producer else rt_producer) B k (rprods s ! k) s = Some (q, u)"
    and t: "t = u\<lparr>rprods := (rprods s)[k := q]\<rparr>"
    using step by (auto simp: rbench_step_def split: if_splits)
  have moves: "producer_moves B holder Mutex k (rprods s ! k) s q u"
    using inv k by (intro producer_moves_step [OF B _ _ u]) (auto simp: rbench_inv_def)
  then obtain new where new: "calls u = calls s @ map (Pair k) new" "called q = called (rprods s ! k) @ new"
    by (auto simp: producer_moves_def)
  have own: "rt_inside (rprods s ! j) \<longleftrightarrow> holder (serial s) = Some j" if "j < length (rprods s)" for j
    using inv that by (simp add: rbench_inv_def)
  have ok: "producer_ok (rprods s ! j)" "calls_of j s = called (rprods s ! j)"
      "Mutex \<longrightarrow> fst (rprods s ! j) \<noteq> RQueued" if "j < length (rprods s)" for j
    using inv that by (simp_all add: rbench_inv_def)
  have q: "producer_ok q" "Mutex \<longrightarrow> fst q \<noteq> RQueued" "snd (snd q) = snd (snd (rprods s ! k))"
    "rprods u = rprods s" "rt_producer_work q < rt_producer_work (rprods s ! k)"
    using moves by (simp_all add: producer_moves_def)
  have held: "if j = k then rt_inside q \<longleftrightarrow> holder (serial u) = Some j
      else rt_inside (rprods s ! j) \<longleftrightarrow> holder (serial u) = Some j" if "j < length (rprods s)" for j
    using moves own [OF k] own [OF that] by (simp add: producer_moves_def split: if_splits)
  have each: "producer_ok (rprods t ! j) \<and> calls_of j t = called (rprods t ! j) \<and>
      (rt_inside (rprods t ! j) \<longleftrightarrow> holder (serial t) = Some j) \<and> (Mutex \<longrightarrow> fst (rprods t ! j) \<noteq> RQueued)"
    if j: "j < length (rprods t)" for j
  proof -
    have len: "j < length (rprods s)" using j by (simp add: t)
    have c: "calls_of j t = calls_of j s @ (if j = k then new else [])"
      using calls_of_append [OF new(1), of j] by (simp add: t calls_of_def)
    show ?thesis
    proof (cases "j = k")
      case True
      then have "rprods t ! j = q" using k by (simp add: t)
      then show ?thesis using True q(1,2) c ok(2) [OF k] new(2) held [OF len] by (simp add: t)
    next
      case False
      then have "rprods t ! j = rprods s ! j" by (simp add: t)
      then show ?thesis using False ok [OF len] c held [OF len] by (simp add: t)
    qed
  qed
  have "j < length (rprods t)" if "holder (serial t) = Some j" for j
    using moves inv that k by (simp add: t producer_moves_def rbench_inv_def split: if_splits)
  moreover have "map (snd \<circ> snd) (rprods t) = counts"
    using inv q(3) k by (auto simp: rbench_inv_def t map_update list_update_same_conv)
  moreover have "\<forall>c\<in>set (calls t). fst c < length (rprods t)"
    using inv new(1) k by (auto simp: rbench_inv_def t)
  ultimately have "rbench_inv B holder Mutex counts t"
    using B each unfolding rbench_inv_def by blast
  moreover have "rbench_work t < rbench_work s"
    using sum_map_update [OF k, of rt_producer_work q] moves
    by (simp add: rbench_work_def producer_moves_def t)
  ultimately show ?thesis by blast
qed

definition rbench_done :: "'b rbench \<Rightarrow> bool" where
  "rbench_done s \<longleftrightarrow> list_all (\<lambda>(ph, i, cnt). ph = RTop \<and> cnt \<le> i) (rprods s)"

lemma rbench_progress:
  assumes inv: "rbench_inv B holder Mutex counts s" and stuck: "stuck (rbench_step Mutex B) s"
  shows "rbench_done s"
proof -
  have B: "braid_laws B holder" using inv by (simp add: rbench_inv_def)
  have none: "(if Mutex then mutex_producer else rt_producer) B k (rprods s ! k) s = None"
    if "k < length (rprods s)" for k
    using stuckD [OF stuck, of k] that by (simp add: rbench_step_def)
  have outside: "\<not> rt_inside (rprods s ! k)" if "k < length (rprods s)" for k
    using none [OF that] by (cases "rprods s ! k")
      (auto simp: rt_inside_def rt_producer_def mutex_producer_def split: if_splits)
  have free: "holder (serial s) = None"
    using inv outside by (cases "holder (serial s)") (auto simp: rbench_inv_def)
  have enter: "br_enter B k (serial s) \<noteq> None" for k
    using braid_enter_None [OF B, of k "serial s"] free by auto
  have "(case rprods s ! k of (ph, i, cnt) \<Rightarrow> ph = RTop \<and> cnt \<le> i)" if k: "k < length (rprods s)" for k
  proof -
    obtain ph i cnt where p: "rprods s ! k = (ph, i, cnt)" by (cases "rprods s ! k")
    have "Mutex \<longrightarrow> ph \<noteq> RQueued" using inv k p by (auto simp: rbench_inv_def)
    then show ?thesis
      using none [OF k] enter [of k] p
      by (cases ph) (auto simp: rt_producer_def mutex_producer_def split: if_splits)
  qed
  then show ?thesis by (simp add: rbench_done_def list_all_length)
qed

interpretation roundtrip: terminating_system "rbench_step Mutex B" "rbench_inv B holder Mutex counts"
    rbench_work rbench_done
  for Mutex B holder counts
  by unfold_locales (use rbench_keeps rbench_progress in blast)+

lemma run_bench_inv:
  assumes "braid_laws B holder" and "run_bench_split NELEMS p = Some counts"
    and "run_bench B NELEMS p = Some s"
  shows "rbench_inv B holder Mutex counts s \<and> rbench_work s = 4 * sum_list counts"
proof -
  have s: "s = \<lparr>serial = br_make B, rprods = map (\<lambda>cnt. (RTop, 0, cnt)) counts, calls = []\<rparr>"
    using assms(2,3) by (simp add: run_bench_def)
  have "sum_list (map (\<lambda>cnt. 4 * cnt) counts) = 4 * sum_list counts" for counts :: "nat list"
    by (induction counts) simp_all
  then show ?thesis
    using braid_make [OF assms(1)] assms(1)
    by (simp add: s rbench_inv_def rbench_work_def producer_ok_def calls_of_def called_def rt_inside_def
        rt_producer_work_def comp_def)
qed

lemma length_by_key:
  fixes n :: nat
  shows "\<forall>c\<in>set cs. fst c < n \<Longrightarrow> length cs = (\<Sum>k<n. length (map snd (filter (\<lambda>c. fst c = k) cs)))"
proof (induction cs)
  case (Cons c cs)
  have "(\<Sum>k<n. length (map snd (filter (\<lambda>d. fst d = k) (c # cs)))) =
      (\<Sum>k<n. (if k = fst c then 1 else 0) + length (map snd (filter (\<lambda>d. fst d = k) cs)))"
    by (intro sum.cong) auto
  moreover have "(\<Sum>k<n. (if k = fst c then 1 else 0)) = (1 :: nat)"
    using Cons.prems sum.delta [of "{..<n}" "fst c" "\<lambda>_. 1 :: nat"] by auto
  ultimately show ?case using Cons by (simp add: sum.distrib)
qed simp

text \<open>
  C38. A run of \<open>exec_st_roundtrip_bench\<close> with any number of producers, over a serialising executor or
  under the mutex: the consumer is called exactly \<open>NELEMS\<close> times, by each producer with \<open>0, 1, ...\<close>
  up to its share, never by two producers at a time; and the run ends, within \<open>4 NELEMS\<close> steps.
\<close>

theorem roundtrip_bench_calls:
  assumes "braid_laws B holder" and "run_bench B NELEMS prodCount = Some s"
    and run: "run_steps (rbench_step Mutex B) ks s = Some t"
  shows "length ks \<le> 4 * NELEMS \<and>
    (\<forall>j k. j < length (rprods t) \<and> k < length (rprods t) \<and> rt_inside (rprods t ! j) \<and> rt_inside (rprods t ! k) \<longrightarrow> j = k) \<and>
    (stuck (rbench_step Mutex B) t \<longrightarrow> length (calls t) = NELEMS \<and>
      (\<exists>counts. run_bench_split NELEMS prodCount = Some counts \<and>
         (\<forall>k<prodCount. calls_of k t = [0..<counts ! k])))"
proof -
  obtain counts where counts: "run_bench_split NELEMS prodCount = Some counts"
    using assms(2) by (auto simp: run_bench_def)
  have total: "sum_list counts = NELEMS" and len: "length counts = prodCount"
    using roundtrip_split.split_sum [OF counts] roundtrip_split.split_length [OF counts] by simp_all
  note start = run_bench_inv [OF assms(1) counts assms(2), of Mutex]
  have inv: "rbench_inv B holder Mutex counts t"
    using roundtrip.run_inv [OF conjunct1 [OF start] run] .
  have bound: "length ks \<le> 4 * NELEMS"
    using roundtrip.run_bound [OF conjunct1 [OF start] run] start total by linarith
  have alone: "j = k" if "j < length (rprods t)" "k < length (rprods t)" "rt_inside (rprods t ! j)"
      "rt_inside (rprods t ! k)" for j k
    using inv that by (auto simp: rbench_inv_def)
  have "length (calls t) = NELEMS \<and> (\<forall>k<prodCount. calls_of k t = [0..<counts ! k])"
    if halt: "stuck (rbench_step Mutex B) t"
  proof -
    have lt: "length (rprods t) = prodCount" and cs: "map (snd \<circ> snd) (rprods t) = counts"
      using inv len by (auto simp: rbench_inv_def)
    have own: "calls_of k t = [0..<counts ! k]" if k: "k < prodCount" for k
    proof -
      obtain i cnt where p: "rprods t ! k = (RTop, i, cnt)" "cnt \<le> i"
        using rbench_progress [OF inv halt] k lt
        by (cases "rprods t ! k") (auto simp: rbench_done_def list_all_length)
      moreover have "counts ! k = cnt" using cs p(1) k lt by (auto simp: cs [symmetric])
      ultimately show ?thesis
        using inv k lt by (auto simp: rbench_inv_def called_def producer_ok_def)
    qed
    have "length (calls t) = (\<Sum>k<prodCount. length (calls_of k t))"
      using length_by_key [of "calls t" prodCount] inv lt
      by (simp add: rbench_inv_def calls_of_def del: length_map)
    also have "\<dots> = sum_list counts"
      using own len by (simp add: sum_list_sum_nth atLeast0LessThan)
    finally show ?thesis using own total by simp
  qed
  then show ?thesis using bound alone counts by blast
qed

definition rt_schedule :: "nat list" where
  "rt_schedule = [0, 1, 1, 1, 1, 0, 0, 0, 0, 0, 0, 0]"

theorem roundtrip_bench_calls_witness:
  "\<exists>s t. run_bench option_braid 3 2 = Some s \<and> run_steps (rbench_step False option_braid) rt_schedule s = Some t \<and>
     length rt_schedule \<le> 4 * 3 \<and> calls t = [(1, 0), (0, 0), (0, 1)]"
proof -
  obtain s t where s: "run_bench option_braid 3 2 = Some s"
    and t: "run_steps (rbench_step False option_braid) rt_schedule s = Some t"
    and c: "calls t = [(1, 0), (0, 0), (0, 1)]"
    by (simp add: run_bench_def run_bench_split_def rt_schedule_def rbench_step_def rt_producer_def
        option_braid_def upt_rec)
  then show ?thesis using roundtrip_bench_calls [OF option_braid_laws s t] by blast
qed

text \<open>
  What a run prints: for a positive duration the exact quotient, and nothing defined for a duration
  below one millisecond.
\<close>

lemma run_bench_report_value:
  assumes "durMs < 2 ^ 53"
  shows "run_bench_report 1000000 durMs =
    (if durMs = 0 then None else Some (with_commas (to_string (1000000 * 1000 div durMs)), durMs))"
  using elementsPerSec_exact [of 1000000 durMs] assms
  by (auto simp: run_bench_report_def format_defs elementsPerSec_def)

lemma sweep_totals_sum:
  "sweep_totals dur m = map (\<lambda>j. \<Sum>p = 1..m. dur j p) [0..<5]"
proof (induction m)
  case 0
  then show ?case by (simp add: sweep_totals_def upt_rec numeral_eq_Suc)
next
  case (Suc m)
  have "sweep_totals dur (Suc m) = map (\<lambda>j. sweep_totals dur m ! j + dur j (Suc m)) [0..<5]"
    by (simp add: sweep_totals_def)
  then show ?case unfolding Suc by simp
qed

end
