(* ===== verification/External_Executor.thy ===== *)
theory External_Executor
  imports Prelude
begin

text \<open>
  The thread pool of \<open>examples/external/external_executor.hpp\<close> and the TMC adapter of
  \<open>external_executor.cpp\<close>. Each critical section of the mutex is one step; the condition variable
  is modelled with its sleepers, so that a notification can be lost if the code lets it.
\<close>

section \<open>The pool\<close>

text \<open>
  A thread inside \<open>run()\<close>: about to test the predicate of \<open>wait\<close> under the lock, blocked in
  \<open>wait\<close>, running a work item outside of the lock (with the posts the item has still to make),
  between \<open>push_back\<close> and \<open>notify_one\<close> of such a post, returned.
\<close>

datatype 'a rpc = RTest | RSleep | RWork "'a list" | RNotify "'a list" | RReturned

text \<open>The thread that owns the pool: posts items and finally requests the stop.\<close>

datatype 'a command = Post 'a | RequestStop

datatype 'a owner = OCommands "'a command list" | ONotifyOne "'a command list" | ONotifyAll "'a command list"

record 'a pool =
  queue :: "'a list"
  stop_requested :: bool
  threads :: "'a rpc list"
  owner :: "'a owner"
  posted :: "'a list"         \<comment> \<open>all items ever pushed, in order\<close>
  started :: "'a list"        \<comment> \<open>all items ever taken to run, in order\<close>

text \<open>The choice of an agent is which of the sleepers a \<open>notify_one\<close> wakes.\<close>

datatype pool_agent = Owner nat | Runner nat nat

definition push :: "'a \<Rightarrow> 'a pool \<Rightarrow> 'a pool" where
  "push x p = p\<lparr>queue := queue p @ [x], posted := posted p @ [x]\<rparr>"

definition notify_one :: "nat \<Rightarrow> 'a rpc list \<Rightarrow> 'a rpc list option" where
  "notify_one w ths =
     (if RSleep \<in> set ths
      then (if w < length ths \<and> ths ! w = RSleep then Some (ths[w := RTest]) else None)
      else Some ths)"

definition notify_all :: "'a rpc list \<Rightarrow> 'a rpc list" where
  "notify_all ths = map (\<lambda>t. if t = RSleep then RTest else t) ths"

text \<open>
  The loop of \<open>run()\<close> with the lock held: take the next item, or return when a stop is requested, or
  wait. \<open>posts x\<close> are the items that the work item \<open>x\<close> posts while it runs.
\<close>

definition run_locked :: "('a \<Rightarrow> 'a list) \<Rightarrow> nat \<Rightarrow> 'a pool \<Rightarrow> 'a pool" where
  "run_locked posts k p =
     (case queue p of
        x # q \<Rightarrow> p\<lparr>queue := q, started := started p @ [x], threads := (threads p)[k := RWork (posts x)]\<rparr>
      | [] \<Rightarrow> p\<lparr>threads := (threads p)[k := if stop_requested p then RReturned else RSleep]\<rparr>)"

definition run_step :: "('a \<Rightarrow> 'a list) \<Rightarrow> nat \<Rightarrow> nat \<Rightarrow> 'a pool \<Rightarrow> 'a pool option" where
  "run_step posts k w p =
     (if k < length (threads p) then
        (case threads p ! k of
           RTest \<Rightarrow> Some (run_locked posts k p)
         | RSleep \<Rightarrow> None
         | RWork [] \<Rightarrow> Some (run_locked posts k p)
         | RWork (x # xs) \<Rightarrow> Some (push x (p\<lparr>threads := (threads p)[k := RNotify xs]\<rparr>))
         | RNotify xs \<Rightarrow>
             map_option (\<lambda>ths. p\<lparr>threads := ths[k := RWork xs]\<rparr>) (notify_one w (threads p))
         | RReturned \<Rightarrow> None)
      else None)"

text \<open>\<open>post\<close> and \<open>request_stop\<close>: a critical section and a notification each.\<close>

definition owner_step :: "nat \<Rightarrow> 'a pool \<Rightarrow> 'a pool option" where
  "owner_step w p =
     (case owner p of
        OCommands [] \<Rightarrow> None
      | OCommands (Post x # cs) \<Rightarrow> Some (push x (p\<lparr>owner := ONotifyOne cs\<rparr>))
      | OCommands (RequestStop # cs) \<Rightarrow> Some (p\<lparr>stop_requested := True, owner := ONotifyAll cs\<rparr>)
      | ONotifyOne cs \<Rightarrow>
          map_option (\<lambda>ths. p\<lparr>threads := ths, owner := OCommands cs\<rparr>) (notify_one w (threads p))
      | ONotifyAll cs \<Rightarrow> Some (p\<lparr>threads := notify_all (threads p), owner := OCommands cs\<rparr>))"

fun pool_step :: "('a \<Rightarrow> 'a list) \<Rightarrow> pool_agent \<Rightarrow> 'a pool \<Rightarrow> 'a pool option" where
  "pool_step posts (Owner w) p = owner_step w p"
| "pool_step posts (Runner k w) p = run_step posts k w p"

definition pool_init :: "nat \<Rightarrow> 'a command list \<Rightarrow> 'a pool" where
  "pool_init n cs =
     \<lparr>queue = [], stop_requested = False, threads = replicate n RTest, owner = OCommands cs,
      posted = [], started = []\<rparr>"

section \<open>The adapter\<close>

text \<open>
  \<open>tmc_external_executor\<close>: a work item of the pool is a TMC item with the priority to install before
  it; \<open>post_bulk\<close> posts one at a time; the destructor requests the stop and joins the only worker.
\<close>

definition tmc_post :: "'i \<Rightarrow> nat \<Rightarrow> (nat \<times> 'i) command" where
  "tmc_post item priority = Post (priority, item)"

fun tmc_post_bulk :: "'i list \<Rightarrow> nat \<Rightarrow> nat \<Rightarrow> (nat \<times> 'i) command list" where
  "tmc_post_bulk items 0 priority = []"
| "tmc_post_bulk items (Suc n) priority =
     tmc_post (hd items) priority # tmc_post_bulk (tl items) n priority"

definition tmc_executor :: "(nat \<times> 'i) command list \<Rightarrow> (nat \<times> 'i) pool" where
  "tmc_executor cs = pool_init 1 (cs @ [RequestStop])"

text \<open>
  The functor that \<open>post\<close> hands to the pool: it writes the thread-local \<open>prio\<close> of the worker and then calls the item,
  which finds that value and may leave another one (\<open>leaves\<close>). The worker runs the functors one after the other.
\<close>

definition item_functor :: "('i \<Rightarrow> nat \<Rightarrow> nat) \<Rightarrow> nat \<times> 'i \<Rightarrow> nat \<Rightarrow> nat \<times> nat" where
  "item_functor leaves x prio = (let prio = fst x in (prio, leaves (snd x) prio))"

fun observed_priorities :: "('i \<Rightarrow> nat \<Rightarrow> nat) \<Rightarrow> nat \<Rightarrow> (nat \<times> 'i) list \<Rightarrow> nat list" where
  "observed_priorities leaves prio [] = []"
| "observed_priorities leaves prio (x # xs) =
     (case item_functor leaves x prio of (found, prio') \<Rightarrow> found # observed_priorities leaves prio' xs)"

lemma observed_priorities_fst: "observed_priorities leaves prio xs = map fst xs"
  by (induction xs arbitrary: prio) (simp_all add: item_functor_def Let_def)

section \<open>The invariant\<close>

fun awake :: "'a rpc \<Rightarrow> bool" where
  "awake RSleep = False"
| "awake RReturned = False"
| "awake _ = True"

text \<open>The commands left: posts, and one request to stop at the end.\<close>

fun stops :: "'a command list \<Rightarrow> bool" where
  "stops [] = False"
| "stops [RequestStop] = True"
| "stops (Post x # cs) = stops cs"
| "stops _ = False"

definition pool_inv :: "'a pool \<Rightarrow> bool" where
  "pool_inv p \<longleftrightarrow>
     threads p \<noteq> [] \<and> posted p = started p @ queue p \<and>
     (stop_requested p \<longrightarrow> RSleep \<notin> set (threads p) \<or> owner p = ONotifyAll []) \<and>
     (RReturned \<in> set (threads p) \<longrightarrow> stop_requested p) \<and>
     (queue p \<noteq> [] \<longrightarrow> (\<exists>t\<in>set (threads p). awake t) \<or>
        (\<exists>cs. owner p = ONotifyOne cs)) \<and>
     (if stop_requested p then owner p = OCommands [] \<or> owner p = ONotifyAll []
      else \<exists>cs. stops cs \<and> (owner p = OCommands cs \<or> owner p = ONotifyOne cs))"

lemma notify_one_Some:
  assumes "notify_one w ths = Some ths'"
  shows "length ths' = length ths" and "RReturned \<in> set ths' \<longleftrightarrow> RReturned \<in> set ths"
    and "RSleep \<in> set ths' \<Longrightarrow> RSleep \<in> set ths"
    and "(\<exists>t\<in>set ths'. awake t) \<or> (\<forall>t\<in>set ths. t = RReturned)"
    and "k < length ths \<Longrightarrow> awake (ths ! k) \<Longrightarrow> ths' ! k = ths ! k"
proof -
  show "length ths' = length ths" "k < length ths \<Longrightarrow> awake (ths ! k) \<Longrightarrow> ths' ! k = ths ! k"
    using assms by (auto simp: notify_one_def nth_list_update split: if_splits)
  show "RSleep \<in> set ths' \<Longrightarrow> RSleep \<in> set ths"
    using assms by (auto simp: notify_one_def split: if_splits)
  show "RReturned \<in> set ths' \<longleftrightarrow> RReturned \<in> set ths"
    using assms by (auto simp: notify_one_def in_set_conv_nth nth_list_update split: if_splits)
      (metis rpc.distinct)
  show "(\<exists>t\<in>set ths'. awake t) \<or> (\<forall>t\<in>set ths. t = RReturned)"
  proof (cases "RSleep \<in> set ths")
    case True
    then have "w < length ths" "ths' = ths[w := RTest]"
      using assms by (auto simp: notify_one_def split: if_splits)
    then have "RTest \<in> set ths'" by (simp add: set_update_memI)
    then show ?thesis by force
  next
    case False
    then have "ths' = ths" using assms by (simp add: notify_one_def)
    moreover have "awake t" if "t \<in> set ths" "t \<noteq> RReturned" for t
      using that False by (metis awake.simps(3-5) rpc.exhaust)
    ultimately show ?thesis by blast
  qed
qed

lemma notify_one_can: "\<exists>w ths'. notify_one w ths = Some ths'"
  by (auto simp: notify_one_def in_set_conv_nth)

lemma not_stops_Nil: "stops cs \<Longrightarrow> cs \<noteq> []"
  by auto

lemma stops_Cons: "stops (c # cs) \<Longrightarrow> (\<exists>x. c = Post x \<and> stops cs) \<or> (c = RequestStop \<and> cs = [])"
  by (cases c; cases cs) auto

lemma owner_keeps:
  assumes inv: "pool_inv p" and step: "owner_step w p = Some p'"
  shows "pool_inv p'"
proof -
  have ne: "threads p \<noteq> []" using inv by (simp add: pool_inv_def)
  consider (post) x cs where "owner p = OCommands (Post x # cs)" "p' = push x (p\<lparr>owner := ONotifyOne cs\<rparr>)"
    | (stop) cs where "owner p = OCommands (RequestStop # cs)" "p' = p\<lparr>stop_requested := True, owner := ONotifyAll cs\<rparr>"
    | (one) cs ths where "owner p = ONotifyOne cs" "notify_one w (threads p) = Some ths"
        "p' = p\<lparr>threads := ths, owner := OCommands cs\<rparr>"
    | (all) cs where "owner p = ONotifyAll cs" "p' = p\<lparr>threads := notify_all (threads p), owner := OCommands cs\<rparr>"
    using step by (auto simp: owner_step_def split: owner.splits list.splits command.splits)
  then show ?thesis
  proof cases
    case post
    then have "\<not> stop_requested p" "stops cs"
      using inv by (auto simp: pool_inv_def split: if_splits)
    then show ?thesis using inv post by (auto simp: pool_inv_def push_def)
  next
    case stop
    then have "\<not> stop_requested p" "cs = []"
      using inv by (auto simp: pool_inv_def split: if_splits dest: stops_Cons)
    then show ?thesis using inv stop by (auto simp: pool_inv_def)
  next
    case one
    then have ns: "\<not> stop_requested p" "stops cs"
      using inv by (auto simp: pool_inv_def split: if_splits)
    note N = notify_one_Some [OF one(2)]
    have "RReturned \<notin> set (threads p)" using inv ns by (auto simp: pool_inv_def)
    then have "\<exists>t\<in>set ths. awake t" using N(4) ne by (cases "threads p") auto
    moreover have "ths \<noteq> []" using N(1) ne by auto
    ultimately show ?thesis
      using inv one(1,3) ns N(2) by (auto simp: pool_inv_def)
  next
    case all
    have none: "RSleep \<notin> set (notify_all (threads p))" by (auto simp: notify_all_def)
    have "cs = []" "stop_requested p"
      using inv all by (auto simp: pool_inv_def split: if_splits)
    moreover have "(\<exists>t\<in>set (notify_all (threads p)). awake t)" if "\<exists>t\<in>set (threads p). awake t"
      using that by (force simp: notify_all_def)
    moreover have "notify_all (threads p) \<noteq> []" using ne by (simp add: notify_all_def)
    ultimately show ?thesis
      using inv all none by (auto simp: pool_inv_def)
  qed
qed

lemma run_locked_keeps:
  assumes inv: "pool_inv p" and k: "k < length (threads p)" and aw: "awake (threads p ! k)"
  shows "pool_inv (run_locked posts k p)"
proof (cases "queue p")
  case (Cons x q)
  let ?ths = "(threads p)[k := RWork (posts x)]"
  have "RWork (posts x) \<in> set ?ths" using k by (simp add: set_update_memI)
  then have "\<exists>t\<in>set ?ths. awake t" by force
  moreover have "t \<in> set ?ths \<Longrightarrow> t = RWork (posts x) \<or> t \<in> set (threads p)" for t
    by (rule set_update_le)
  ultimately show ?thesis
    using inv Cons k by (auto simp: pool_inv_def run_locked_def)
next
  case Nil
  have up: "t \<in> set ((threads p)[k := s]) \<Longrightarrow> t = s \<or> t \<in> set (threads p)" for t s
    by (rule set_update_le)
  show ?thesis
    using inv Nil k up [of RSleep RReturned] up [of RReturned RSleep] up [of RSleep RSleep]
    by (auto simp: pool_inv_def run_locked_def)
qed

lemma run_keeps:
  assumes inv: "pool_inv p" and step: "run_step posts k w p = Some p'"
  shows "pool_inv p'"
proof -
  have k: "k < length (threads p)" using step by (auto simp: run_step_def split: if_splits)
  consider (locked) "awake (threads p ! k)" "p' = run_locked posts k p"
    | (push) x xs where "threads p ! k = RWork (x # xs)" "p' = push x (p\<lparr>threads := (threads p)[k := RNotify xs]\<rparr>)"
    | (notify) xs ths where "threads p ! k = RNotify xs" "notify_one w (threads p) = Some ths"
        "p' = p\<lparr>threads := ths[k := RWork xs]\<rparr>"
    using step k by (auto simp: run_step_def split: rpc.splits list.splits)
  then show ?thesis
  proof cases
    case locked
    then show ?thesis using run_locked_keeps [OF inv k] by simp
  next
    case push
    let ?ths = "(threads p)[k := RNotify xs]"
    have "RNotify xs \<in> set ?ths" using k by (simp add: set_update_memI)
    then have "\<exists>t\<in>set ?ths. awake t" by force
    moreover have "t \<in> set ?ths \<Longrightarrow> t = RNotify xs \<or> t \<in> set (threads p)" for t
      by (rule set_update_le)
    ultimately show ?thesis
      using inv push(2) k by (auto simp: pool_inv_def push_def)
  next
    case notify
    note N = notify_one_Some [OF notify(2)]
    let ?ths = "ths[k := RWork xs]"
    have "RWork xs \<in> set ?ths" using k N(1) by (simp add: set_update_memI)
    then have "\<exists>t\<in>set ?ths. awake t" by force
    moreover have "t \<in> set ?ths \<Longrightarrow> t = RWork xs \<or> t \<in> set ths" for t
      by (rule set_update_le)
    moreover have "?ths \<noteq> []" using k N(1) by auto
    ultimately show ?thesis
      using inv notify(3) N(2,3) unfolding pool_inv_def
      by (auto simp del: list_update_nonempty)
  qed
qed

lemma pool_keeps: "pool_inv p \<Longrightarrow> pool_step posts a p = Some p' \<Longrightarrow> pool_inv p'"
  by (cases a) (auto intro: owner_keeps run_keeps)

text \<open>
  A spurious wake-up of the condition variable, which the steps leave out because nothing bounds how often it
  happens, only makes a sleeper test its predicate again, and keeps the invariant.
\<close>

lemma spurious_wakeup:
  assumes "pool_inv p" and "k < length (threads p)" and "threads p ! k = RSleep"
  shows "pool_inv (p\<lparr>threads := (threads p)[k := RTest]\<rparr>)"
proof -
  have "RTest \<in> set ((threads p)[k := RTest])" using assms(2) by (simp add: set_update_memI)
  then have "\<exists>t\<in>set ((threads p)[k := RTest]). awake t" by force
  moreover have "t \<in> set ((threads p)[k := RTest]) \<Longrightarrow> t = RTest \<or> t \<in> set (threads p)" for t
    by (rule set_update_le)
  ultimately show ?thesis using assms(1) by (auto simp: pool_inv_def)
qed

section \<open>Termination and progress\<close>

text \<open>
  A bound on the steps an item causes, for items that do not post endlessly: its own start, and a
  post, a notification and the steps of each item it posts.
\<close>

definition bounded_posts :: "('a \<Rightarrow> 'a list) \<Rightarrow> ('a \<Rightarrow> nat) \<Rightarrow> bool" where
  "bounded_posts posts cost \<longleftrightarrow> (\<forall>x. 2 + sum_list (map (\<lambda>y. cost y + 3) (posts x)) \<le> cost x)"

fun thread_work :: "('a \<Rightarrow> nat) \<Rightarrow> 'a rpc \<Rightarrow> nat" where
  "thread_work cost RReturned = 0"
| "thread_work cost RSleep = 1"
| "thread_work cost RTest = 2"
| "thread_work cost (RWork xs) = 3 + sum_list (map (\<lambda>y. cost y + 3) xs)"
| "thread_work cost (RNotify xs) = 5 + sum_list (map (\<lambda>y. cost y + 3) xs)"

fun command_work :: "('a \<Rightarrow> nat) \<Rightarrow> nat \<Rightarrow> 'a command \<Rightarrow> nat" where
  "command_work cost n (Post x) = cost x + 3"
| "command_work cost n RequestStop = n + 2"

fun owner_work :: "('a \<Rightarrow> nat) \<Rightarrow> nat \<Rightarrow> 'a owner \<Rightarrow> nat" where
  "owner_work cost n (OCommands cs) = sum_list (map (command_work cost n) cs)"
| "owner_work cost n (ONotifyOne cs) = 2 + sum_list (map (command_work cost n) cs)"
| "owner_work cost n (ONotifyAll cs) = n + 1 + sum_list (map (command_work cost n) cs)"

definition pool_work :: "('a \<Rightarrow> nat) \<Rightarrow> 'a pool \<Rightarrow> nat" where
  "pool_work cost p =
     sum_list (map cost (queue p)) + sum_list (map (thread_work cost) (threads p)) +
     owner_work cost (length (threads p)) (owner p)"

lemma notify_one_work:
  assumes "notify_one w ths = Some ths'"
  shows "sum_list (map (thread_work cost) ths') \<le> sum_list (map (thread_work cost) ths) + 1"
proof (cases "RSleep \<in> set ths")
  case True
  then have w: "w < length ths" "ths ! w = RSleep" "ths' = ths[w := RTest]"
    using assms by (auto simp: notify_one_def split: if_splits)
  then show ?thesis using sum_map_update [OF w(1), of "thread_work cost" RTest] by simp
next
  case False
  then show ?thesis using assms by (simp add: notify_one_def)
qed

lemma notify_all_work:
  "sum_list (map (thread_work cost) (notify_all ths)) \<le> sum_list (map (thread_work cost) ths) + length ths"
  by (induction ths) (auto simp: notify_all_def)

lemma owner_less:
  assumes "owner_step w p = Some p'"
  shows "pool_work cost p' < pool_work cost p"
proof -
  have all: "length (notify_all ths) = length ths" for ths :: "'a rpc list" by (simp add: notify_all_def)
  show ?thesis
    using assms notify_one_work [of w "threads p" _ cost] notify_one_Some(1) [of w "threads p"]
      notify_all_work [of cost "threads p"]
    by (auto simp: owner_step_def pool_work_def push_def all
        split: owner.splits list.splits command.splits)
qed

lemma run_less:
  assumes b: "bounded_posts posts cost" and step: "run_step posts k w p = Some p'"
  shows "pool_work cost p' < pool_work cost p"
proof -
  have k: "k < length (threads p)" using step by (auto simp: run_step_def split: if_splits)
  have locked: "pool_work cost (run_locked posts k p) < pool_work cost p"
    if "threads p ! k = RTest \<or> threads p ! k = RWork []"
  proof (cases "queue p")
    case Nil
    have "sum_list (map (thread_work cost) ((threads p)[k := if stop_requested p then RReturned else RSleep])) <
        sum_list (map (thread_work cost) (threads p))"
      using sum_map_update [OF k, of "thread_work cost" "if stop_requested p then RReturned else RSleep"] that
      by (auto split: if_splits)
    then show ?thesis using Nil by (simp add: run_locked_def pool_work_def)
  next
    case (Cons x q)
    have "2 + sum_list (map (\<lambda>y. cost y + 3) (posts x)) \<le> cost x" using b by (simp add: bounded_posts_def)
    then have "sum_list (map (thread_work cost) ((threads p)[k := RWork (posts x)])) <
        cost x + sum_list (map (thread_work cost) (threads p))"
      using sum_map_update [OF k, of "thread_work cost" "RWork (posts x)"] that by auto
    then show ?thesis using Cons by (simp add: run_locked_def pool_work_def)
  qed
  consider (locked) "threads p ! k = RTest \<or> threads p ! k = RWork []" "p' = run_locked posts k p"
    | (push) x xs where "threads p ! k = RWork (x # xs)" "p' = push x (p\<lparr>threads := (threads p)[k := RNotify xs]\<rparr>)"
    | (notify) xs ths where "threads p ! k = RNotify xs" "notify_one w (threads p) = Some ths"
        "p' = p\<lparr>threads := ths[k := RWork xs]\<rparr>"
    using step k by (auto simp: run_step_def split: rpc.splits list.splits)
  then show ?thesis
  proof cases
    case locked
    then show ?thesis using \<open>_ \<Longrightarrow> pool_work cost (run_locked posts k p) < pool_work cost p\<close> by simp
  next
    case push
    then show ?thesis
      using sum_map_update [OF k, of "thread_work cost" "RNotify xs"] by (simp add: pool_work_def push_def)
  next
    case notify
    note N = notify_one_Some [OF notify(2)]
    have k': "k < length ths" "ths ! k = RNotify xs"
      using k N(1) N(5) [OF k] notify(1) by simp_all
    show ?thesis
      using sum_map_update [OF k'(1), of "thread_work cost" "RWork xs"] k'(2)
        notify_one_work [OF notify(2), of cost] N(1) notify(3)
      by (simp add: pool_work_def)
  qed
qed

lemma pool_less:
  "bounded_posts posts cost \<Longrightarrow> pool_step posts a p = Some p' \<Longrightarrow> pool_work cost p' < pool_work cost p"
  by (cases a) (auto intro: owner_less run_less)

definition pool_final :: "'a pool \<Rightarrow> bool" where
  "pool_final p \<longleftrightarrow> queue p = [] \<and> started p = posted p \<and> owner p = OCommands [] \<and>
     (\<forall>t\<in>set (threads p). t = RReturned)"

lemma pool_progress:
  assumes inv: "pool_inv p" and stuck: "stuck (pool_step posts) p"
  shows "pool_final p"
proof -
  obtain w ths' where can: "notify_one w (threads p) = Some ths'" using notify_one_can by blast
  have own: "owner_step w p = None" using stuckD [OF stuck, of "Owner w"] by simp
  then have cs: "owner p = OCommands []"
    using can by (auto simp: owner_step_def split: owner.splits list.splits command.splits)
  then have stop: "stop_requested p"
    using inv by (auto simp: pool_inv_def split: if_splits)
  then have nosleep: "RSleep \<notin> set (threads p)"
    using inv cs by (auto simp: pool_inv_def)
  have ret: "threads p ! k = RReturned" if "k < length (threads p)" for k
  proof -
    have "run_step posts k w p = None" using stuckD [OF stuck, of "Runner k w"] by simp
    moreover have "threads p ! k \<noteq> RSleep" using nosleep that by (metis nth_mem)
    ultimately show ?thesis
      using that can by (auto simp: run_step_def split: rpc.splits list.splits)
  qed
  then have all: "\<forall>t\<in>set (threads p). t = RReturned" by (auto simp: in_set_conv_nth)
  then have "\<forall>t\<in>set (threads p). \<not> awake t" by auto
  then have "queue p = []" using inv cs by (auto simp: pool_inv_def)
  then show ?thesis using inv cs all by (simp add: pool_final_def pool_inv_def)
qed

interpretation pool_safe: invariant_system "pool_step posts" pool_inv for posts
  by unfold_locales (rule pool_keeps)

interpretation pool_run: terminating_system "pool_step posts"
    "\<lambda>p. pool_inv p \<and> bounded_posts posts cost" "pool_work cost" pool_final
  for posts and cost :: "'a \<Rightarrow> nat"
  by unfold_locales (auto intro: pool_keeps pool_less pool_progress)

lemma pool_init_inv: "0 < n \<Longrightarrow> stops cs \<Longrightarrow> pool_inv (pool_init n cs)"
  by (auto simp: pool_inv_def pool_init_def)

lemma stops_append: "stops (map Post xs @ [RequestStop])"
  by (induction xs) auto

lemma pool_init_work:
  "pool_work cost (pool_init n cs) = 2 * n + sum_list (map (command_work cost n) cs)"
  by (simp add: pool_work_def pool_init_def sum_list_replicate)

text \<open>
  C24. The thread pool of \<open>examples/external/external_executor.hpp\<close> runs every item exactly once and
  starts them in the order in which they were posted, whichever threads post them and however many
  threads are inside \<open>run()\<close>; no wake-up is lost between \<open>push_back\<close> and \<open>notify_one\<close> or around
  the stop request: when nothing can run any more the queue is empty and every \<open>run()\<close> has
  returned, and no \<open>run()\<close> returns before the stop is requested. If the items do not post endlessly
  this takes a bounded number of steps.
\<close>

theorem external_executor_runs_all:
  assumes "0 < n" and "stops cs" and "bounded_posts posts cost"
    and "run_steps (pool_step posts) ks (pool_init n cs) = Some p"
  shows "posted p = started p @ queue p \<and>
    (RReturned \<in> set (threads p) \<longrightarrow> stop_requested p) \<and>
    (stuck (pool_step posts) p \<longrightarrow> pool_final p) \<and>
    length ks \<le> 2 * n + sum_list (map (command_work cost n) cs)"
proof -
  note start = pool_init_inv [OF assms(1,2)]
  have inv: "pool_inv p" by (rule pool_safe.run_inv [OF start assms(4)])
  have "length ks \<le> pool_work cost (pool_init n cs)"
    using pool_run.run_bound [of "pool_init n cs" posts cost ks p] start assms(3,4) by simp
  then show ?thesis
    using inv pool_progress [OF inv] by (auto simp: pool_inv_def pool_init_work)
qed

section \<open>The adapter keeps order and priorities\<close>

fun command_items :: "'a command list \<Rightarrow> 'a list" where
  "command_items [] = []"
| "command_items (Post x # cs) = x # command_items cs"
| "command_items (RequestStop # cs) = command_items cs"

fun owner_items :: "'a owner \<Rightarrow> 'a list" where
  "owner_items (OCommands cs) = command_items cs"
| "owner_items (ONotifyOne cs) = command_items cs"
| "owner_items (ONotifyAll cs) = command_items cs"

text \<open>Items that post nothing: the threads add nothing to what the owner posts.\<close>

definition silent :: "'a list \<Rightarrow> 'a pool \<Rightarrow> bool" where
  "silent xs p \<longleftrightarrow> posted p @ owner_items (owner p) = xs \<and>
     (\<forall>t\<in>set (threads p). t \<in> {RTest, RSleep, RWork [], RReturned})"

lemma silent_step:
  assumes "silent xs p" and "pool_step (\<lambda>_. []) a p = Some p'"
  shows "silent xs p'"
proof (cases a)
  case (Owner w)
  have "t \<in> set ths \<Longrightarrow> t = RTest \<or> t \<in> set (threads p)" if "notify_one w (threads p) = Some ths" for t ths
    using that set_update_le by (fastforce simp: notify_one_def split: if_splits)
  then show ?thesis
    using assms Owner
    by (fastforce simp: silent_def owner_step_def push_def notify_all_def
        split: owner.splits list.splits command.splits)
next
  case (Runner k w)
  then have k: "k < length (threads p)" using assms(2) by (auto simp: run_step_def split: if_splits)
  then have "threads p ! k \<in> {RTest, RSleep, RWork [], RReturned}"
    using assms(1) by (auto simp: silent_def)
  then have "p' = run_locked (\<lambda>_. []) k p"
    using assms(2) Runner k by (auto simp: run_step_def)
  then show ?thesis
    using assms(1) set_update_le
    by (fastforce simp: silent_def run_locked_def split: list.splits if_splits)
qed

interpretation silent_run: invariant_system "pool_step (\<lambda>_. [])" "silent xs" for xs
  by unfold_locales (rule silent_step)

lemma command_items_bulk:
  "n \<le> length items \<Longrightarrow>
   command_items (tmc_post_bulk items n prio @ cs) = map (Pair prio) (take n items) @ command_items cs"
proof (induction n arbitrary: items)
  case (Suc n)
  then show ?case by (cases items) (auto simp: tmc_post_def)
qed simp

lemma stops_bulk: "stops (tmc_post_bulk items n prio @ cs) = stops cs"
  by (induction items n prio rule: tmc_post_bulk.induct) (auto simp: tmc_post_def)

lemma threads_length:
  "run_steps (pool_step posts) ks p = Some p' \<Longrightarrow> length (threads p') = length (threads p)"
proof (induction ks arbitrary: p)
  case (Cons a ks)
  then obtain u where u: "pool_step posts a p = Some u" and r: "run_steps (pool_step posts) ks u = Some p'"
    by (auto split: option.splits)
  have "length (threads u) = length (threads p)"
    using u notify_one_Some(1)
    by (cases a) (fastforce simp: owner_step_def run_step_def run_locked_def push_def notify_all_def
        split: owner.splits list.splits command.splits rpc.splits if_splits)+
  then show ?case using Cons.IH [OF r] by simp
qed simp

text \<open>
  C25. \<open>tmc_external_executor\<close>: after two \<open>post_bulk\<close>s and the destructor the one worker has run
  exactly the items handed over, in that order, each with the priority it was posted with installed
  whatever priority the items before it have left behind, and the worker can be joined.
\<close>

theorem tmc_external_executor_order:
  assumes "m \<le> length items" and "n \<le> length items'"
    and "run_steps (pool_step (\<lambda>_. [])) ks
      (tmc_executor (tmc_post_bulk items m prio @ tmc_post_bulk items' n prio')) = Some p"
    and "stuck (pool_step (\<lambda>_. [])) p"
  shows "started p = map (Pair prio) (take m items) @ map (Pair prio') (take n items') \<and>
    observed_priorities leaves q (started p) = replicate m prio @ replicate n prio' \<and>
    threads p = [RReturned]"
proof -
  let ?cs = "tmc_post_bulk items m prio @ tmc_post_bulk items' n prio' @ [RequestStop]"
  let ?xs = "map (Pair prio) (take m items) @ map (Pair prio') (take n items')"
  have init: "tmc_executor (tmc_post_bulk items m prio @ tmc_post_bulk items' n prio') = pool_init 1 ?cs"
    by (simp add: tmc_executor_def)
  have "silent ?xs (pool_init 1 ?cs)"
    using command_items_bulk [OF assms(1)] command_items_bulk [OF assms(2), of prio' "[RequestStop]"]
    by (simp add: silent_def pool_init_def)
  then have silent: "silent ?xs p" by (rule silent_run.run_inv) (use assms(3) init in simp)
  have "pool_inv (pool_init 1 ?cs)" by (rule pool_init_inv) (simp_all add: stops_bulk)
  then have inv: "pool_inv p" by (rule pool_safe.run_inv) (use assms(3) init in simp)
  then have fin: "pool_final p" by (rule pool_progress) (rule assms(4))
  then have st: "started p = ?xs" using silent by (simp add: pool_final_def silent_def)
  have "length (threads p) = 1"
    using threads_length [OF assms(3)] by (simp add: init pool_init_def)
  then have "threads p = [RReturned]"
    using fin by (cases "threads p") (auto simp: pool_final_def)
  moreover have "observed_priorities leaves q (started p) = replicate m prio @ replicate n prio'"
    using assms(1,2) by (simp add: st observed_priorities_fst comp_def map_replicate_const min_absorb2)
  ultimately show ?thesis using st by simp
qed

section \<open>A closed example\<close>

definition pool_end :: "(nat \<times> nat) pool" where
  "pool_end = \<lparr>queue = [], stop_requested = True, threads = [RReturned], owner = OCommands [],
     posted = [(1, 7), (0, 8)], started = [(1, 7), (0, 8)]\<rparr>"

definition pool_schedule :: "pool_agent list" where
  "pool_schedule = [Runner 0 0, Owner 0, Owner 0, Runner 0 0, Runner 0 0, Owner 0, Owner 0, Runner 0 0,
     Runner 0 0, Owner 0, Owner 0, Runner 0 0]"

lemma pool_example_run:
  "run_steps (pool_step (\<lambda>_. [])) pool_schedule
     (tmc_executor (tmc_post_bulk [7] 1 1 @ tmc_post_bulk [8] 1 0)) = Some pool_end"
  by (simp add: pool_schedule_def tmc_executor_def pool_init_def tmc_post_def owner_step_def run_step_def
      run_locked_def push_def notify_one_def notify_all_def pool_end_def)

lemma pool_end_stuck: "stuck (pool_step (\<lambda>_. [])) pool_end"
  unfolding stuck_def
proof
  fix a
  show "pool_step (\<lambda>_. []) a pool_end = None"
    by (cases a) (auto simp: pool_end_def owner_step_def run_step_def)
qed

theorem tmc_external_executor_order_witness: "observed_priorities (\<lambda>i p. p + i) 5 (started pool_end) = [1, 0]"
  using tmc_external_executor_order [OF _ _ pool_example_run pool_end_stuck, of "\<lambda>i p. p + i" 5]
  by (auto simp del: observed_priorities.simps)

theorem external_executor_runs_all_witness: "pool_final pool_end \<and> length pool_schedule \<le> 2 * 1 + 13"
proof -
  have "bounded_posts (\<lambda>_. []) (\<lambda>_ :: nat \<times> nat. 2)" by (simp add: bounded_posts_def)
  moreover have "tmc_executor (tmc_post_bulk [7] 1 1 @ tmc_post_bulk [8] 1 0) =
      pool_init 1 [Post (1, 7), Post (0, 8 :: nat), RequestStop]"
    by (simp add: tmc_executor_def tmc_post_def)
  ultimately show ?thesis
    using external_executor_runs_all [of 1 "[Post (1, 7), Post (0, 8), RequestStop]" "\<lambda>_. []" "\<lambda>_. 2"
        pool_schedule pool_end] pool_example_run pool_end_stuck by simp
qed

end
