(* ===== verification/Thread_Names.thy ===== *)
theory Thread_Names
  imports Format
begin

text \<open>
  The thread names of \<open>examples/util/thread_name.hpp\<close> and \<open>examples/asio/asio_thread_name.hpp\<close>: a
  thread-local string that the init hook of an executor sets, and what a thread without one is called.
\<close>

definition get_thread_name :: "string \<Rightarrow> string \<Rightarrow> string" where
  "get_thread_name thread_name tid =
     (if thread_name = [] then ''external thread '' @ tid else thread_name)"

text \<open>The init hooks of \<open>ex_cpu\<close> and \<open>ex_asio\<close>, and the line of the teardown hook.\<close>

definition cpu_thread_name :: "nat \<Rightarrow> string" where
  "cpu_thread_name slot = ''cpu thread '' @ to_string slot"

definition asio_thread_name :: "nat \<Rightarrow> string" where
  "asio_thread_name slot = ''i/o thread '' @ to_string slot"

definition teardown_line :: "string \<Rightarrow> string \<Rightarrow> string" where
  "teardown_line thread_name tid = ''destroying '' @ get_thread_name thread_name tid"

lemma names_shown [simp]:
  "get_thread_name (cpu_thread_name i) tid = cpu_thread_name i"
  "get_thread_name (asio_thread_name i) tid = asio_thread_name i"
  "get_thread_name [] tid = ''external thread '' @ tid"
  by (simp_all add: get_thread_name_def cpu_thread_name_def asio_thread_name_def)

text \<open>The names of the two kinds of threads never clash.\<close>

lemma names_distinct: "cpu_thread_name i \<noteq> asio_thread_name j"
  by (simp add: cpu_thread_name_def asio_thread_name_def)

end
