(* ===== verification/External_Demo.thy ===== *)
theory External_Demo
  imports External_Executor Thread_Names
begin

text \<open>
  The program \<open>examples/external/external_executor.cpp\<close> as a whole: the thread pool and its adapter
  (theory \<open>External_Executor\<close>) composed with \<open>tmc::ex_cpu\<close>, the coroutines of \<open>main\<close> that go from
  one executor to the other and back, with the thread names of theory \<open>Thread_Names\<close>. Of
  \<open>ex_cpu\<close> the documented contract is used: each thread first runs the init hook, and a posted item
  is run once, by any of the threads.
\<close>

section \<open>Coroutines\<close>

datatype place = OnCpu | OnExternal

text \<open>
  Where a task can be resumed: the coroutine of the first or second demo (by the executor \<open>main\<close>
  posts it to) at its start, its child, which knows the executor that the parent was running on
  when it suspended, and the parent after \<open>co_await\<close>.
\<close>

datatype point = Start place | Child place "place option" | Resume place

fun other_place :: "place \<Rightarrow> place" where
  "other_place OnCpu = OnExternal"
| "other_place OnExternal = OnCpu"

fun point_lines :: "string \<Rightarrow> point \<Rightarrow> string list" where
  "point_lines name (Start d) = [''coro started on '' @ name, ''co_awaiting...'']"
| "point_lines name (Child d home) = [''child task on '' @ name @ ''...'']"
| "point_lines name (Resume d) = [''coro resumed on '' @ name]"

text \<open>
  What follows: \<open>spawn(child_task()).run_on(\<dots>)\<close> posts the child to the other executor, the end of
  the child posts the parent to the executor it came from, the end of the parent makes the future of
  \<open>main\<close> ready. Without the thread-local executor pointer there is nowhere to go back to.
\<close>

datatype transfer = Send place point | Fulfil place | Crash

fun leave :: "place option \<Rightarrow> point \<Rightarrow> transfer" where
  "leave executor (Start d) = Send (other_place d) (Child d executor)"
| "leave executor (Child d (Some home)) = Send home (Resume d)"
| "leave executor (Child d None) = Crash"
| "leave executor (Resume d) = Fulfil d"

section \<open>The program\<close>

datatype cthread = CBoot | CIdle | CRun point | CLeave point | CNotify

datatype wthread = WSetExecutor | WSetName | WLoop | WRun point | WLeave point | WNotify

datatype mpc = MFirst | MWait place | MSecond | MNotify | MStop | MNotifyAll | MJoin | MDestroy | MEnd

record demo =
  main :: mpc
  pool :: "(nat \<times> point) pool"
  ext :: wthread                       \<comment> \<open>the adapter's thread, around \<open>pool.run()\<close>\<close>
  ext_executor :: "place option"       \<comment> \<open>its thread-locals\<close>
  ext_name :: string
  cpu_queue :: "point list"
  cpus :: "cthread list"
  cpu_names :: "string list"
  finished :: "place list"
  printed :: "string list"
  destroyed :: bool                    \<comment> \<open>the adapter, and in it the pool, is out of scope\<close>
  late_lock :: bool                    \<comment> \<open>the mutex or the queue was used after that\<close>
  late_notify :: bool                  \<comment> \<open>the condition variable was\<close>

section \<open>\<open>executor_traits\<close>\<close>

text \<open>
  What TMC calls to hand work to the adapter: the traits forward to \<open>post\<close> and \<open>post_bulk\<close>, drop the
  thread hint, and \<open>dispatch\<close> posts the coroutine and gives the caller a no-op to continue with
  (\<open>None\<close>), so that the coroutine never runs on the caller's thread.
\<close>

definition traits_post :: "'i \<Rightarrow> nat \<Rightarrow> nat option \<Rightarrow> (nat \<times> 'i) command list" where
  "traits_post item priority hint = [tmc_post item priority]"

definition traits_post_bulk :: "'i list \<Rightarrow> nat \<Rightarrow> nat \<Rightarrow> nat option \<Rightarrow> (nat \<times> 'i) command list" where
  "traits_post_bulk items cnt priority hint = tmc_post_bulk items cnt priority"

definition traits_dispatch :: "'i \<Rightarrow> nat \<Rightarrow> (nat \<times> 'i) command list \<times> 'i option" where
  "traits_dispatch outer priority = ([tmc_post outer priority], None)"

lemma traits_items:
  "command_items (traits_post item priority hint) = [(priority, item)]"
  "cnt \<le> length items \<Longrightarrow>
     command_items (traits_post_bulk items cnt priority hint) = map (Pair priority) (take cnt items)"
  "command_items (fst (traits_dispatch item priority)) = [(priority, item)]"
  using command_items_bulk [of cnt items priority "[]"]
  by (simp_all add: traits_post_def traits_post_bulk_def traits_dispatch_def tmc_post_def)

section \<open>The program as a transition system\<close>

text \<open>A critical section of the pool, and a notification, are faults once the pool has been destroyed.\<close>

definition lock_pool :: "demo \<Rightarrow> demo" where
  "lock_pool p = p\<lparr>late_lock := late_lock p \<or> destroyed p\<rparr>"

definition notify_pool :: "demo \<Rightarrow> demo" where
  "notify_pool p = p\<lparr>late_notify := late_notify p \<or> destroyed p\<rparr>"

lemma lock_pool_simps [simp]:
  "main (lock_pool p) = main p" "pool (lock_pool p) = pool p" "ext (lock_pool p) = ext p"
  "ext_executor (lock_pool p) = ext_executor p" "ext_name (lock_pool p) = ext_name p"
  "cpu_queue (lock_pool p) = cpu_queue p" "cpus (lock_pool p) = cpus p" "cpu_names (lock_pool p) = cpu_names p"
  "finished (lock_pool p) = finished p" "printed (lock_pool p) = printed p" "destroyed (lock_pool p) = destroyed p"
  "late_lock (lock_pool p) = (late_lock p \<or> destroyed p)" "late_notify (lock_pool p) = late_notify p"
  by (simp_all add: lock_pool_def)

lemma notify_pool_simps [simp]:
  "main (notify_pool p) = main p" "pool (notify_pool p) = pool p" "ext (notify_pool p) = ext p"
  "ext_executor (notify_pool p) = ext_executor p" "ext_name (notify_pool p) = ext_name p"
  "cpu_queue (notify_pool p) = cpu_queue p" "cpus (notify_pool p) = cpus p" "cpu_names (notify_pool p) = cpu_names p"
  "finished (notify_pool p) = finished p" "printed (notify_pool p) = printed p" "destroyed (notify_pool p) = destroyed p"
  "late_lock (notify_pool p) = late_lock p" "late_notify (notify_pool p) = (late_notify p \<or> destroyed p)"
  by (simp_all add: notify_pool_def)

definition send_external :: "point \<Rightarrow> demo \<Rightarrow> demo" where
  "send_external q p = lock_pool (p\<lparr>pool := fold push (command_items (traits_post q 0 None)) (pool p)\<rparr>)"

lemma send_external_eq: "send_external q p = lock_pool (p\<lparr>pool := push (0, q) (pool p)\<rparr>)"
  by (simp add: send_external_def traits_items)

definition send_cpu :: "point \<Rightarrow> demo \<Rightarrow> demo" where
  "send_cpu q p = p\<lparr>cpu_queue := cpu_queue p @ [q]\<rparr>"

text \<open>
  \<open>main\<close>: banner, post and wait, twice; then the destructor of \<open>tmc_external_executor\<close>, which requests the
  stop and joins the worker, and at last the end of its members.
\<close>

definition main_step :: "nat \<Rightarrow> demo \<Rightarrow> demo option" where
  "main_step w p =
     (case main p of
        MFirst \<Rightarrow> Some (send_cpu (Start OnCpu) (p\<lparr>main := MWait OnCpu,
          printed := printed p @ [''tmc::ex_cpu -> external_executor -> tmc::ex_cpu'']\<rparr>))
      | MWait d \<Rightarrow>
          (if d \<in> set (finished p) then Some (p\<lparr>main := if d = OnCpu then MSecond else MStop\<rparr>) else None)
      | MSecond \<Rightarrow> Some (send_external (Start OnExternal) (p\<lparr>main := MNotify,
          printed := printed p @ ['''', ''external_executor -> tmc::ex_cpu -> external_executor'']\<rparr>))
      | MNotify \<Rightarrow>
          map_option (\<lambda>ths. notify_pool (p\<lparr>pool := (pool p)\<lparr>threads := ths\<rparr>, main := MWait OnExternal\<rparr>))
            (notify_one w (threads (pool p)))
      | MStop \<Rightarrow> Some (lock_pool (p\<lparr>pool := (pool p)\<lparr>stop_requested := True\<rparr>, main := MNotifyAll\<rparr>))
      | MNotifyAll \<Rightarrow>
          Some (notify_pool (p\<lparr>pool := (pool p)\<lparr>threads := notify_all (threads (pool p))\<rparr>, main := MJoin\<rparr>))
      | MJoin \<Rightarrow> (if threads (pool p) = [RReturned] then Some (p\<lparr>main := MDestroy\<rparr>) else None)
      | MDestroy \<Rightarrow> Some (p\<lparr>main := MEnd, destroyed := True\<rparr>)
      | MEnd \<Rightarrow> None)"

text \<open>
  The adapter's thread installs its executor pointer and name, then is in \<open>run()\<close>, from which it
  runs the items it takes.
\<close>

definition ext_step :: "string \<Rightarrow> nat \<Rightarrow> demo \<Rightarrow> demo option" where
  "ext_step tid w p =
     (case ext p of
        WSetExecutor \<Rightarrow> Some (p\<lparr>ext_executor := Some OnExternal, ext := WSetName\<rparr>)
      | WSetName \<Rightarrow> Some (p\<lparr>ext_name := ''external thread'', ext := WLoop\<rparr>)
      | WLoop \<Rightarrow>
          (case run_step (\<lambda>_. []) 0 w (pool p) of
             None \<Rightarrow> None
           | Some q \<Rightarrow>
               Some (lock_pool (p\<lparr>pool := q,
                       ext := if length (started (pool p)) < length (started q)
                              then WRun (snd (last (started q))) else WLoop\<rparr>)))
      | WRun c \<Rightarrow>
          Some (p\<lparr>printed := printed p @ point_lines (get_thread_name (ext_name p) tid) c, ext := WLeave c\<rparr>)
      | WLeave c \<Rightarrow>
          (case leave (ext_executor p) c of
             Send OnCpu q \<Rightarrow> Some (send_cpu q (p\<lparr>ext := WLoop\<rparr>))
           | Send OnExternal q \<Rightarrow> Some (send_external q (p\<lparr>ext := WNotify\<rparr>))
           | Fulfil d \<Rightarrow> Some (p\<lparr>finished := d # finished p, ext := WLoop\<rparr>)
           | Crash \<Rightarrow> None)
      | WNotify \<Rightarrow>
          map_option (\<lambda>ths. notify_pool (p\<lparr>pool := (pool p)\<lparr>threads := ths\<rparr>, ext := WLoop\<rparr>))
            (notify_one w (threads (pool p))))"

text \<open>A thread of \<open>ex_cpu\<close>: the hook of \<open>hook_init_ex_cpu_thread_name\<close>, then items.\<close>

definition cpu_thread_step :: "string \<Rightarrow> nat \<Rightarrow> nat \<Rightarrow> demo \<Rightarrow> demo option" where
  "cpu_thread_step tid i w p =
     (if i < length (cpus p) then
        (case cpus p ! i of
           CBoot \<Rightarrow> Some (p\<lparr>cpu_names := (cpu_names p)[i := cpu_thread_name i], cpus := (cpus p)[i := CIdle]\<rparr>)
         | CIdle \<Rightarrow>
             (if w < length (cpu_queue p) then
                Some (p\<lparr>cpu_queue := take w (cpu_queue p) @ drop (Suc w) (cpu_queue p),
                        cpus := (cpus p)[i := CRun (cpu_queue p ! w)]\<rparr>)
              else None)
         | CRun c \<Rightarrow>
             Some (p\<lparr>printed := printed p @ point_lines (get_thread_name (cpu_names p ! i) tid) c,
                     cpus := (cpus p)[i := CLeave c]\<rparr>)
         | CLeave c \<Rightarrow>
             (case leave (Some OnCpu) c of
                Send OnCpu q \<Rightarrow> Some (send_cpu q (p\<lparr>cpus := (cpus p)[i := CIdle]\<rparr>))
              | Send OnExternal q \<Rightarrow> Some (send_external q (p\<lparr>cpus := (cpus p)[i := CNotify]\<rparr>))
              | Fulfil d \<Rightarrow> Some (p\<lparr>finished := d # finished p, cpus := (cpus p)[i := CIdle]\<rparr>)
              | Crash \<Rightarrow> None)
         | CNotify \<Rightarrow>
             map_option (\<lambda>ths. notify_pool (p\<lparr>pool := (pool p)\<lparr>threads := ths\<rparr>, cpus := (cpus p)[i := CIdle]\<rparr>))
               (notify_one w (threads (pool p))))
      else None)"

datatype demo_agent = MainThread nat | ExternalThread nat | CpuThread nat nat

fun demo_step :: "string \<Rightarrow> demo_agent \<Rightarrow> demo \<Rightarrow> demo option" where
  "demo_step tid (MainThread w) p = main_step w p"
| "demo_step tid (ExternalThread w) p = ext_step tid w p"
| "demo_step tid (CpuThread i w) p = cpu_thread_step tid i w p"

definition demo_init :: "nat \<Rightarrow> demo" where
  "demo_init n =
     \<lparr>main = MFirst, pool = pool_init 1 [], ext = WSetExecutor, ext_executor = None, ext_name = [],
      cpu_queue = [], cpus = replicate n CBoot, cpu_names = replicate n [], finished = [], printed = [],
      destroyed = False, late_lock = False, late_notify = False\<rparr>"

section \<open>Where the program is\<close>

text \<open>
  There is one thread of control that matters; \<open>pos\<close> says where it is. In \<open>Busy d s h\<close> the coroutine
  of demo \<open>d\<close> is at stage \<open>s\<close>: queued, taken by a thread, or with its lines printed.
\<close>

datatype stage = AtStart | AtChild | AtResume

datatype holder = Queued | Taken nat | Printed nat

datatype pos = Begin | Busy place stage holder | Done place | Between | Stopping | Notifying | Joining

fun point_at :: "place \<Rightarrow> stage \<Rightarrow> point" where
  "point_at d AtStart = Start d"
| "point_at d AtChild = Child d (Some d)"
| "point_at d AtResume = Resume d"

fun place_of :: "place \<Rightarrow> stage \<Rightarrow> place" where
  "place_of d AtChild = other_place d"
| "place_of d _ = d"

fun queued :: "place \<Rightarrow> pos \<Rightarrow> point list" where
  "queued pl (Busy d s Queued) = (if place_of d s = pl then [point_at d s] else [])"
| "queued pl _ = []"

fun main_ok :: "pos \<Rightarrow> mpc \<Rightarrow> bool" where
  "main_ok Begin m = (m = MFirst)"
| "main_ok (Busy OnCpu s h) m = (m = MWait OnCpu)"
| "main_ok (Done OnCpu) m = (m = MWait OnCpu)"
| "main_ok Between m = (m = MSecond)"
| "main_ok (Busy OnExternal s h) m = (m \<in> {MNotify, MWait OnExternal})"
| "main_ok (Done OnExternal) m = (m \<in> {MNotify, MWait OnExternal})"
| "main_ok Stopping m = (m = MStop)"
| "main_ok Notifying m = (m = MNotifyAll)"
| "main_ok Joining m = (m \<in> {MJoin, MDestroy, MEnd})"

fun finished_at :: "pos \<Rightarrow> place list" where
  "finished_at Begin = []"
| "finished_at (Busy OnCpu s h) = []"
| "finished_at (Done OnCpu) = [OnCpu]"
| "finished_at Between = [OnCpu]"
| "finished_at (Busy OnExternal s h) = [OnCpu]"
| "finished_at _ = [OnExternal, OnCpu]"

fun cpu_ok :: "pos \<Rightarrow> nat \<Rightarrow> cthread \<Rightarrow> bool" where
  "cpu_ok (Busy d s (Taken k)) i c =
     (if place_of d s = OnCpu \<and> k = i then c = CRun (point_at d s) else c \<in> {CBoot, CIdle, CNotify})"
| "cpu_ok (Busy d s (Printed k)) i c =
     (if place_of d s = OnCpu \<and> k = i then c = CLeave (point_at d s) else c \<in> {CBoot, CIdle, CNotify})"
| "cpu_ok _ i c = (c \<in> {CBoot, CIdle, CNotify})"

fun ext_ok :: "pos \<Rightarrow> wthread \<Rightarrow> bool" where
  "ext_ok (Busy d s (Taken k)) e =
     (if place_of d s = OnExternal then e = WRun (point_at d s) else e \<in> {WSetExecutor, WSetName, WLoop})"
| "ext_ok (Busy d s (Printed k)) e =
     (if place_of d s = OnExternal then e = WLeave (point_at d s) else e \<in> {WSetExecutor, WSetName, WLoop})"
| "ext_ok _ e = (e \<in> {WSetExecutor, WSetName, WLoop})"

fun holder_ok :: "nat \<Rightarrow> pos \<Rightarrow> bool" where
  "holder_ok n (Busy d s (Taken k)) = (place_of d s = OnCpu \<longrightarrow> k < n)"
| "holder_ok n (Busy d s (Printed k)) = (place_of d s = OnCpu \<longrightarrow> k < n)"
| "holder_ok n _ = True"

subsection \<open>What has been printed\<close>

text \<open>The eight pieces of the output; thread numbers below \<open>n\<close> are open.\<close>

definition block :: "nat \<Rightarrow> nat \<Rightarrow> string list set" where
  "block n k =
     ([{[''tmc::ex_cpu -> external_executor -> tmc::ex_cpu'']},
       {point_lines (cpu_thread_name i) (Start OnCpu) | i. i < n},
       {point_lines ''external thread'' (Child OnCpu (Some OnCpu))},
       {point_lines (cpu_thread_name i) (Resume OnCpu) | i. i < n},
       {['''', ''external_executor -> tmc::ex_cpu -> external_executor'']},
       {point_lines ''external thread'' (Start OnExternal)},
       {point_lines (cpu_thread_name i) (Child OnExternal (Some OnExternal)) | i. i < n},
       {point_lines ''external thread'' (Resume OnExternal)}] ! k)"

fun transcript :: "nat \<Rightarrow> nat \<Rightarrow> string list \<Rightarrow> bool" where
  "transcript n 0 out = (out = [])"
| "transcript n (Suc k) out = (\<exists>a b. out = a @ b \<and> transcript n k a \<and> b \<in> block n k)"

fun stage_nr :: "stage \<Rightarrow> nat" where
  "stage_nr AtStart = 0"
| "stage_nr AtChild = 1"
| "stage_nr AtResume = 2"

fun place_nr :: "place \<Rightarrow> nat" where
  "place_nr OnCpu = 1"
| "place_nr OnExternal = 5"

fun pieces :: "pos \<Rightarrow> nat" where
  "pieces Begin = 0"
| "pieces (Busy d s (Printed k)) = place_nr d + stage_nr s + 1"
| "pieces (Busy d s h) = place_nr d + stage_nr s"
| "pieces (Done OnCpu) = 4"
| "pieces Between = 4"
| "pieces _ = 8"

subsection \<open>The invariant\<close>

definition workers_ok :: "nat \<Rightarrow> pos \<Rightarrow> demo \<Rightarrow> bool" where
  "workers_ok n pos p \<longleftrightarrow>
     length (cpus p) = n \<and> length (cpu_names p) = n \<and>
     (\<forall>i<n. cpu_ok pos i (cpus p ! i) \<and>
        (cpus p ! i \<noteq> CBoot \<longrightarrow> cpu_names p ! i = cpu_thread_name i)) \<and>
     ext_ok pos (ext p) \<and>
     (ext p \<noteq> WSetExecutor \<longrightarrow> ext_executor p = Some OnExternal) \<and>
     (ext p \<notin> {WSetExecutor, WSetName} \<longrightarrow> ext_name p = ''external thread'')"

definition thread_ok :: "pos \<Rightarrow> demo \<Rightarrow> (nat \<times> point) rpc \<Rightarrow> bool" where
  "thread_ok pos p t \<longleftrightarrow>
     t \<in> {RTest, RSleep, RWork [], RReturned} \<and>
     (t \<in> {RSleep, RReturned} \<longrightarrow> ext p = WLoop) \<and>
     (t = RReturned \<longrightarrow> pos \<in> {Notifying, Joining}) \<and>
     (t = RSleep \<longrightarrow> pos \<noteq> Joining) \<and>
     (main p \<in> {MDestroy, MEnd} \<longrightarrow> t = RReturned) \<and>
     (t = RSleep \<and> queued OnExternal pos \<noteq> [] \<longrightarrow> main p = MNotify \<or> CNotify \<in> set (cpus p))"

definition pool_ok :: "pos \<Rightarrow> demo \<Rightarrow> bool" where
  "pool_ok pos p \<longleftrightarrow>
     queue (pool p) = map (Pair 0) (queued OnExternal pos) \<and>
     stop_requested (pool p) = (pos \<in> {Notifying, Joining}) \<and>
     (\<exists>t. threads (pool p) = [t] \<and> thread_ok pos p t)"

definition demo_at :: "nat \<Rightarrow> pos \<Rightarrow> demo \<Rightarrow> bool" where
  "demo_at n pos p \<longleftrightarrow>
     main_ok pos (main p) \<and> finished p = finished_at pos \<and> cpu_queue p = queued OnCpu pos \<and>
     holder_ok n pos \<and> workers_ok n pos p \<and> pool_ok pos p \<and> transcript n (pieces pos) (printed p)"

lemma transcript_step: "transcript n k out \<Longrightarrow> b \<in> block n k \<Longrightarrow> transcript n (Suc k) (out @ b)"
  by auto

declare transcript.simps(2) [simp del]

lemma block_shown:
  "place_of d s = OnCpu \<Longrightarrow> i < n \<Longrightarrow>
     point_lines (cpu_thread_name i) (point_at d s) \<in> block n (place_nr d + stage_nr s)"
  "place_of d s = OnExternal \<Longrightarrow>
     point_lines ''external thread'' (point_at d s) \<in> block n (place_nr d + stage_nr s)"
  by (cases d; cases s; auto simp: block_def numeral_eq_Suc)+

lemma notify_one_single: "notify_one w [t] = Some ths \<Longrightarrow> ths = [if t = RSleep then RTest else t]"
  by (auto simp: notify_one_def split: if_splits)

lemma demo_main_keeps:
  assumes at: "demo_at n pos p" and step: "main_step w p = Some p'"
  shows "\<exists>pos'. demo_at n pos' p'"
proof -
  have bits: "main_ok pos (main p)" "finished p = finished_at pos" "cpu_queue p = queued OnCpu pos"
    "holder_ok n pos" "workers_ok n pos p" "pool_ok pos p" "transcript n (pieces pos) (printed p)"
    using at by (simp_all add: demo_at_def)
  obtain t where t: "threads (pool p) = [t]" "thread_ok pos p t" using bits(6) by (auto simp: pool_ok_def)
  show ?thesis
  proof (cases "main p")
    case MFirst
    then have pos: "pos = Begin" using bits(1) by (auto elim!: main_ok.elims)
    have "''tmc::ex_cpu -> external_executor -> tmc::ex_cpu'' # [] \<in> block n 0" by (simp add: block_def)
    note transcript_step [OF bits(7) [unfolded pos pieces.simps] this]
    moreover have "p' = send_cpu (Start OnCpu) (p\<lparr>main := MWait OnCpu,
        printed := printed p @ [''tmc::ex_cpu -> external_executor -> tmc::ex_cpu'']\<rparr>)"
      using step MFirst by (simp add: main_step_def)
    ultimately have "demo_at n (Busy OnCpu AtStart Queued) p'"
      using bits t by (auto simp: demo_at_def send_cpu_def workers_ok_def pool_ok_def thread_ok_def pos)
    then show ?thesis by blast
  next
    case (MWait d)
    then have d: "d \<in> set (finished_at pos)"
      and p': "p' = p\<lparr>main := if d = OnCpu then MSecond else MStop\<rparr>"
      using step bits(2) by (auto simp: main_step_def split: if_splits)
    have "pos = Done d"
      using bits(1) d MWait by (auto elim!: main_ok.elims)
    then have "demo_at n (if d = OnCpu then Between else Stopping) p'"
      using bits MWait t
      by (cases d) (auto simp: demo_at_def p' workers_ok_def pool_ok_def thread_ok_def)
    then show ?thesis by blast
  next
    case MSecond
    then have pos: "pos = Between" using bits(1) by (auto elim!: main_ok.elims)
    have "['''', ''external_executor -> tmc::ex_cpu -> external_executor''] \<in> block n 4"
      by (simp add: block_def numeral_eq_Suc)
    note transcript_step [OF bits(7) [unfolded pos pieces.simps] this]
    moreover have "p' = send_external (Start OnExternal) (p\<lparr>main := MNotify, printed := printed p @
        ['''', ''external_executor -> tmc::ex_cpu -> external_executor'']\<rparr>)"
      using step MSecond by (simp add: main_step_def)
    ultimately have "demo_at n (Busy OnExternal AtStart Queued) p'"
      using bits t by (auto simp: demo_at_def send_external_eq push_def workers_ok_def pool_ok_def thread_ok_def pos)
    then show ?thesis by blast
  next
    case MNotify
    then obtain ths where ths: "notify_one w [t] = Some ths"
      and p': "p' = notify_pool (p\<lparr>pool := (pool p)\<lparr>threads := ths\<rparr>, main := MWait OnExternal\<rparr>)"
      using step t by (auto simp: main_step_def)
    have "main_ok pos (MWait OnExternal)" "pos \<notin> {Notifying, Joining}"
      using bits(1) MNotify by (auto elim!: main_ok.elims)
    moreover have "pool_ok pos p'"
      using bits(6) t calculation(2) unfolding pool_ok_def p' notify_one_single [OF ths]
      by (simp add: thread_ok_def) blast
    moreover have "workers_ok n pos p'" using bits(5) by (simp add: workers_ok_def p')
    ultimately have "demo_at n pos p'" using bits by (simp add: demo_at_def p')
    then show ?thesis by blast
  next
    case MStop
    then have pos: "pos = Stopping" using bits(1) by (auto elim!: main_ok.elims)
    have p': "p' = lock_pool (p\<lparr>pool := (pool p)\<lparr>stop_requested := True\<rparr>, main := MNotifyAll\<rparr>)"
      using step MStop by (simp add: main_step_def)
    have "pool_ok Notifying p'"
      using bits(6) t unfolding pool_ok_def p' pos by (simp add: thread_ok_def)
    moreover have "workers_ok n Notifying p'" using bits(5) by (simp add: workers_ok_def p' pos)
    ultimately have "demo_at n Notifying p'" using bits by (simp add: demo_at_def p' pos)
    then show ?thesis by blast
  next
    case MNotifyAll
    then have pos: "pos = Notifying" using bits(1) by (auto elim!: main_ok.elims)
    have p': "p' = notify_pool (p\<lparr>pool := (pool p)\<lparr>threads := notify_all (threads (pool p))\<rparr>, main := MJoin\<rparr>)"
      using step MNotifyAll by (simp add: main_step_def)
    have "pool_ok Joining p'"
      using bits(6) t unfolding pool_ok_def p' pos by (simp add: thread_ok_def notify_all_def) blast
    moreover have "workers_ok n Joining p'" using bits(5) by (simp add: workers_ok_def p' pos)
    ultimately have "demo_at n Joining p'" using bits by (simp add: demo_at_def p' pos)
    then show ?thesis by blast
  next
    case MJoin
    then have pos: "pos = Joining" using bits(1) by (auto elim!: main_ok.elims)
    have p': "p' = p\<lparr>main := MDestroy\<rparr>" and ret: "threads (pool p) = [RReturned]"
      using step MJoin by (auto simp: main_step_def split: if_splits)
    have "pool_ok Joining p'"
      using bits(6) t ret unfolding pool_ok_def p' pos by (simp add: thread_ok_def)
    moreover have "workers_ok n Joining p'" using bits(5) by (simp add: workers_ok_def p' pos)
    ultimately have "demo_at n Joining p'" using bits by (simp add: demo_at_def p' pos)
    then show ?thesis by blast
  next
    case MDestroy
    then have pos: "pos = Joining" using bits(1) by (auto elim!: main_ok.elims)
    have p': "p' = p\<lparr>main := MEnd, destroyed := True\<rparr>" using step MDestroy by (simp add: main_step_def)
    have "pool_ok Joining p'"
      using bits(6) t MDestroy unfolding pool_ok_def p' pos by (simp add: thread_ok_def)
    moreover have "workers_ok n Joining p'" using bits(5) by (simp add: workers_ok_def p' pos)
    ultimately have "demo_at n Joining p'" using bits by (simp add: demo_at_def p' pos)
    then show ?thesis by blast
  next
    case MEnd
    then show ?thesis using step by (simp add: main_step_def)
  qed
qed

lemma ext_ok_free:
  "ext_ok pos WSetExecutor \<Longrightarrow> ext_ok pos WSetName" "ext_ok pos WSetName \<Longrightarrow> ext_ok pos WLoop"
  "\<not> ext_ok pos WNotify"
  by (cases "(pos, WLoop)" rule: ext_ok.cases; auto split: if_splits)+

lemma ext_ok_holds:
  "ext_ok pos (WRun c) \<Longrightarrow> \<exists>d s k. pos = Busy d s (Taken k) \<and> place_of d s = OnExternal \<and> c = point_at d s"
  "ext_ok pos (WLeave c) \<Longrightarrow> \<exists>d s k. pos = Busy d s (Printed k) \<and> place_of d s = OnExternal \<and> c = point_at d s"
  by (cases "(pos, WLoop)" rule: ext_ok.cases; auto split: if_splits)+

lemma cpu_ok_holds:
  "cpu_ok pos i (CRun c) \<Longrightarrow> \<exists>d s. pos = Busy d s (Taken i) \<and> place_of d s = OnCpu \<and> c = point_at d s"
  "cpu_ok pos i (CLeave c) \<Longrightarrow> \<exists>d s. pos = Busy d s (Printed i) \<and> place_of d s = OnCpu \<and> c = point_at d s"
  by (cases "(pos, i, CIdle)" rule: cpu_ok.cases; auto split: if_splits)+

lemma cpu_ok_free: "c \<in> {CBoot, CIdle, CNotify} \<Longrightarrow> c' \<in> {CBoot, CIdle, CNotify} \<Longrightarrow> cpu_ok pos i c \<Longrightarrow> cpu_ok pos i c'"
  by (cases "(pos, i, c)" rule: cpu_ok.cases) (auto split: if_splits)

lemma queued_Cons: "queued pl pos = q # qs \<Longrightarrow>
    \<exists>d s. pos = Busy d s Queued \<and> place_of d s = pl \<and> q = point_at d s \<and> qs = []"
  by (cases "(pl, pos)" rule: queued.cases) (auto split: if_splits)

lemma place_cases:
  "place_of d s = OnExternal \<Longrightarrow> (d = OnCpu \<and> s = AtChild) \<or> (d = OnExternal \<and> s \<noteq> AtChild)"
  "place_of d s = OnCpu \<Longrightarrow> (d = OnExternal \<and> s = AtChild) \<or> (d = OnCpu \<and> s \<noteq> AtChild)"
  by (cases d; cases s; simp)+

lemma main_ok_busy: "main_ok (Busy d s h) m = main_ok (Busy d s' h') m"
  by (cases d) simp_all

lemma finished_at_busy: "finished_at (Busy d s h) = finished_at (Busy d s' h')"
  by (cases d) simp_all

lemma ext_keeps:
  assumes at: "demo_at n pos p" and step: "ext_step tid w p = Some p'"
  shows "\<exists>pos'. demo_at n pos' p'"
proof -
  have bits: "main_ok pos (main p)" "finished p = finished_at pos" "cpu_queue p = queued OnCpu pos"
    "holder_ok n pos" "workers_ok n pos p" "pool_ok pos p" "transcript n (pieces pos) (printed p)"
    using at by (simp_all add: demo_at_def)
  obtain t where t: "threads (pool p) = [t]" "thread_ok pos p t" using bits(6) by (auto simp: pool_ok_def)
  have pool: "queue (pool p) = map (Pair 0) (queued OnExternal pos)"
    "stop_requested (pool p) = (pos \<in> {Notifying, Joining})"
    using bits(6) by (simp_all add: pool_ok_def)
  have ext: "ext_ok pos (ext p)" using bits(5) by (simp add: workers_ok_def)
  show ?thesis
  proof (cases "ext p")
    case WSetExecutor
    then have p': "p' = p\<lparr>ext_executor := Some OnExternal, ext := WSetName\<rparr>"
      using step by (simp add: ext_step_def)
    have "workers_ok n pos p'"
      using bits(5) ext_ok_free(1) WSetExecutor by (simp add: workers_ok_def p')
    moreover have "pool_ok pos p'" using pool t WSetExecutor by (auto simp: pool_ok_def p' thread_ok_def)
    ultimately have "demo_at n pos p'" using bits by (simp add: demo_at_def p')
    then show ?thesis by blast
  next
    case WSetName
    then have p': "p' = p\<lparr>ext_name := ''external thread'', ext := WLoop\<rparr>"
      using step by (simp add: ext_step_def)
    have "workers_ok n pos p'"
      using bits(5) ext_ok_free(2) WSetName by (simp add: workers_ok_def p')
    moreover have "pool_ok pos p'" using pool t WSetName by (auto simp: pool_ok_def p' thread_ok_def)
    ultimately have "demo_at n pos p'" using bits by (simp add: demo_at_def p')
    then show ?thesis by blast
  next
    case WLoop
    then have "t \<in> {RTest, RWork []}"
      and q: "run_step (\<lambda>_. []) 0 w (pool p) = Some (run_locked (\<lambda>_. []) 0 (pool p))"
      using step t by (auto simp: ext_step_def run_step_def thread_ok_def)
    show ?thesis
    proof (cases "queued OnExternal pos")
      case Nil
      then have p': "p' = lock_pool (p\<lparr>pool := (pool p)\<lparr>threads := [if stop_requested (pool p) then RReturned else RSleep]\<rparr>,
          ext := WLoop\<rparr>)"
        using step WLoop q pool t by (simp add: ext_step_def run_locked_def)
      have "pool_ok pos p'" "workers_ok n pos p'"
        using pool t bits(5) Nil WLoop \<open>t \<in> _\<close> by (auto simp: pool_ok_def p' thread_ok_def workers_ok_def)
      then have "demo_at n pos p'" using bits by (simp add: demo_at_def p')
      then show ?thesis by blast
    next
      case (Cons c cs)
      then obtain d s where pos: "pos = Busy d s Queued" "place_of d s = OnExternal" "c = point_at d s" "cs = []"
        using queued_Cons by blast
      have p': "p' = lock_pool (p\<lparr>pool := (pool p)\<lparr>queue := [], started := started (pool p) @ [(0, c)], threads := [RWork []]\<rparr>,
          ext := WRun c\<rparr>)"
        using step WLoop q pool t Cons pos by (simp add: ext_step_def run_locked_def)
      have "workers_ok n (Busy d s (Taken 0)) p'"
        using bits(5) pos WLoop by (auto simp: workers_ok_def p')
      moreover have "pool_ok (Busy d s (Taken 0)) p'"
        using pool t pos by (auto simp: pool_ok_def p' thread_ok_def)
      ultimately have "demo_at n (Busy d s (Taken 0)) p'"
        using bits pos main_ok_busy finished_at_busy
        by (simp add: demo_at_def p') metis
      then show ?thesis by blast
    qed
  next
    case (WRun c)
    then obtain d s k where pos: "pos = Busy d s (Taken k)" "place_of d s = OnExternal" "c = point_at d s"
      using ext ext_ok_holds by metis
    have name: "get_thread_name (ext_name p) tid = ''external thread''"
      using bits(5) WRun by (simp add: workers_ok_def get_thread_name_def)
    have p': "p' = p\<lparr>printed := printed p @ point_lines ''external thread'' c, ext := WLeave c\<rparr>"
      using step WRun name by (simp add: ext_step_def)
    have "workers_ok n (Busy d s (Printed k)) p'" using bits(5) pos WRun by (auto simp: workers_ok_def p')
    moreover have "pool_ok (Busy d s (Printed k)) p'"
      using pool t pos WRun by (auto simp: pool_ok_def p' thread_ok_def)
    moreover have "transcript n (pieces (Busy d s (Printed k))) (printed p')"
      using transcript_step [OF bits(7)] block_shown(2) pos by (simp add: p')
    ultimately have "demo_at n (Busy d s (Printed k)) p'"
      using bits pos main_ok_busy finished_at_busy by (simp add: demo_at_def p') metis
    then show ?thesis by blast
  next
    case (WLeave c)
    then obtain d s k where pos: "pos = Busy d s (Printed k)" "place_of d s = OnExternal" "c = point_at d s"
      using ext ext_ok_holds by metis
    have exec: "ext_executor p = Some OnExternal" using bits(5) WLeave by (simp add: workers_ok_def)
    consider "d = OnCpu" "s = AtChild" | "d = OnExternal" "s = AtStart" | "d = OnExternal" "s = AtResume"
      using place_cases(1) [OF pos(2)] by (cases s) auto
    then show ?thesis
    proof cases
      case 1
      have p': "p' = p\<lparr>ext := WLoop, cpu_queue := [Resume OnCpu]\<rparr>"
        using step WLeave pos 1 bits(3) by (simp add: ext_step_def send_cpu_def)
      have "demo_at n (Busy OnCpu AtResume Queued) p'"
        using bits pool t pos 1 WLeave by (auto simp: demo_at_def p' workers_ok_def pool_ok_def thread_ok_def)
      then show ?thesis by blast
    next
      case 2
      have p': "p' = p\<lparr>ext := WLoop, cpu_queue := [Child OnExternal (Some OnExternal)]\<rparr>"
        using step WLeave pos 2 bits(3) exec by (simp add: ext_step_def send_cpu_def)
      have "demo_at n (Busy OnExternal AtChild Queued) p'"
        using bits pool t pos 2 WLeave by (auto simp: demo_at_def p' workers_ok_def pool_ok_def thread_ok_def)
      then show ?thesis by blast
    next
      case 3
      have p': "p' = p\<lparr>finished := [OnExternal, OnCpu], ext := WLoop\<rparr>"
        using step WLeave pos 3 bits(2) by (simp add: ext_step_def)
      have "demo_at n (Done OnExternal) p'"
        using bits pool t pos 3 WLeave by (auto simp: demo_at_def p' workers_ok_def pool_ok_def thread_ok_def)
      then show ?thesis by blast
    qed
  next
    case WNotify
    then show ?thesis using ext ext_ok_free(3) by simp
  qed
qed

lemma workers_ok_update:
  assumes "workers_ok n pos p" and "i < n" and "cpu_ok pos' i c"
    and "\<And>j. j \<noteq> i \<Longrightarrow> cpu_ok pos j (cpus p ! j) \<Longrightarrow> cpu_ok pos' j (cpus p ! j)"
    and "ext_ok pos (ext p) \<Longrightarrow> ext_ok pos' (ext p)" and "cpus p ! i \<noteq> CBoot"
    and "cpus p' = (cpus p)[i := c]" "cpu_names p' = cpu_names p" "ext p' = ext p"
      "ext_executor p' = ext_executor p" "ext_name p' = ext_name p"
  shows "workers_ok n pos' p'"
  using assms by (auto simp: workers_ok_def nth_list_update)

lemma cpu_keeps_demo:
  assumes at: "demo_at n pos p" and step: "cpu_thread_step tid i w p = Some p'"
  shows "\<exists>pos'. demo_at n pos' p'"
proof -
  have bits: "main_ok pos (main p)" "finished p = finished_at pos" "cpu_queue p = queued OnCpu pos"
    "holder_ok n pos" "workers_ok n pos p" "pool_ok pos p" "transcript n (pieces pos) (printed p)"
    using at by (simp_all add: demo_at_def)
  obtain t where t: "threads (pool p) = [t]" "thread_ok pos p t" using bits(6) by (auto simp: pool_ok_def)
  have pool: "queue (pool p) = map (Pair 0) (queued OnExternal pos)"
    "stop_requested (pool p) = (pos \<in> {Notifying, Joining})"
    using bits(6) by (simp_all add: pool_ok_def)
  have i: "i < n" "length (cpus p) = n"
    using step bits(5) by (auto simp: cpu_thread_step_def workers_ok_def split: if_splits)
  have cpu: "cpu_ok pos i (cpus p ! i)" using bits(5) i by (simp add: workers_ok_def)
  have notifier: "CNotify \<in> set ((cpus p)[i := c])"
    if some: "CNotify \<in> set (cpus p)" and other: "cpus p ! i \<noteq> CNotify" for c
  proof -
    obtain j where j: "j < length (cpus p)" "cpus p ! j = CNotify"
      using some by (auto simp: in_set_conv_nth)
    then have "(cpus p)[i := c] ! j = CNotify" using other by (cases "i = j") simp_all
    then show ?thesis using j(1) by (metis length_list_update nth_mem)
  qed
  show ?thesis
  proof (cases "cpus p ! i")
    case CBoot
    then have p': "p' = p\<lparr>cpu_names := (cpu_names p)[i := cpu_thread_name i], cpus := (cpus p)[i := CIdle]\<rparr>"
      using step i by (simp add: cpu_thread_step_def)
    have "workers_ok n pos p'"
      using bits(5) i cpu_ok_free [of CBoot CIdle pos i] CBoot
      by (auto simp: workers_ok_def p' nth_list_update)
    moreover have "pool_ok pos p'"
      using pool t notifier CBoot by (auto simp: pool_ok_def p' thread_ok_def)
    ultimately have "demo_at n pos p'" using bits by (simp add: demo_at_def p')
    then show ?thesis by blast
  next
    case CIdle
    then have w: "w < length (queued OnCpu pos)"
      using step i bits(3) by (auto simp: cpu_thread_step_def split: if_splits)
    then obtain q qs where "queued OnCpu pos = q # qs" by (cases "queued OnCpu pos") auto
    then obtain d s where pos: "pos = Busy d s Queued" "place_of d s = OnCpu" "q = point_at d s" "qs = []"
      and one: "queued OnCpu pos = [point_at d s]"
      using queued_Cons by metis
    have p': "p' = p\<lparr>cpu_queue := [], cpus := (cpus p)[i := CRun (point_at d s)]\<rparr>"
      using step CIdle i bits(3) w one by (simp add: cpu_thread_step_def)
    have "workers_ok n (Busy d s (Taken i)) p'"
      by (rule workers_ok_update [OF bits(5) i(1), where c = "CRun (point_at d s)"])
        (use pos CIdle in \<open>auto simp: p'\<close>)
    moreover have "pool_ok (Busy d s (Taken i)) p'"
      using pool t pos by (auto simp: pool_ok_def p' thread_ok_def)
    ultimately have "demo_at n (Busy d s (Taken i)) p'"
      using bits pos i main_ok_busy finished_at_busy by (simp add: demo_at_def p') metis
    then show ?thesis by blast
  next
    case (CRun c)
    then obtain d s where pos: "pos = Busy d s (Taken i)" "place_of d s = OnCpu" "c = point_at d s"
      using cpu cpu_ok_holds by metis
    have name: "cpu_names p ! i = cpu_thread_name i" using bits(5) CRun i by (simp add: workers_ok_def)
    have p': "p' = p\<lparr>printed := printed p @ point_lines (cpu_thread_name i) c, cpus := (cpus p)[i := CLeave c]\<rparr>"
      using step CRun name i by (simp add: cpu_thread_step_def)
    have "workers_ok n (Busy d s (Printed i)) p'"
      by (rule workers_ok_update [OF bits(5) i(1), where c = "CLeave c"]) (use pos CRun in \<open>auto simp: p'\<close>)
    moreover have "pool_ok (Busy d s (Printed i)) p'"
      using pool t pos by (auto simp: pool_ok_def p' thread_ok_def)
    moreover have "transcript n (pieces (Busy d s (Printed i))) (printed p')"
      using transcript_step [OF bits(7)] block_shown(1) pos i by (simp add: p')
    ultimately have "demo_at n (Busy d s (Printed i)) p'"
      using bits pos i main_ok_busy finished_at_busy by (simp add: demo_at_def p') metis
    then show ?thesis by blast
  next
    case (CLeave c)
    then obtain d s where pos: "pos = Busy d s (Printed i)" "place_of d s = OnCpu" "c = point_at d s"
      using cpu cpu_ok_holds by metis
    consider "d = OnExternal" "s = AtChild" | "d = OnCpu" "s = AtStart" | "d = OnCpu" "s = AtResume"
      using place_cases(2) [OF pos(2)] by (cases s) auto
    then show ?thesis
    proof cases
      case 1
      have p': "p' = lock_pool (p\<lparr>cpus := (cpus p)[i := CNotify], pool := push (0, Resume OnExternal) (pool p)\<rparr>)"
        using step CLeave pos 1 i by (simp add: cpu_thread_step_def send_external_eq)
      have "workers_ok n (Busy OnExternal AtResume Queued) p'"
        by (rule workers_ok_update [OF bits(5) i(1), where c = CNotify]) (use pos 1 CLeave in \<open>auto simp: p'\<close>)
      moreover have "pool_ok (Busy OnExternal AtResume Queued) p'"
        using pool t pos 1 i by (auto simp: pool_ok_def p' thread_ok_def push_def set_update_memI)
      ultimately have "demo_at n (Busy OnExternal AtResume Queued) p'"
        using bits pos 1 by (simp add: demo_at_def p')
      then show ?thesis by blast
    next
      case 2
      have p': "p' = lock_pool (p\<lparr>cpus := (cpus p)[i := CNotify], pool := push (0, Child OnCpu (Some OnCpu)) (pool p)\<rparr>)"
        using step CLeave pos 2 i by (simp add: cpu_thread_step_def send_external_eq)
      have "workers_ok n (Busy OnCpu AtChild Queued) p'"
        by (rule workers_ok_update [OF bits(5) i(1), where c = CNotify]) (use pos 2 CLeave in \<open>auto simp: p'\<close>)
      moreover have "pool_ok (Busy OnCpu AtChild Queued) p'"
        using pool t pos 2 i by (auto simp: pool_ok_def p' thread_ok_def push_def set_update_memI)
      ultimately have "demo_at n (Busy OnCpu AtChild Queued) p'"
        using bits pos 2 by (simp add: demo_at_def p')
      then show ?thesis by blast
    next
      case 3
      have p': "p' = p\<lparr>finished := [OnCpu], cpus := (cpus p)[i := CIdle]\<rparr>"
        using step CLeave pos 3 i bits(2) by (simp add: cpu_thread_step_def)
      have "workers_ok n (Done OnCpu) p'"
        by (rule workers_ok_update [OF bits(5) i(1), where c = CIdle]) (use pos 3 CLeave in \<open>auto simp: p'\<close>)
      moreover have "pool_ok (Done OnCpu) p'"
        using pool t pos 3 by (auto simp: pool_ok_def p' thread_ok_def)
      ultimately have "demo_at n (Done OnCpu) p'"
        using bits pos 3 by (simp add: demo_at_def p' numeral_eq_Suc)
      then show ?thesis by blast
    qed
  next
    case CNotify
    then obtain ths where ths: "notify_one w [t] = Some ths"
      and p': "p' = notify_pool (p\<lparr>pool := (pool p)\<lparr>threads := ths\<rparr>, cpus := (cpus p)[i := CIdle]\<rparr>)"
      using step i t by (auto simp: cpu_thread_step_def)
    have "workers_ok n pos p'"
      by (rule workers_ok_update [OF bits(5) i(1), where c = CIdle])
        (use cpu cpu_ok_free [of CNotify CIdle pos i] CNotify in \<open>auto simp: p'\<close>)
    moreover have "pool_ok pos p'"
      using pool t unfolding pool_ok_def p' notify_one_single [OF ths] by (simp add: thread_ok_def) blast
    ultimately have "demo_at n pos p'" using bits by (simp add: demo_at_def p')
    then show ?thesis by blast
  qed
qed

section \<open>Termination and progress\<close>

fun point_work :: "point \<Rightarrow> nat" where
  "point_work (Start d) = 13"
| "point_work (Child d home) = 8"
| "point_work (Resume d) = 3"

fun cpu_thread_work :: "cthread \<Rightarrow> nat" where
  "cpu_thread_work CBoot = 1"
| "cpu_thread_work CIdle = 0"
| "cpu_thread_work (CRun c) = point_work c - 1"
| "cpu_thread_work (CLeave c) = point_work c - 2"
| "cpu_thread_work CNotify = 2"

fun ext_work :: "wthread \<Rightarrow> nat" where
  "ext_work WSetExecutor = 2"
| "ext_work WSetName = 1"
| "ext_work WLoop = 0"
| "ext_work (WRun c) = point_work c - 1"
| "ext_work (WLeave c) = point_work c - 2"
| "ext_work WNotify = 2"

fun main_work :: "mpc \<Rightarrow> nat" where
  "main_work MFirst = 37"
| "main_work (MWait OnCpu) = 23"
| "main_work MSecond = 22"
| "main_work MNotify = 8"
| "main_work (MWait OnExternal) = 6"
| "main_work MStop = 5"
| "main_work MNotifyAll = 4"
| "main_work MJoin = 2"
| "main_work MDestroy = 1"
| "main_work MEnd = 0"

fun sleeper_work :: "(nat \<times> point) rpc \<Rightarrow> nat" where
  "sleeper_work RReturned = 0"
| "sleeper_work RSleep = 1"
| "sleeper_work _ = 2"

definition demo_work :: "demo \<Rightarrow> nat" where
  "demo_work p =
     main_work (main p) + ext_work (ext p) + sum_list (map cpu_thread_work (cpus p)) +
     sum_list (map point_work (cpu_queue p)) + sum_list (map (\<lambda>x. point_work (snd x)) (queue (pool p))) +
     sum_list (map sleeper_work (threads (pool p)))"

lemma notify_one_sleeper:
  "notify_one w [t] = Some ths \<Longrightarrow> sum_list (map sleeper_work ths) \<le> sleeper_work t + 1"
  using notify_one_single by fastforce

lemma main_less:
  assumes at: "demo_at n pos p" and step: "main_step w p = Some p'"
  shows "demo_work p' < demo_work p"
proof -
  obtain t where t: "threads (pool p) = [t]" using at by (auto simp: demo_at_def pool_ok_def)
  show ?thesis
  proof (cases "main p")
    case (MWait d)
    then show ?thesis
      using step by (cases d) (auto simp: main_step_def demo_work_def split: if_splits)
  next
    case MNotify
    then show ?thesis
      using step t notify_one_sleeper [of w t] by (fastforce simp: main_step_def demo_work_def)
  next
    case MNotifyAll
    then show ?thesis
      using step t by (cases t) (auto simp: main_step_def demo_work_def notify_all_def)
  qed (use step in \<open>auto simp: main_step_def demo_work_def send_cpu_def send_external_eq push_def
         split: if_splits\<close>)
qed

lemma leave_work: "leave executor c = Send pl q \<Longrightarrow> point_work q + 4 < point_work c"
  by (cases "(executor, c)" rule: leave.cases) auto

lemma point_work_ge: "3 \<le> point_work c"
  by (cases c) auto

lemma ext_less:
  assumes at: "demo_at n pos p" and step: "ext_step tid w p = Some p'"
  shows "demo_work p' < demo_work p"
proof -
  have ext: "ext_ok pos (ext p)" using at by (simp add: demo_at_def workers_ok_def)
  obtain t where t: "threads (pool p) = [t]" "thread_ok pos p t" using at by (auto simp: demo_at_def pool_ok_def)
  show ?thesis
  proof (cases "ext p")
    case WLoop
    then have "t \<in> {RTest, RWork []}"
      and q: "run_step (\<lambda>_. []) 0 w (pool p) = Some (run_locked (\<lambda>_. []) 0 (pool p))"
      using step t by (auto simp: ext_step_def run_step_def thread_ok_def)
    then have "sleeper_work t = 2" by auto
    then show ?thesis
      using step WLoop q t point_work_ge [of "snd (hd (queue (pool p)))"]
      by (cases "queue (pool p)") (auto simp: ext_step_def run_locked_def demo_work_def)
  next
    case (WRun c)
    then show ?thesis using step point_work_ge [of c] by (auto simp: ext_step_def demo_work_def)
  next
    case (WLeave c)
    then show ?thesis
      using step leave_work [of "ext_executor p" c] point_work_ge [of c]
      by (fastforce simp: ext_step_def demo_work_def send_cpu_def send_external_eq push_def
          split: transfer.splits place.splits)
  next
    case WNotify
    then show ?thesis using ext ext_ok_free(3) by simp
  qed (use step in \<open>auto simp: ext_step_def demo_work_def\<close>)
qed

lemma cpu_less:
  assumes at: "demo_at n pos p" and step: "cpu_thread_step tid i w p = Some p'"
  shows "demo_work p' < demo_work p"
proof -
  have i: "i < length (cpus p)" using step by (auto simp: cpu_thread_step_def split: if_splits)
  obtain t where t: "threads (pool p) = [t]" using at by (auto simp: demo_at_def pool_ok_def)
  note up = sum_map_update [OF i, of cpu_thread_work]
  show ?thesis
  proof (cases "cpus p ! i")
    case CBoot
    then show ?thesis using step i up [of CIdle] by (auto simp: cpu_thread_step_def demo_work_def)
  next
    case CIdle
    then have w: "w < length (cpu_queue p)"
      and p': "p' = p\<lparr>cpu_queue := take w (cpu_queue p) @ drop (Suc w) (cpu_queue p),
        cpus := (cpus p)[i := CRun (cpu_queue p ! w)]\<rparr>"
      using step i by (auto simp: cpu_thread_step_def split: if_splits)
    have "sum_list (map point_work (cpu_queue p)) = point_work (cpu_queue p ! w) +
        sum_list (map point_work (take w (cpu_queue p) @ drop (Suc w) (cpu_queue p)))"
      by (subst id_take_nth_drop [OF w]) simp
    then show ?thesis
      using CIdle up [of "CRun (cpu_queue p ! w)"] point_work_ge [of "cpu_queue p ! w"]
      by (simp add: demo_work_def p')
  next
    case (CRun c)
    then show ?thesis
      using step i up [of "CLeave c"] point_work_ge [of c] by (auto simp: cpu_thread_step_def demo_work_def)
  next
    case (CLeave c)
    then show ?thesis
      using step i up [of CIdle] up [of CNotify] leave_work [of "Some OnCpu" c] point_work_ge [of c]
      by (fastforce simp: cpu_thread_step_def demo_work_def send_cpu_def send_external_eq push_def
          split: transfer.splits place.splits)
  next
    case CNotify
    then show ?thesis
      using step i t up [of CIdle] notify_one_sleeper [of w t]
      by (fastforce simp: cpu_thread_step_def demo_work_def)
  qed
qed

subsection \<open>The end of the pool\<close>

text \<open>
  When the pool is destroyed its worker has returned and no item is left anywhere, so nobody enters a critical section
  any more. Only a thread of \<open>ex_cpu\<close> that has pushed an item and not yet notified is still about to use it.
\<close>

definition life_ok :: "demo \<Rightarrow> bool" where
  "life_ok p \<longleftrightarrow> destroyed p = (main p = MEnd) \<and> \<not> late_lock p \<and> (late_notify p \<longrightarrow> destroyed p)"

lemma ended_at:
  assumes "demo_at n pos p" and "main p = MEnd"
  shows "pos = Joining" and "threads (pool p) = [RReturned]" and "ext p = WLoop"
    and "i < n \<Longrightarrow> cpus p ! i \<in> {CBoot, CIdle, CNotify}"
proof -
  show pos: "pos = Joining" using assms by (auto simp: demo_at_def elim!: main_ok.elims)
  obtain t where t: "threads (pool p) = [t]" "thread_ok pos p t" using assms(1) by (auto simp: demo_at_def pool_ok_def)
  then have "t = RReturned" using assms(2) by (simp add: thread_ok_def)
  then show "threads (pool p) = [RReturned]" "ext p = WLoop" using t by (simp_all add: thread_ok_def)
  show "cpus p ! i \<in> {CBoot, CIdle, CNotify}" if "i < n"
    using assms(1) that by (auto simp: demo_at_def workers_ok_def pos)
qed

lemma life_keeps:
  assumes at: "demo_at n pos p" and life: "life_ok p" and step: "demo_step tid a p = Some p'"
  shows "life_ok p'"
proof (cases "main p = MEnd")
  case True
  note E = ended_at [OF at True]
  have n: "length (cpus p) = n" using at by (simp add: demo_at_def workers_ok_def)
  show ?thesis
  proof (cases a)
    case (MainThread w)
    then show ?thesis using step True by (simp add: main_step_def)
  next
    case (ExternalThread w)
    then show ?thesis using step E(2,3) by (simp add: ext_step_def run_step_def)
  next
    case (CpuThread i w)
    then have i: "i < n" using step n by (auto simp: cpu_thread_step_def split: if_splits)
    show ?thesis
      using step life True E(4) [OF i] i n CpuThread
      by (auto simp: cpu_thread_step_def life_ok_def split: if_splits)
  qed
next
  case False
  then have d: "\<not> destroyed p" "\<not> late_lock p" "\<not> late_notify p" using life by (auto simp: life_ok_def)
  show ?thesis
  proof (cases a)
    case (MainThread w)
    then show ?thesis
      using step d False
      by (auto simp: main_step_def life_ok_def send_cpu_def send_external_eq split: mpc.splits if_splits)
  next
    case (ExternalThread w)
    then show ?thesis
      using step d False
      by (auto simp: ext_step_def life_ok_def send_cpu_def send_external_eq
          split: wthread.splits transfer.splits place.splits option.splits)
  next
    case (CpuThread i w)
    then show ?thesis
      using step d False
      by (auto simp: cpu_thread_step_def life_ok_def send_cpu_def send_external_eq
          split: cthread.splits transfer.splits place.splits if_splits)
  qed
qed

definition demo_inv :: "nat \<Rightarrow> demo \<Rightarrow> bool" where
  "demo_inv n p \<longleftrightarrow> 0 < n \<and> (\<exists>pos. demo_at n pos p) \<and> life_ok p"

lemma demo_keeps:
  assumes "demo_inv n p" and "demo_step tid a p = Some p'"
  shows "demo_inv n p'"
proof -
  obtain pos where n: "0 < n" and at: "demo_at n pos p" and life: "life_ok p"
    using assms(1) by (auto simp: demo_inv_def)
  have "\<exists>pos'. demo_at n pos' p'"
    using assms(2) demo_main_keeps [OF at] ext_keeps [OF at] cpu_keeps_demo [OF at] by (cases a) auto
  then show ?thesis using n life_keeps [OF at life assms(2)] by (simp add: demo_inv_def)
qed

lemma demo_less: "demo_inv n p \<Longrightarrow> demo_step tid a p = Some p' \<Longrightarrow> demo_work p' < demo_work p"
  unfolding demo_inv_def by (cases a) (auto dest: main_less ext_less cpu_less)

text \<open>In each position some thread can go on, until \<open>main\<close> has returned.\<close>

lemma notify_one_single_can: "\<exists>ths. notify_one 0 [t] = Some ths"
  by (cases t) (auto simp: notify_one_def)

lemma demo_progress:
  assumes inv: "demo_inv n p" and stuck: "stuck (demo_step tid) p"
  shows "main p = MEnd \<and> threads (pool p) = [RReturned] \<and> transcript n 8 (printed p)"
proof -
  obtain pos where n: "0 < n" and at: "demo_at n pos p" using inv by (auto simp: demo_inv_def)
  then have bits: "main_ok pos (main p)" "finished p = finished_at pos" "cpu_queue p = queued OnCpu pos"
    "holder_ok n pos" "workers_ok n pos p" "pool_ok pos p" "transcript n (pieces pos) (printed p)"
    by (simp_all add: demo_at_def)
  obtain t where t: "threads (pool p) = [t]" "thread_ok pos p t" using bits(6) by (auto simp: pool_ok_def)
  obtain ths where can: "notify_one 0 [t] = Some ths" using notify_one_single_can by blast
  have len: "length (cpus p) = n" using bits(5) by (simp add: workers_ok_def)
  have m: "main_step 0 p = None" and e: "ext_step tid 0 p = None"
    using stuckD [OF stuck, of "MainThread 0"] stuckD [OF stuck, of "ExternalThread 0"] by simp_all
  have c: "cpu_thread_step tid i 0 p = None" for i using stuckD [OF stuck, of "CpuThread i 0"] by simp
  have main: "main p = MEnd \<or> main p = MJoin \<and> t \<noteq> RReturned \<or> (\<exists>d. main p = MWait d \<and> d \<notin> set (finished_at pos))"
    using m t can bits(2) by (auto simp: main_step_def split: mpc.splits if_splits)
  have cpu: "cpus p ! i = CIdle \<and> cpu_queue p = [] \<or> (\<exists>c. cpus p ! i = CLeave c \<and> leave (Some OnCpu) c = Crash)"
    if "i < n" for i
    using c [of i] that len t can
    by (auto simp: cpu_thread_step_def split: cthread.splits if_splits transfer.splits place.splits)
  have ok: "cpu_ok pos i (cpus p ! i)" if "i < n" for i using bits(5) that by (simp add: workers_ok_def)
  have idle: "cpus p ! i = CIdle \<and> cpu_queue p = []" if "i < n" for i
  proof -
    have False if x: "cpus p ! i = CLeave x" "leave (Some OnCpu) x = Crash" for x
    proof -
      have "cpu_ok pos i (CLeave x)" using ok [OF \<open>i < n\<close>] x(1) by simp
      then obtain d s where "x = point_at d s" using cpu_ok_holds(2) by blast
      then show False using x(2) by (cases s) simp_all
    qed
    then show ?thesis using cpu [OF that] by blast
  qed
  have "ext_ok pos (ext p)" "ext p \<noteq> WSetExecutor \<longrightarrow> ext_executor p = Some OnExternal"
    using bits(5) by (simp_all add: workers_ok_def)
  note ext = this
  have loop: "ext p = WLoop"
  proof (cases "ext p")
    case (WLeave x)
    then obtain d s where x: "x = point_at d s" using ext(1) ext_ok_holds by metis
    have "leave (ext_executor p) x \<noteq> Crash" using x ext(2) WLeave by (cases s) simp_all
    then show ?thesis
      using e WLeave by (auto simp: ext_step_def split: transfer.splits place.splits)
  next
    case WNotify
    then show ?thesis using ext ext_ok_free(3) by simp
  qed (use e in \<open>auto simp: ext_step_def\<close>)
  have sleep: "t \<in> {RSleep, RReturned}"
  proof (rule ccontr)
    assume "t \<notin> {RSleep, RReturned}"
    then have "t \<in> {RTest, RWork []}" using t(2) by (auto simp: thread_ok_def)
    then have "run_step (\<lambda>_. []) 0 0 (pool p) \<noteq> None" using t(1) by (auto simp: run_step_def)
    then show False using e loop by (auto simp: ext_step_def split: option.splits)
  qed
  have none: "CNotify \<notin> set (cpus p)" using idle len by (auto simp: in_set_conv_nth)
  have main': "main p = MEnd"
  proof (rule ccontr)
    assume "main p \<noteq> MEnd"
    moreover have False if j: "main p = MJoin" "t \<noteq> RReturned"
    proof -
      have "pos = Joining" using bits(1) j(1) by (auto elim!: main_ok.elims)
      then show False using t(2) sleep j(2) by (auto simp: thread_ok_def)
    qed
    ultimately obtain d where d: "main p = MWait d" "d \<notin> set (finished_at pos)" using main by blast
    then obtain s h where pos: "pos = Busy d s h"
      using bits(1) by (auto elim!: main_ok.elims)
    have "t = RSleep" using sleep t(2) pos by (auto simp: thread_ok_def)
    then have "queued OnExternal pos = []" using t(2) none d(1) by (auto simp: thread_ok_def)
    moreover have "queued OnCpu pos = []" using idle n bits(3) by auto
    ultimately have "h \<noteq> Queued"
      using pos by (cases "place_of d s") auto
    then obtain k where "h = Taken k \<or> h = Printed k" by (cases h) auto
    then show False
      using pos ext(1) loop ok [of k] idle [of k] bits(4) by (cases "place_of d s") auto
  qed
  then have "t = RReturned" using t(2) by (simp add: thread_ok_def)
  moreover have "pos = Joining" using bits(1) main' by (auto elim!: main_ok.elims)
  ultimately show ?thesis using main' t(1) bits(7) by simp
qed

interpretation demo_run: terminating_system "demo_step tid" "demo_inv n" demo_work
    "\<lambda>p. main p = MEnd \<and> threads (pool p) = [RReturned] \<and> transcript n 8 (printed p)"
  for tid n
  by unfold_locales (auto dest: demo_keeps demo_less demo_progress)

lemma demo_start: "0 < n \<Longrightarrow> demo_inv n (demo_init n)"
proof -
  assume "0 < n"
  moreover have "demo_at n Begin (demo_init n)"
    by (simp add: demo_at_def demo_init_def workers_ok_def pool_ok_def thread_ok_def pool_init_def)
  moreover have "life_ok (demo_init n)" by (simp add: life_ok_def demo_init_def)
  ultimately show ?thesis unfolding demo_inv_def by blast
qed

lemma demo_init_work: "demo_work (demo_init n) = 41 + n"
  by (simp add: demo_work_def demo_init_def pool_init_def sum_list_replicate)

lemma block_simps:
  "block n 0 = {[''tmc::ex_cpu -> external_executor -> tmc::ex_cpu'']}"
  "block n (Suc 0) = {point_lines (cpu_thread_name i) (Start OnCpu) | i. i < n}"
  "block n 2 = {point_lines ''external thread'' (Child OnCpu (Some OnCpu))}"
  "block n 3 = {point_lines (cpu_thread_name i) (Resume OnCpu) | i. i < n}"
  "block n 4 = {['''', ''external_executor -> tmc::ex_cpu -> external_executor'']}"
  "block n 5 = {point_lines ''external thread'' (Start OnExternal)}"
  "block n 6 = {point_lines (cpu_thread_name i) (Child OnExternal (Some OnExternal)) | i. i < n}"
  "block n 7 = {point_lines ''external thread'' (Resume OnExternal)}"
  by (simp_all add: block_def numeral_eq_Suc)

lemma transcript_pieces:
  assumes "transcript n 8 out"
  obtains b0 b1 b2 b3 b4 b5 b6 b7 where "out = b0 @ b1 @ b2 @ b3 @ b4 @ b5 @ b6 @ b7"
    "b0 \<in> block n 0" "b1 \<in> block n (Suc 0)" "b2 \<in> block n 2" "b3 \<in> block n 3" "b4 \<in> block n 4"
    "b5 \<in> block n 5" "b6 \<in> block n 6" "b7 \<in> block n 7"
proof -
  have "transcript n (Suc (Suc (Suc (Suc (Suc (Suc (Suc (Suc 0)))))))) out"
    using assms by (simp add: numeral_eq_Suc)
  then show thesis
    unfolding transcript.simps
    by (elim exE conjE) (rule that, simp_all add: numeral_eq_Suc)
qed

text \<open>The whole output, up to the numbers of the three threads of \<open>ex_cpu\<close>.\<close>

definition demo_output :: "nat \<Rightarrow> nat \<Rightarrow> nat \<Rightarrow> string list" where
  "demo_output i j k =
    [''tmc::ex_cpu -> external_executor -> tmc::ex_cpu'',
     ''coro started on '' @ cpu_thread_name i, ''co_awaiting...'',
     ''child task on external thread...'',
     ''coro resumed on '' @ cpu_thread_name j,
     '''', ''external_executor -> tmc::ex_cpu -> external_executor'',
     ''coro started on external thread'', ''co_awaiting...'',
     ''child task on '' @ cpu_thread_name k @ ''...'',
     ''coro resumed on external thread'']"

lemma transcript_8:
  assumes "transcript n 8 out"
  shows "\<exists>i<n. \<exists>j<n. \<exists>k<n. out = demo_output i j k"
proof -
  obtain b0 b1 b2 b3 b4 b5 b6 b7 where out: "out = b0 @ b1 @ b2 @ b3 @ b4 @ b5 @ b6 @ b7"
    and b: "b0 \<in> block n 0" "b1 \<in> block n (Suc 0)" "b2 \<in> block n 2" "b3 \<in> block n 3" "b4 \<in> block n 4"
    "b5 \<in> block n 5" "b6 \<in> block n 6" "b7 \<in> block n 7"
    using assms by (rule transcript_pieces)
  obtain i j k where ijk: "i < n" "b1 = point_lines (cpu_thread_name i) (Start OnCpu)"
    "j < n" "b3 = point_lines (cpu_thread_name j) (Resume OnCpu)"
    "k < n" "b6 = point_lines (cpu_thread_name k) (Child OnExternal (Some OnExternal))"
    using b(2,4,7) unfolding block_simps by blast
  have "out = demo_output i j k"
    using b(1,3,5,6,8) unfolding block_simps singleton_iff out ijk demo_output_def by simp
  then show ?thesis using ijk by blast
qed

text \<open>
  A run in which the pool dies too early: a \<open>cpu\<close> thread pushes the resumption of the second demo and is
  delayed before \<open>notify_one\<close>; the external thread, which is awake, takes the item without being notified, \<open>main\<close> is
  released, stops and joins the worker, and destroys the pool; then the \<open>cpu\<close> thread notifies.
\<close>

definition late_schedule :: "demo_agent list" where
  "late_schedule =
     [ExternalThread 0, ExternalThread 0, CpuThread 0 0, MainThread 0, CpuThread 0 0, CpuThread 0 0, CpuThread 0 0,
      CpuThread 0 0, ExternalThread 0, ExternalThread 0, ExternalThread 0, CpuThread 0 0, CpuThread 0 0,
      CpuThread 0 0, MainThread 0, MainThread 0, MainThread 0, ExternalThread 0, ExternalThread 0, ExternalThread 0,
      CpuThread 0 0, CpuThread 0 0, CpuThread 0 0, ExternalThread 0, ExternalThread 0, ExternalThread 0,
      MainThread 0, MainThread 0, MainThread 0, ExternalThread 0, MainThread 0, MainThread 0, CpuThread 0 0]"

lemmas demo_execute = demo_init_def pool_init_def main_step_def ext_step_def cpu_thread_step_def run_step_def
  run_locked_def send_cpu_def send_external_eq push_def notify_one_def notify_all_def lock_pool_def notify_pool_def

lemma late_run:
  "\<exists>p. run_steps (demo_step tid) late_schedule (demo_init 1) = Some p \<and> late_notify p"
  by (simp add: late_schedule_def demo_execute)

text \<open>
  C26. \<open>examples/external/external_executor.cpp\<close>, with the thread pool and its adapter in full, on
  any number of \<open>ex_cpu\<close> threads: in every run both demos come to an end within 41 steps and one for
  each thread, the adapter's worker is joined, and the output is the announced ping-pong: the
  coroutine of the first demo starts and resumes on named \<open>cpu\<close> threads while its child is on the
  external one, in the second it is the other way round. No wake-up of the pool is lost although
  \<open>main\<close> and the \<open>cpu\<close> threads post to it, and no coroutine runs before its thread is set up. When \<open>main\<close>
  destroys the pool at its end nobody is in it or enters it again, except that a \<open>cpu\<close> thread can still be between
  the two statements of \<open>post\<close>: then, and only then, \<open>notify_one\<close> is called on a condition variable that has been
  destroyed. There is a run in which that happens, so the program is free of it only up to timing.
\<close>

theorem external_executor_demo:
  assumes "0 < n" and "run_steps (demo_step tid) ks (demo_init n) = Some p"
  shows "length ks \<le> 41 + n \<and>
    (stuck (demo_step tid) p \<longrightarrow> main p = MEnd \<and> threads (pool p) = [RReturned] \<and>
       (\<exists>i<n. \<exists>j<n. \<exists>k<n. printed p = demo_output i j k)) \<and>
    destroyed p = (main p = MEnd) \<and> \<not> late_lock p \<and> (late_notify p \<longrightarrow> destroyed p) \<and>
    (destroyed p \<longrightarrow> threads (pool p) = [RReturned] \<and> (\<forall>i<n. cpus p ! i \<in> {CBoot, CIdle, CNotify})) \<and>
    (\<exists>ks p. run_steps (demo_step tid) ks (demo_init 1) = Some p \<and> late_notify p)"
proof -
  note start = demo_start [OF assms(1)]
  have "length ks \<le> 41 + n"
    using demo_run.run_bound [OF start assms(2)] unfolding demo_init_work by linarith
  moreover have inv: "demo_inv n p" by (rule demo_run.run_inv [OF start assms(2)])
  moreover note demo_run.progress [OF inv]
  moreover obtain pos where at: "demo_at n pos p" and life: "life_ok p" using inv by (auto simp: demo_inv_def)
  moreover have "threads (pool p) = [RReturned] \<and> (\<forall>i<n. cpus p ! i \<in> {CBoot, CIdle, CNotify})"
    if "destroyed p"
  proof -
    have "main p = MEnd" using life that by (simp add: life_ok_def)
    then show ?thesis using ended_at [OF at] by blast
  qed
  moreover have "\<exists>ks p. run_steps (demo_step tid) ks (demo_init 1) = Some p \<and> late_notify p"
    using late_run by blast
  ultimately show ?thesis using transcript_8 unfolding life_ok_def by blast
qed

theorem external_executor_demo_witness:
  "\<exists>ks p. run_steps (demo_step ''140737'') ks (demo_init 2) = Some p \<and> main p = MEnd \<and> \<not> late_lock p \<and>
     (\<exists>i<2. \<exists>j<2. \<exists>k<2. printed p = demo_output i j k)"
proof -
  have "0 < (2 :: nat)" by simp
  obtain ks p where run: "run_steps (demo_step ''140737'') ks (demo_init 2) = Some p"
    and "stuck (demo_step ''140737'') p"
    using demo_run.reaches_stuck [OF demo_start [OF \<open>0 < 2\<close>]] by blast
  then show ?thesis using external_executor_demo [OF \<open>0 < 2\<close> run] by blast
qed

end
