(* ===== verification/External_Awaitable.thy ===== *)
theory External_Awaitable
  imports Prelude
begin

text \<open>
  \<open>external/external_awaitable.cpp\<close>: a task awaits an awaitable that resumes it from a thread of its
  own. Three threads of control meet at one object: the one that suspends the task (\<open>await_suspend\<close>),
  the new thread, and the resumed task, which destroys the object. Every statement that touches the object
  is a step; a step on the destroyed object, a read of the unwritten result and the destruction of an unjoined
  thread (\<open>std::terminate\<close>) are recorded as \<open>fault\<close>.
\<close>

section \<open>The program\<close>

datatype suspender = SOuter | SLock | SSpawn | SAssign | SUnlock | SDone
datatype worker = WNone | WSleep | WResume | WReturn | WExited
datatype awaiter = CSuspended | CResume | CLock | CJoin | CUnlock | CFree | CCheck | CDone

record awaitable =
  suspender :: suspender
  worker :: worker
  awaiter :: awaiter
  aresult :: "int option"     \<comment> \<open>\<open>None\<close>: not written yet\<close>
  outer :: bool               \<comment> \<open>the handle of the awaiting task is stored\<close>
  locked :: bool
  joinable :: bool            \<comment> \<open>the member \<open>thread\<close> owns a thread\<close>
  alive :: bool
  fault :: bool
  received :: "int option"    \<comment> \<open>the value of the \<open>co_await\<close> expression\<close>
  complaints :: nat           \<comment> \<open>lines \<open>wrong result from external_awaitable\<close>\<close>

definition touch :: "awaitable \<Rightarrow> awaitable" where
  "touch s = (if alive s then s else s\<lparr>fault := True\<rparr>)"

text \<open>\<open>await_suspend\<close>; the new thread may run before the member \<open>thread\<close> has been assigned.\<close>

definition suspend_step :: "awaitable \<Rightarrow> awaitable option" where
  "suspend_step s =
     (case suspender s of
        SOuter \<Rightarrow> Some (touch s\<lparr>outer := True, suspender := SLock\<rparr>)
      | SLock \<Rightarrow> if locked s then None else Some (touch s\<lparr>locked := True, suspender := SSpawn\<rparr>)
      | SSpawn \<Rightarrow> Some (s\<lparr>worker := WSleep, suspender := SAssign\<rparr>)
      | SAssign \<Rightarrow> Some (touch s\<lparr>joinable := True, suspender := SUnlock\<rparr>)
      | SUnlock \<Rightarrow> Some (touch s\<lparr>locked := False, suspender := SDone\<rparr>)
      | SDone \<Rightarrow> None)"

text \<open>The lambda of the thread. Resuming the task hands it to its executor and returns.\<close>

definition worker_thread :: "awaitable \<Rightarrow> awaitable option" where
  "worker_thread s =
     (case worker s of
        WSleep \<Rightarrow> Some (touch s\<lparr>aresult := Some 42, worker := WResume\<rparr>)
      | WResume \<Rightarrow> Some (touch s\<lparr>fault := fault s \<or> \<not> outer s, awaiter := CResume, worker := WReturn\<rparr>)
      | WReturn \<Rightarrow> Some (s\<lparr>worker := WExited\<rparr>)
      | _ \<Rightarrow> None)"

text \<open>
  The rest of \<open>await_external_coro\<close>: \<open>await_resume\<close>, and at the end the destructor (the lock, \<open>join\<close> if
  the thread is joinable, the unlock, the release of the members).
\<close>

definition resumed_task :: "awaitable \<Rightarrow> awaitable option" where
  "resumed_task s =
     (case awaiter s of
        CSuspended \<Rightarrow> None
      | CResume \<Rightarrow> Some (touch s\<lparr>fault := fault s \<or> aresult s = None, received := aresult s, awaiter := CCheck\<rparr>)
      | CCheck \<Rightarrow> Some (s\<lparr>complaints := complaints s + of_bool (received s \<noteq> Some 42), awaiter := CLock\<rparr>)
      | CLock \<Rightarrow> if locked s then None else Some (touch s\<lparr>locked := True, awaiter := CJoin\<rparr>)
      | CJoin \<Rightarrow>
          if joinable s
          then (if worker s = WExited then Some (touch s\<lparr>joinable := False, awaiter := CUnlock\<rparr>) else None)
          else Some (touch s\<lparr>awaiter := CUnlock\<rparr>)
      | CUnlock \<Rightarrow> Some (touch s\<lparr>locked := False, awaiter := CFree\<rparr>)
      | CFree \<Rightarrow> Some (s\<lparr>fault := fault s \<or> joinable s, alive := False, awaiter := CDone\<rparr>)
      | CDone \<Rightarrow> None)"

datatype control = Suspender | WorkerThread | ResumedTask

fun awaitable_step :: "control \<Rightarrow> awaitable \<Rightarrow> awaitable option" where
  "awaitable_step Suspender s = suspend_step s"
| "awaitable_step WorkerThread s = worker_thread s"
| "awaitable_step ResumedTask s = resumed_task s"

definition awaitable_start :: awaitable where
  "awaitable_start = \<lparr>suspender = SOuter, worker = WNone, awaiter = CSuspended, aresult = None, outer = False,
     locked = False, joinable = False, alive = True, fault = False, received = None, complaints = 0\<rparr>"

text \<open>What \<open>test_await_external\<close> prints about the value it gets from the future.\<close>

definition test_await_external :: "int \<Rightarrow> nat" where
  "test_await_external result = of_bool (result \<noteq> 42)"

section \<open>The invariant\<close>

text \<open>
  In a state without fault everything is determined by where the three stand; and where they can stand
  together.
\<close>

definition standing :: "suspender \<Rightarrow> worker \<Rightarrow> awaiter \<Rightarrow> awaitable" where
  "standing sp w a =
     \<lparr>suspender = sp, worker = w, awaiter = a,
      aresult = (if w = WNone \<or> w = WSleep then None else Some 42),
      outer = (sp \<noteq> SOuter),
      locked = (sp = SSpawn \<or> sp = SAssign \<or> sp = SUnlock \<or> a = CJoin \<or> a = CUnlock),
      joinable = ((sp = SUnlock \<or> sp = SDone) \<and> a \<noteq> CUnlock \<and> a \<noteq> CFree \<and> a \<noteq> CDone),
      alive = (a \<noteq> CDone), fault = False,
      received = (if a = CSuspended \<or> a = CResume then None else Some 42), complaints = 0\<rparr>"

definition consistent :: "suspender \<Rightarrow> worker \<Rightarrow> awaiter \<Rightarrow> bool" where
  "consistent sp w a \<longleftrightarrow>
     (w = WNone \<longleftrightarrow> sp = SOuter \<or> sp = SLock \<or> sp = SSpawn) \<and>
     (a = CSuspended \<longleftrightarrow> w = WNone \<or> w = WSleep \<or> w = WResume) \<and>
     (a = CJoin \<or> a = CUnlock \<or> a = CFree \<or> a = CDone \<longrightarrow> sp = SDone) \<and>
     (a = CUnlock \<or> a = CFree \<or> a = CDone \<longrightarrow> w = WExited)"

definition awaitable_inv :: "awaitable \<Rightarrow> bool" where
  "awaitable_inv s \<longleftrightarrow> (\<exists>sp w a. consistent sp w a \<and> s = standing sp w a)"

definition awaitable_work :: "awaitable \<Rightarrow> nat" where
  "awaitable_work s =
     (case suspender s of SOuter \<Rightarrow> 5 | SLock \<Rightarrow> 4 | SSpawn \<Rightarrow> 3 | SAssign \<Rightarrow> 2 | SUnlock \<Rightarrow> 1 | SDone \<Rightarrow> 0) +
     (case worker s of WNone \<Rightarrow> 3 | WSleep \<Rightarrow> 3 | WResume \<Rightarrow> 2 | WReturn \<Rightarrow> 1 | WExited \<Rightarrow> 0) +
     (case awaiter s of CSuspended \<Rightarrow> 6 | CResume \<Rightarrow> 6 | CCheck \<Rightarrow> 5 | CLock \<Rightarrow> 4 | CJoin \<Rightarrow> 3 | CUnlock \<Rightarrow> 2 |
        CFree \<Rightarrow> 1 | CDone \<Rightarrow> 0)"

lemma keepsI:
  "consistent sp w a \<Longrightarrow> t = standing sp w a \<Longrightarrow> awaitable_work (standing sp w a) < n \<Longrightarrow>
   awaitable_inv t \<and> awaitable_work t < n"
  by (auto simp: awaitable_inv_def)

lemma suspend_keeps:
  assumes "consistent sp w a" and "suspend_step (standing sp w a) = Some t"
  shows "awaitable_inv t \<and> awaitable_work t < awaitable_work (standing sp w a)"
  by (rule keepsI [of "case sp of SOuter \<Rightarrow> SLock | SLock \<Rightarrow> SSpawn | SSpawn \<Rightarrow> SAssign | SAssign \<Rightarrow> SUnlock | _ \<Rightarrow> SDone"
        "if sp = SSpawn then WSleep else w" a];
      insert assms; cases sp; cases w; cases a;
      clarsimp simp: suspend_step_def standing_def consistent_def touch_def awaitable_work_def)

lemma worker_keeps:
  assumes "consistent sp w a" and "worker_thread (standing sp w a) = Some t"
  shows "awaitable_inv t \<and> awaitable_work t < awaitable_work (standing sp w a)"
  by (rule keepsI [of sp "case w of WSleep \<Rightarrow> WResume | WResume \<Rightarrow> WReturn | _ \<Rightarrow> WExited"
        "if w = WResume then CResume else a"];
      insert assms; cases sp; cases w; cases a;
      clarsimp simp: worker_thread_def standing_def consistent_def touch_def awaitable_work_def)

lemma resumed_task_keeps:
  assumes "consistent sp w a" and "resumed_task (standing sp w a) = Some t"
  shows "awaitable_inv t \<and> awaitable_work t < awaitable_work (standing sp w a)"
  by (rule keepsI [of sp w "case a of CResume \<Rightarrow> CCheck | CCheck \<Rightarrow> CLock | CLock \<Rightarrow> CJoin | CJoin \<Rightarrow> CUnlock
        | CUnlock \<Rightarrow> CFree | _ \<Rightarrow> CDone"];
      insert assms; cases sp; cases w; cases a;
      clarsimp simp: resumed_task_def standing_def consistent_def touch_def awaitable_work_def)

lemma awaitable_keeps:
  assumes "awaitable_inv s" and "awaitable_step c s = Some t"
  shows "awaitable_inv t \<and> awaitable_work t < awaitable_work s"
proof -
  obtain sp w a where "consistent sp w a" "s = standing sp w a" using assms(1) by (auto simp: awaitable_inv_def)
  then show ?thesis using assms(2) suspend_keeps worker_keeps resumed_task_keeps by (cases c) auto
qed

lemma awaitable_progress:
  assumes inv: "awaitable_inv s" and stuck: "stuck awaitable_step s"
  shows "awaiter s = CDone"
proof -
  obtain sp w a where c: "consistent sp w a" and s: "s = standing sp w a"
    using inv by (auto simp: awaitable_inv_def)
  have "suspend_step s = None" "worker_thread s = None" "resumed_task s = None"
    using stuckD [OF stuck, of Suspender] stuckD [OF stuck, of WorkerThread]
      stuckD [OF stuck, of ResumedTask] by simp_all
  then show ?thesis using c unfolding s
    by (cases sp; cases w; cases a;
        simp add: suspend_step_def worker_thread_def resumed_task_def standing_def consistent_def)
qed

interpretation awaiting: terminating_system awaitable_step awaitable_inv awaitable_work "\<lambda>s. awaiter s = CDone"
  by unfold_locales (use awaitable_keeps awaitable_progress in blast)+

text \<open>
  C36. \<open>external_awaitable\<close>: however the suspending thread, the new thread and the resumed task interleave, no
  one touches the object after its destruction, the thread is joined before it is destroyed, and the task
  receives 42 and prints no complaint; the program always ends, after at most 14 steps, with the thread
  exited.
\<close>

theorem external_awaitable_safe:
  assumes "run_steps awaitable_step ks awaitable_start = Some s"
  shows "length ks \<le> 14 \<and> \<not> fault s \<and> complaints s = 0 \<and>
    (stuck awaitable_step s \<longrightarrow> awaiter s = CDone) \<and>
    (awaiter s = CDone \<longrightarrow> received s = Some 42 \<and> worker s = WExited \<and> \<not> joinable s \<and>
       test_await_external (the (received s)) = 0)"
proof -
  have start: "awaitable_inv awaitable_start" "awaitable_work awaitable_start = 14"
  proof -
    have "awaitable_start = standing SOuter WNone CSuspended" "consistent SOuter WNone CSuspended"
      by (simp_all add: awaitable_start_def standing_def consistent_def)
    then show "awaitable_inv awaitable_start" unfolding awaitable_inv_def by blast
    show "awaitable_work awaitable_start = 14" by (simp add: awaitable_work_def awaitable_start_def)
  qed
  have inv: "awaitable_inv s" using awaiting.run_inv [OF start(1) assms] .
  have "length ks \<le> 14" using awaiting.run_bound [OF start(1) assms] start(2) by linarith
  moreover have "stuck awaitable_step s \<longrightarrow> awaiter s = CDone" using awaitable_progress [OF inv] by blast
  moreover obtain sp w a where c: "consistent sp w a" and s: "s = standing sp w a"
    using inv by (auto simp: awaitable_inv_def)
  have "\<not> fault s" "complaints s = 0" by (simp_all add: s standing_def)
  moreover have "received s = Some 42 \<and> worker s = WExited \<and> \<not> joinable s \<and>
      test_await_external (the (received s)) = 0" if "awaiter s = CDone"
    using that c by (simp add: s standing_def consistent_def test_await_external_def)
  ultimately show ?thesis by blast
qed

text \<open>The new thread runs to its end before the member is assigned: the destructor has to wait.\<close>

theorem external_awaitable_safe_witness:
  "\<exists>s. run_steps awaitable_step
      [Suspender, Suspender, Suspender, WorkerThread, WorkerThread, ResumedTask, ResumedTask, WorkerThread,
       Suspender, Suspender, ResumedTask, ResumedTask, ResumedTask, ResumedTask] awaitable_start = Some s \<and>
     received s = Some 42 \<and> \<not> fault s"
proof -
  obtain s where s: "run_steps awaitable_step
      [Suspender, Suspender, Suspender, WorkerThread, WorkerThread, ResumedTask, ResumedTask, WorkerThread,
       Suspender, Suspender, ResumedTask, ResumedTask, ResumedTask, ResumedTask] awaitable_start = Some s"
      "awaiter s = CDone"
    by (simp add: awaitable_start_def suspend_step_def worker_thread_def resumed_task_def touch_def)
  then show ?thesis using external_awaitable_safe [OF s(1)] by blast
qed

end
