(* ===== verification/External_Coro.thy ===== *)
theory External_Coro
  imports Prelude
begin

text \<open>
  \<open>external/external_coro.hpp\<close> and \<open>external_coro.cpp\<close>: coroutines of a foreign type and TMC tasks
  that await each other in turn. Coroutine frames live in a heap; control passes from frame to frame by
  symmetric transfer. A coroutine frame is addressed by its handle.
\<close>

section \<open>Frames\<close>

text \<open>
  An \<open>Internal\<close> frame is a \<open>tmc::task\<close>: the library frees it when it completes. An \<open>External\<close> frame
  stays suspended at its final suspension point until the awaiter that waits for it destroys it.
\<close>

datatype kind = Internal | External
datatype cpc = InitialSuspend | Awaiting nat | FinalSuspend

record cframe =
  kind :: kind
  Count :: int
  cpc :: cpc
  continuation :: "nat option"    \<comment> \<open>the promise's continuation; \<open>None\<close>: the frame was posted\<close>
  result_slot :: "int option"     \<comment> \<open>\<open>result\<close> of the awaiter in this frame, the target of \<open>result_ptr\<close>\<close>
  freed :: bool

record cheap =
  frames :: "nat \<Rightarrow> cframe option"
  fresh_handle :: nat
  current :: "nat option"         \<comment> \<open>the frame that runs\<close>
  future :: "int option"          \<comment> \<open>the value delivered by the future or the promise\<close>
  destroyed :: "nat list"         \<comment> \<open>calls of \<open>handle.destroy()\<close>\<close>
  broken :: bool                  \<comment> \<open>undefined behaviour has occurred\<close>

definition other :: "kind \<Rightarrow> kind" where
  "other k = (case k of Internal \<Rightarrow> External | External \<Rightarrow> Internal)"

definition new_frame :: "kind \<Rightarrow> int \<Rightarrow> nat option \<Rightarrow> cframe" where
  "new_frame k n cont =
     \<lparr>kind = k, Count = n, cpc = InitialSuspend, continuation = cont, result_slot = None, freed = False\<rparr>"

section \<open>Operations\<close>

text \<open>
  \<open>return_value\<close> and the final suspension point of frame \<open>h\<close>: with a continuation the value is written
  through \<open>result_ptr\<close> and control goes to the continuation. Without one the coroutine is the root:
  the value goes to the promise, and the frame ends (\<open>suspend_never\<close> for the external root).
\<close>

definition coro_return :: "nat \<Rightarrow> cframe \<Rightarrow> int \<Rightarrow> cheap \<Rightarrow> cheap" where
  "coro_return h f v s =
     (case continuation f of
        None \<Rightarrow>
          s\<lparr>frames := (frames s)(h \<mapsto> f\<lparr>cpc := FinalSuspend, freed := True\<rparr>), future := Some v, current := None\<rparr>
      | Some cont \<Rightarrow>
          (case frames s cont of
             None \<Rightarrow> s\<lparr>broken := True, current := None\<rparr>
           | Some g \<Rightarrow>
               s\<lparr>frames := (frames s)(cont \<mapsto> g\<lparr>result_slot := Some v\<rparr>,
                   h \<mapsto> f\<lparr>cpc := FinalSuspend, freed := (kind f = Internal)\<rparr>),
                 broken := broken s \<or> freed g, current := Some cont\<rparr>))"

text \<open>
  \<open>co_await external(Count, Max)\<close> or \<open>co_await internal(Count, Max)\<close>: the frame is created
  suspended, \<open>await_suspend\<close> stores the continuation and the target of the result, and control goes to
  the new frame.
\<close>

definition coro_await :: "nat \<Rightarrow> cframe \<Rightarrow> cheap \<Rightarrow> cheap" where
  "coro_await h f s =
     (let child = fresh_handle s in
      s\<lparr>frames := (frames s)(h \<mapsto> f\<lparr>cpc := Awaiting child\<rparr>,
          child \<mapsto> new_frame (other (kind f)) (Count f) (Some h)),
        fresh_handle := child + 1, current := Some child\<rparr>)"

text \<open>
  \<open>await_resume\<close>: an external frame is destroyed, which requires that it is suspended and has not been
  destroyed; the result is read.
\<close>

definition await_resume :: "nat \<Rightarrow> cheap \<Rightarrow> cheap" where
  "await_resume child s =
     (case frames s child of
        None \<Rightarrow> s\<lparr>broken := True\<rparr>
      | Some g \<Rightarrow>
          if kind g = External
          then s\<lparr>frames := (frames s)(child \<mapsto> g\<lparr>freed := True\<rparr>), destroyed := destroyed s @ [child],
                 broken := broken s \<or> freed g \<or> cpc g \<noteq> FinalSuspend\<rparr>
          else s)"

text \<open>
  One step: the bodies of \<open>internal\<close>, \<open>external\<close> and \<open>external_result_by_promise\<close>, which all do the
  same. Incrementing past the range of \<open>int\<close> is undefined.
\<close>

definition coro_step :: "int \<Rightarrow> unit \<Rightarrow> cheap \<Rightarrow> cheap option" where
  "coro_step limit _ s =
     (case current s of
        None \<Rightarrow> None
      | Some h \<Rightarrow>
          (case frames s h of
             None \<Rightarrow> Some (s\<lparr>broken := True, current := None\<rparr>)
           | Some f \<Rightarrow> Some (
               if freed f then s\<lparr>broken := True, current := None\<rparr>
               else case cpc f of
                 InitialSuspend \<Rightarrow>
                   let f = f\<lparr>Count := Count f + 1\<rparr>; s = s\<lparr>broken := broken s \<or> 2 ^ 31 \<le> Count f\<rparr>
                   in if Count f = limit then coro_return h f (Count f) s else coro_await h f s
               | Awaiting child \<Rightarrow>
                   (case result_slot f of
                      None \<Rightarrow> s\<lparr>broken := True, current := None\<rparr>
                    | Some result \<Rightarrow> coro_return h f result (await_resume child s))
               | FinalSuspend \<Rightarrow> s\<lparr>broken := True, current := None\<rparr>)))"

text \<open>\<open>run_internal_first\<close> and \<open>run_external_first_by_promise\<close>: the root frame is posted with count 0.\<close>

definition coro_start :: "kind \<Rightarrow> cheap" where
  "coro_start root =
     \<lparr>frames = [0 \<mapsto> new_frame root 0 None], fresh_handle = 1, current = Some 0, future = None,
      destroyed = [], broken = False\<rparr>"

text \<open>The line that they print on a wrong result.\<close>

definition check_result :: "int \<Rightarrow> int \<Rightarrow> string list" where
  "check_result limit result = (if result \<noteq> limit then [''wrong result from result_future''] else [])"

section \<open>The run\<close>

definition kind_of :: "kind \<Rightarrow> nat \<Rightarrow> kind" where
  "kind_of root j = (if even j then root else other root)"

definition awaiting_frame :: "kind \<Rightarrow> int option \<Rightarrow> nat \<Rightarrow> cframe" where
  "awaiting_frame root slot j =
     \<lparr>kind = kind_of root j, Count = int j + 1, cpc = Awaiting (j + 1),
      continuation = (if j = 0 then None else Some (j - 1)), result_slot = slot, freed = False\<rparr>"

definition ended_frame :: "kind \<Rightarrow> cframe \<Rightarrow> bool" where
  "ended_frame k f \<longleftrightarrow> cpc f = FinalSuspend \<and> kind f = k"

text \<open>On the way down: the frames before \<open>i\<close> wait, frame \<open>i\<close> is about to start.\<close>

definition going_down :: "kind \<Rightarrow> nat \<Rightarrow> cheap" where
  "going_down root i =
     \<lparr>frames = (\<lambda>j. if j < i then Some (awaiting_frame root None j)
        else if j = i then Some (new_frame (kind_of root i) (int i) (if i = 0 then None else Some (i - 1)))
        else None),
      fresh_handle = i + 1, current = Some i, future = None, destroyed = [], broken = False\<rparr>"

text \<open>On the way up: frame \<open>i\<close> has returned to the frame before it, all later ones are gone.\<close>

definition going_up :: "kind \<Rightarrow> nat \<Rightarrow> nat \<Rightarrow> cheap \<Rightarrow> bool" where
  "going_up root n i s \<longleftrightarrow>
     (\<forall>j<i. frames s j = Some (awaiting_frame root (if Suc j = i then Some (int n) else None) j)) \<and>
     (\<forall>j. i \<le> j \<and> j < n \<longrightarrow> (\<exists>f. frames s j = Some f \<and> ended_frame (kind_of root j) f \<and>
        freed f = (i < j \<or> i = 0 \<or> kind f = Internal))) \<and>
     (\<forall>j\<ge>n. frames s j = None) \<and>
     current s = (if i = 0 then None else Some (i - 1)) \<and>
     future s = (if i = 0 then Some (int n) else None) \<and>
     destroyed s = filter (\<lambda>j. kind_of root j = External) (rev [Suc i..<n]) \<and> \<not> broken s"

lemma other_kind: "kind_of root (Suc j) = other (kind_of root j)"
  by (cases root) (auto simp: kind_of_def other_def)

lemma start_down: "coro_start root = going_down root 0"
  by (auto simp: coro_start_def going_down_def kind_of_def fun_eq_iff)

lemma down_step:
  "int i + 1 \<noteq> limit \<Longrightarrow> int i + 1 < 2 ^ 31 \<Longrightarrow> coro_step limit u (going_down root i) = Some (going_down root (Suc i))"
  by (auto simp: coro_step_def going_down_def new_frame_def Let_def coro_await_def other_kind
      awaiting_frame_def fun_eq_iff less_Suc_eq)

lemma turn_step:
  assumes "n < 2 ^ 31" and n: "n = Suc i"
  shows "\<exists>t. coro_step (int n) u (going_down root i) = Some t \<and> going_up root n i t"
  using assms
  by (auto simp: coro_step_def going_down_def new_frame_def Let_def coro_return_def going_up_def
      awaiting_frame_def ended_frame_def le_less_Suc_eq le_Suc_eq)

lemma up_step:
  assumes up: "going_up root n (Suc i) s" and n: "Suc i < n"
  shows "\<exists>t. coro_step (int n) u s = Some t \<and> going_up root n i t"
proof -
  let ?f = "awaiting_frame root (Some (int n)) i" and ?j = "Suc i"
  have f: "frames s i = Some ?f" and cur: "current s = Some i" and nb: "\<not> broken s"
    and d: "destroyed s = filter (\<lambda>j. kind_of root j = External) (rev [Suc ?j..<n])"
    using up by (simp_all add: going_up_def)
  obtain g where g: "frames s ?j = Some g" "ended_frame (kind_of root ?j) g" "freed g = (kind g = Internal)"
    using up n by (auto simp: going_up_def)
  define s1 where "s1 = await_resume ?j s"
  have step: "coro_step (int n) u s = Some (coro_return i ?f (int n) s1)"
    using cur f by (simp add: coro_step_def awaiting_frame_def s1_def)
  have "rev [?j..<n] = rev [Suc ?j..<n] @ [?j]" using n by (simp add: upt_conv_Cons)
  then have s1: "frames s1 = (frames s)(?j \<mapsto> g\<lparr>freed := True\<rparr>)" "current s1 = Some i" "future s1 = None"
      "\<not> broken s1" "destroyed s1 = filter (\<lambda>j. kind_of root j = External) (rev [?j..<n])"
    using g nb d cur up
    by (cases "kind g"; auto simp: s1_def await_resume_def ended_frame_def going_up_def fun_eq_iff)+
  have later: "\<exists>f. frames s1 j = Some f \<and> ended_frame (kind_of root j) f \<and> freed f" if "i < j" "j < n" for j
  proof (cases "j = ?j")
    case True
    then show ?thesis using g(2) by (simp add: s1(1) ended_frame_def)
  next
    case False
    then have "Suc i < j" "Suc i \<le> j \<and> j < n" using that by auto
    then show ?thesis using up False unfolding going_up_def s1(1) by auto
  qed
  have earlier: "frames s1 j = Some (awaiting_frame root None j)" if "j < i" for j
    using up that by (simp add: s1(1) going_up_def)
  have none: "frames s1 j = None" if "n \<le> j" for j
    using up that n by (simp add: s1(1) going_up_def)
  let ?e = "?f\<lparr>cpc := FinalSuspend, freed := (i = 0 \<or> kind_of root i = Internal)\<rparr>"
  have e: "ended_frame (kind_of root i) ?e" "kind ?e = kind_of root i"
    by (simp_all add: ended_frame_def awaiting_frame_def)
  show ?thesis
  proof (cases i)
    case 0
    then have r: "coro_return i ?f (int n) s1 =
        s1\<lparr>frames := (frames s1)(i \<mapsto> ?e), future := Some (int n), current := None\<rparr>"
      by (simp add: coro_return_def awaiting_frame_def)
    have "going_up root n i (coro_return i ?f (int n) s1)"
      unfolding r going_up_def using later none e s1 n 0 by auto
    then show ?thesis using step by simp
  next
    case (Suc k)
    then have "frames s1 k = Some (awaiting_frame root None k)" using earlier by simp
    then have r: "coro_return i ?f (int n) s1 = s1\<lparr>
        frames := (frames s1)(k \<mapsto> awaiting_frame root (Some (int n)) k, i \<mapsto> ?e), current := Some k\<rparr>"
      using s1(4) Suc by (simp add: coro_return_def awaiting_frame_def)
    have "going_up root n i (coro_return i ?f (int n) s1)"
      unfolding r going_up_def using earlier later none e s1 n Suc by auto
    then show ?thesis using step by simp
  qed
qed

text \<open>The whole run: down to the frame that reaches the limit, and up again.\<close>

lemma run_down:
  "i < n \<Longrightarrow> n < 2 ^ 31 \<Longrightarrow>
   run_steps (coro_step (int n)) (replicate i ()) (coro_start root) = Some (going_down root i)"
proof (induction i)
  case 0
  then show ?case by (simp add: start_down)
next
  case (Suc i)
  have "coro_step (int n) () (going_down root i) = Some (going_down root (Suc i))"
    using Suc.prems by (intro down_step) auto
  from run_steps_snoc [OF Suc.IH this] show ?case
    using Suc.prems by (simp add: replicate_append_same [symmetric])
qed

lemma run_up:
  "going_up root n i s \<Longrightarrow> i < n \<Longrightarrow>
   \<exists>t. run_steps (coro_step (int n)) (replicate i ()) s = Some t \<and> going_up root n 0 t"
proof (induction i arbitrary: s)
  case 0
  then show ?case by simp
next
  case (Suc i)
  obtain t where "coro_step (int n) () s = Some t" "going_up root n i t"
    using up_step [OF Suc.prems(1,2)] by blast
  then show ?case using Suc.IH [of t] Suc.prems(2) by auto
qed

lemma coro_run:
  assumes "0 < n" and "n < 2 ^ 31"
  shows "\<exists>t. run_steps (coro_step (int n)) (replicate (2 * n - 1) ()) (coro_start root) = Some t \<and>
    going_up root n 0 t"
proof -
  obtain i where n: "n = Suc i" using assms(1) gr0_implies_Suc by blast
  obtain s where s: "coro_step (int n) () (going_down root i) = Some s" "going_up root n i s"
    using turn_step [OF assms(2) n] by blast
  obtain t where t: "run_steps (coro_step (int n)) (replicate i ()) s = Some t" "going_up root n 0 t"
    using run_up [OF s(2)] n by auto
  have "run_steps (coro_step (int n)) (replicate i ()) (coro_start root) = Some (going_down root i)"
    using run_down [of i n] n assms(2) by simp
  then have "run_steps (coro_step (int n)) (replicate i () @ () # replicate i ()) (coro_start root) = Some t"
    using s(1) t(1) by (simp add: run_steps_append)
  moreover have "replicate i () @ () # replicate i () = replicate (2 * n - 1) ()"
    by (simp add: n replicate_add [symmetric] flip: replicate_Suc)
  ultimately show ?thesis using t(2) by auto
qed

text \<open>
  C37. The ping-pong of TMC tasks and external coroutines, with either kind first and any limit from 1 to the
  largest \<open>int\<close>: after \<open>2 limit - 1\<close> resumptions the future holds the limit and nothing is left to
  run; no frame is touched after its destruction, every frame has been freed, and \<open>destroy\<close>
  has been called exactly once on each external frame but the posted one, innermost first.
\<close>

theorem external_coro_result:
  assumes "1 \<le> limit" and "limit < 2 ^ 31"
  shows "\<exists>s. run_steps (coro_step limit) (replicate (2 * nat limit - 1) ()) (coro_start root) = Some s \<and>
    stuck (coro_step limit) s \<and> future s = Some limit \<and> check_result limit (the (future s)) = [] \<and>
    \<not> broken s \<and> (\<forall>h f. frames s h = Some f \<longrightarrow> freed f) \<and>
    destroyed s = filter (\<lambda>h. kind_of root h = External) (rev [1..<nat limit])"
proof -
  obtain s where "run_steps (coro_step (int (nat limit))) (replicate (2 * nat limit - 1) ()) (coro_start root) = Some s"
    and up: "going_up root (nat limit) 0 s"
    using coro_run [of "nat limit" root] assms by (force simp: nat_less_iff)
  moreover have "int (nat limit) = limit" using assms(1) by simp
  moreover have "freed f" if "frames s h = Some f" for h f
  proof -
    have "h < nat limit" using up that by (cases "h < nat limit") (auto simp: going_up_def)
    then show ?thesis using up that by (auto simp: going_up_def)
  qed
  moreover have "stuck (coro_step limit) s"
    using up by (simp add: going_up_def stuck_def coro_step_def)
  ultimately show ?thesis
    using up by (auto simp: going_up_def check_result_def)
qed

theorem external_coro_result_witness:
  "\<exists>s. run_steps (coro_step 5) (replicate 9 ()) (coro_start Internal) = Some s \<and> future s = Some 5 \<and>
     destroyed s = [3, 1]"
proof -
  have "filter (\<lambda>h. kind_of Internal h = External) (rev [1..<5]) = [3, 1 :: nat]"
    by (simp add: kind_of_def other_def upt_rec)
  then show ?thesis using external_coro_result [of 5 Internal] by (simp add: kind_of_def) blast
qed

section \<open>Awaiting \<open>external_coro<void>\<close>\<close>

text \<open>
  The awaiter of the void type, which no program of the repository uses. Its promise does not transfer to
  the continuation at its end: \<open>final_suspend\<close> is \<open>suspend_never\<close>, so the frame is freed and control goes
  back to whoever resumed it.
\<close>

definition void_await_suspend :: "nat \<Rightarrow> cframe \<Rightarrow> cheap \<Rightarrow> cheap" where
  "void_await_suspend h f s = coro_await h f s"

definition void_return :: "nat \<Rightarrow> cframe \<Rightarrow> cheap \<Rightarrow> cheap" where
  "void_return h f s =
     s\<lparr>frames := (frames s)(h \<mapsto> f\<lparr>cpc := FinalSuspend, freed := True\<rparr>), current := None\<rparr>"

definition void_await_resume :: "nat \<Rightarrow> cheap \<Rightarrow> cheap" where
  "void_await_resume child s =
     (case frames s child of
        None \<Rightarrow> s\<lparr>broken := True\<rparr>
      | Some g \<Rightarrow>
          s\<lparr>frames := (frames s)(child \<mapsto> g\<lparr>freed := True\<rparr>), destroyed := destroyed s @ [child],
            broken := broken s \<or> freed g \<or> cpc g \<noteq> FinalSuspend\<rparr>)"

text \<open>A task that awaits an \<open>external_coro<void>\<close>, which returns at once.\<close>

definition void_step :: "unit \<Rightarrow> cheap \<Rightarrow> cheap option" where
  "void_step _ s =
     (case current s of
        None \<Rightarrow> None
      | Some h \<Rightarrow>
          (case frames s h of
             None \<Rightarrow> None
           | Some f \<Rightarrow> Some (
               case cpc f of
                 InitialSuspend \<Rightarrow> if kind f = Internal then void_await_suspend h f s else void_return h f s
               | Awaiting child \<Rightarrow> coro_return h f 0 (void_await_resume child s)
               | FinalSuspend \<Rightarrow> s\<lparr>broken := True, current := None\<rparr>)))"

text \<open>
  The awaiting task is never resumed, although its handle is stored as the continuation: everything stops with
  the task suspended and its frame allocated. Were it resumed, it would destroy a frame that is already freed.
\<close>

lemma void_awaiter_lost:
  "\<exists>s f g. run_steps void_step [(), ()] (coro_start Internal) = Some s \<and> stuck void_step s \<and>
     frames s 0 = Some f \<and> cpc f = Awaiting 1 \<and> \<not> freed f \<and> future s = None \<and>
     frames s 1 = Some g \<and> continuation g = Some 0 \<and> freed g \<and>
     \<not> broken s \<and> broken (void_await_resume 1 s)"
  by (simp add: coro_start_def void_step_def new_frame_def void_await_suspend_def coro_await_def Let_def
      other_def void_return_def stuck_def void_await_resume_def)

end
