(* ===== verification/Callback.thy ===== *)
theory Callback
  imports Prelude Fp
begin

text \<open>
  \<open>external/callback_awaitable.hpp\<close> and \<open>callback_awaitable.cpp\<close>: an asynchronous function that takes a
  callback becomes an awaitable. One such awaitable is awaited directly, or several through
  \<open>spawn_tuple\<close>. The function may call its callback before it returns or at any later time, from any thread.
\<close>

section \<open>The part of the library\<close>

text \<open>
  \<open>resume_continuation\<close> of the library's customizer: of the awaitables that share a continuation the last
  one to complete gets it. A directly awaited one is alone.
\<close>

record 'd counter_ops =
  cd_make :: "nat \<Rightarrow> 'd"
  cd_complete :: "'d \<Rightarrow> 'd \<times> bool"    \<comment> \<open>\<open>True\<close>: the continuation is returned\<close>

definition counter_laws :: "'d counter_ops \<Rightarrow> ('d \<Rightarrow> nat) \<Rightarrow> bool" where
  "counter_laws D left \<longleftrightarrow>
     (\<forall>n. left (cd_make D n) = n) \<and>
     (\<forall>d. 0 < left d \<longrightarrow> (case cd_complete D d of (d', l) \<Rightarrow> left d = Suc (left d') \<and> l = (left d' = 0)))"

lemma counter_make: "counter_laws D left \<Longrightarrow> left (cd_make D n) = n"
  by (simp add: counter_laws_def)

lemma counter_complete:
  "counter_laws D left \<Longrightarrow> cd_complete D d = (d', l) \<Longrightarrow> 0 < left d \<Longrightarrow>
   left d = Suc (left d') \<and> l = (left d' = 0)"
  unfolding counter_laws_def by (auto dest!: spec [of _ d])

definition nat_counter :: "nat counter_ops" where
  "nat_counter = \<lparr>cd_make = (\<lambda>n. n), cd_complete = (\<lambda>d. (d - 1, d - 1 = 0))\<rparr>"

lemma nat_counter_laws: "counter_laws nat_counter (\<lambda>d. d)"
  by (simp add: counter_laws_def nat_counter_def)

section \<open>Awaiting callbacks\<close>

text \<open>
  Every statement is a step of its own, because the callbacks may run on other threads, or inside of the call that
  initiates them. Of an awaitable: what fills in its customizer, and its call; and how far its callback is:
  the function has not been called yet, the callback may come, it has stored its arguments and is about to look for
  the continuation, it is over.
\<close>

datatype cstmt = SetContinuation | SetResultPtr | CallAsync

datatype cbpc = CUncalled | CExpected | CStored | CDone

text \<open>
  \<open>script\<close> is what the awaiting side has still to do, for which awaitable; \<open>received\<close> is what the
  awaiting task found in its storage when it was resumed. Using an unset pointer or continuation is recorded in \<open>wild\<close>.
\<close>

record ('d, 'r) callbacks =
  script :: "(nat \<times> cstmt) list"
  done_count :: 'd
  result_ptrs :: "nat option list"
  continuations :: "bool list"
  cbs :: "cbpc list"
  storage :: "'r option list"
  resumptions :: nat
  received :: "'r option list option"
  wild :: bool

definition await_callbacks :: "'d counter_ops \<Rightarrow> (nat \<times> cstmt) list \<Rightarrow> nat \<Rightarrow> ('d, 'r) callbacks" where
  "await_callbacks D todo n =
     \<lparr>script = todo, done_count = cd_make D n, result_ptrs = replicate n None, continuations = replicate n False,
      cbs = replicate n CUncalled, storage = replicate n None, resumptions = 0, received = None, wild = False\<rparr>"

text \<open>
  \<open>await_suspend\<close> of the awaiter, in the order of its statements; and the directly awaited one as a script. A
  group of the library uses the setters of the awaitable traits instead, in an order of its own; what it promises is
  that it prepares an awaitable before it initiates it, and initiates each one once.
\<close>

definition await_suspend :: "cstmt list" where
  "await_suspend = [SetContinuation, SetResultPtr, CallAsync]"

definition direct_script :: "(nat \<times> cstmt) list" where
  "direct_script = map (Pair 0) await_suspend"

fun prepared :: "(nat \<times> cstmt) list \<Rightarrow> nat set \<Rightarrow> nat set \<Rightarrow> bool" where
  "prepared [] C R = True"
| "prepared ((i, SetContinuation) # st) C R = prepared st (insert i C) R"
| "prepared ((i, SetResultPtr) # st) C R = prepared st C (insert i R)"
| "prepared ((i, CallAsync) # st) C R = (i \<in> C \<and> i \<in> R \<and> prepared st C R)"

fun async_calls :: "(nat \<times> cstmt) list \<Rightarrow> nat list" where
  "async_calls [] = []"
| "async_calls ((i, x) # st) = (if x = CallAsync then i # async_calls st else async_calls st)"

definition group_script :: "nat \<Rightarrow> (nat \<times> cstmt) list \<Rightarrow> bool" where
  "group_script n st \<longleftrightarrow> prepared st {} {} \<and> distinct (async_calls st) \<and> set (async_calls st) = {0..<n} \<and>
     list_all (\<lambda>(i, x). i < n) st"

text \<open>The statements: the setters of the awaitable traits, and \<open>async_initiate\<close>, which calls the function.\<close>

definition set_continuation :: "nat \<Rightarrow> ('d, 'r) callbacks \<Rightarrow> ('d, 'r) callbacks" where
  "set_continuation i s = s\<lparr>continuations := (continuations s)[i := True]\<rparr>"

definition set_result_ptr :: "nat \<Rightarrow> nat \<Rightarrow> ('d, 'r) callbacks \<Rightarrow> ('d, 'r) callbacks" where
  "set_result_ptr i ptr s = s\<lparr>result_ptrs := (result_ptrs s)[i := Some ptr]\<rparr>"

definition async_initiate :: "nat \<Rightarrow> ('d, 'r) callbacks \<Rightarrow> ('d, 'r) callbacks" where
  "async_initiate i s = s\<lparr>cbs := (cbs s)[i := CExpected]\<rparr>"

definition initiate :: "('d, 'r) callbacks \<Rightarrow> ('d, 'r) callbacks option" where
  "initiate s =
     (case script s of
        [] \<Rightarrow> None
      | (i, SetContinuation) # st \<Rightarrow> Some ((set_continuation i s)\<lparr>script := st\<rparr>)
      | (i, SetResultPtr) # st \<Rightarrow> Some ((set_result_ptr i i s)\<lparr>script := st\<rparr>)
      | (i, CallAsync) # st \<Rightarrow> Some ((async_initiate i s)\<lparr>script := st\<rparr>))"

lemmas setter_defs = set_continuation_def set_result_ptr_def async_initiate_def

text \<open>\<open>await_resume\<close> of each awaitable moves its result out; an empty optional is undefined (\<open>None\<close>).\<close>

definition callback_await_resume :: "('d, 'r) callbacks \<Rightarrow> 'r option list" where
  "callback_await_resume s = storage s"

text \<open>
  \<open>callback\<close>: first the arguments are stored through the pointer, then \<open>resume_continuation\<close> of the customizer is
  called, and if it returns the continuation, that is resumed.
\<close>

definition callback_store :: "(nat \<Rightarrow> 'r) \<Rightarrow> nat \<Rightarrow> ('d, 'r) callbacks \<Rightarrow> ('d, 'r) callbacks" where
  "callback_store results i s =
     (case result_ptrs s ! i of
        None \<Rightarrow> s\<lparr>wild := True\<rparr>
      | Some p \<Rightarrow> s\<lparr>storage := (storage s)[p := Some (results i)]\<rparr>)"

definition callback_resume :: "'d counter_ops \<Rightarrow> nat \<Rightarrow> ('d, 'r) callbacks \<Rightarrow> ('d, 'r) callbacks" where
  "callback_resume D i s =
     (case cd_complete D (done_count s) of
        (d, isfinal) \<Rightarrow>
          if isfinal
          then s\<lparr>done_count := d, resumptions := resumptions s + 1, received := Some (callback_await_resume s),
                 wild := wild s \<or> \<not> continuations s ! i\<rparr>
          else s\<lparr>done_count := d\<rparr>)"

definition callback :: "'d counter_ops \<Rightarrow> (nat \<Rightarrow> 'r) \<Rightarrow> nat \<Rightarrow> ('d, 'r) callbacks \<Rightarrow> ('d, 'r) callbacks option" where
  "callback D results i s =
     (if i < length (cbs s) then
        (case cbs s ! i of
           CExpected \<Rightarrow> Some ((callback_store results i s)\<lparr>cbs := (cbs s)[i := CStored]\<rparr>)
         | CStored \<Rightarrow> Some ((callback_resume D i s)\<lparr>cbs := (cbs s)[i := CDone]\<rparr>)
         | _ \<Rightarrow> None)
      else None)"

datatype callback_agent = Initiate | Call_Back nat

fun callbacks_step :: "'d counter_ops \<Rightarrow> (nat \<Rightarrow> 'r) \<Rightarrow> callback_agent \<Rightarrow> ('d, 'r) callbacks \<Rightarrow> ('d, 'r) callbacks option" where
  "callbacks_step D results Initiate s = initiate s"
| "callbacks_step D results (Call_Back i) s = callback D results i s"

section \<open>The program\<close>

text \<open>The arguments with which the functions call their callbacks.\<close>

datatype cvalue = CFloat rat | CInt int | CMoveOnly int

definition simulated_async_fn_void :: "cvalue list" where
  "simulated_async_fn_void = []"

definition simulated_async_fn :: "int \<Rightarrow> cvalue list" where
  "simulated_async_fn input =
     (let f = float_round (of_int input) in [CFloat (float_round (f + 1)), CFloat (float_round (f + 2))])"

definition simulated_async_fn2 :: "rat \<Rightarrow> rat \<Rightarrow> cvalue list" where
  "simulated_async_fn2 input1 input2 = [CInt (trunc (float_round (input1 + input2)))]"

definition simulated_async_fn_move_only :: "int \<Rightarrow> cvalue list" where
  "simulated_async_fn_move_only input = [CMoveOnly (input + 1)]"

text \<open>The five \<open>co_await\<close> expressions of \<open>main\<close>: the functions awaited, and the values asserted.\<close>

definition callback_main :: "(cvalue list list \<times> cvalue list list) list" where
  "callback_main =
     [([simulated_async_fn_void], [[]]),
      ([simulated_async_fn 1], [[CFloat 2, CFloat 3]]),
      ([simulated_async_fn2 4 6], [[CInt 10]]),
      ([simulated_async_fn_move_only 1], [[CMoveOnly 2]]),
      ([simulated_async_fn 1, simulated_async_fn_move_only 1], [[CFloat 2, CFloat 3], [CMoveOnly 2]])]"

section \<open>The invariant\<close>

text \<open>The awaitables whose callbacks have not yet looked for the continuation.\<close>

definition unfinished_cbs :: "cbpc list \<Rightarrow> nat" where
  "unfinished_cbs pcs = sum_list (map (\<lambda>c. of_bool (c \<noteq> CDone)) pcs)"

definition callbacks_inv :: "'d counter_ops \<Rightarrow> ('d \<Rightarrow> nat) \<Rightarrow> (nat \<Rightarrow> 'r) \<Rightarrow> nat \<Rightarrow> ('d, 'r) callbacks \<Rightarrow> bool" where
  "callbacks_inv D left results n s \<longleftrightarrow>
     counter_laws D left \<and> 0 < n \<and> \<not> wild s \<and>
     length (result_ptrs s) = n \<and> length (continuations s) = n \<and> length (cbs s) = n \<and> length (storage s) = n \<and>
     prepared (script s) {i. i < n \<and> continuations s ! i} {i. i < n \<and> result_ptrs s ! i = Some i} \<and>
     distinct (async_calls (script s)) \<and> list_all (\<lambda>(i, x). i < n) (script s) \<and>
     (\<forall>i<n. (cbs s ! i = CUncalled) = (i \<in> set (async_calls (script s))) \<and>
        (cbs s ! i \<noteq> CUncalled \<longrightarrow> continuations s ! i \<and> result_ptrs s ! i = Some i) \<and>
        storage s ! i = (if cbs s ! i \<in> {CStored, CDone} then Some (results i) else None)) \<and>
     left (done_count s) = unfinished_cbs (cbs s) \<and>
     resumptions s = of_bool (left (done_count s) = 0) \<and>
     received s = (if left (done_count s) = 0 then Some (map (Some \<circ> results) [0..<n]) else None)"

fun cb_work :: "cbpc \<Rightarrow> nat" where
  "cb_work CUncalled = 2"
| "cb_work CExpected = 2"
| "cb_work CStored = 1"
| "cb_work CDone = 0"

definition callbacks_work :: "('d, 'r) callbacks \<Rightarrow> nat" where
  "callbacks_work s = length (script s) + sum_list (map cb_work (cbs s))"

lemma callbacks_invD:
  assumes "callbacks_inv D left results n s"
  shows "counter_laws D left" "0 < n" "\<not> wild s" "length (result_ptrs s) = n" "length (continuations s) = n"
    "length (cbs s) = n" "length (storage s) = n"
    "prepared (script s) {i. i < n \<and> continuations s ! i} {i. i < n \<and> result_ptrs s ! i = Some i}"
    "distinct (async_calls (script s))" "list_all (\<lambda>(i, x). i < n) (script s)"
    "i < n \<Longrightarrow> (cbs s ! i = CUncalled) = (i \<in> set (async_calls (script s)))"
    "i < n \<Longrightarrow> cbs s ! i \<noteq> CUncalled \<Longrightarrow> continuations s ! i \<and> result_ptrs s ! i = Some i"
    "i < n \<Longrightarrow> storage s ! i = (if cbs s ! i \<in> {CStored, CDone} then Some (results i) else None)"
    "left (done_count s) = unfinished_cbs (cbs s)" "resumptions s = of_bool (left (done_count s) = 0)"
    "received s = (if left (done_count s) = 0 then Some (map (Some \<circ> results) [0..<n]) else None)"
  using assms unfolding callbacks_inv_def by blast+

lemma unfinished_update:
  "i < length pcs \<Longrightarrow> unfinished_cbs (pcs[i := c]) + of_bool (pcs ! i \<noteq> CDone) = unfinished_cbs pcs + of_bool (c \<noteq> CDone)"
  using sum_map_update [of i pcs "\<lambda>c. of_bool (c \<noteq> CDone)" c] by (simp add: unfinished_cbs_def)

lemma unfinished_zero: "unfinished_cbs pcs = 0 \<longleftrightarrow> (\<forall>c\<in>set pcs. c = CDone)"
  by (simp add: unfinished_cbs_def sum_map_zero_iff)

lemma set_where:
  "i < n \<Longrightarrow> length bs = n \<Longrightarrow> {j. j < n \<and> bs[i := True] ! j} = insert i {j. j < n \<and> bs ! j}"
  "i < n \<Longrightarrow> length ps = n \<Longrightarrow> {j. j < n \<and> ps[i := Some i] ! j = Some j} = insert i {j. j < n \<and> ps ! j = Some j}"
  by (auto simp: nth_list_update)

lemma initiate_keeps:
  assumes inv: "callbacks_inv D left results n s" and step: "initiate s = Some t"
  shows "callbacks_inv D left results n t \<and> callbacks_work t < callbacks_work s"
proof -
  note I = callbacks_invD [OF inv]
  obtain i x st where sc: "script s = (i, x) # st" using step by (auto simp: initiate_def split: list.splits)
  then have i: "i < n" using I(10) by simp
  show ?thesis
  proof (cases x)
    case SetContinuation
    then have t: "t = s\<lparr>script := st, continuations := (continuations s)[i := True]\<rparr>"
      using step sc by (cases s) (auto simp: initiate_def setter_defs)
    have "callbacks_inv D left results n t"
      using inv sc SetContinuation set_where(1) [OF i I(5)] unfolding callbacks_inv_def t
      by (auto simp: nth_list_update)
    then show ?thesis by (simp add: callbacks_work_def t sc)
  next
    case SetResultPtr
    then have t: "t = s\<lparr>script := st, result_ptrs := (result_ptrs s)[i := Some i]\<rparr>"
      using step sc by (cases s) (auto simp: initiate_def setter_defs)
    have "callbacks_inv D left results n t"
      using inv sc SetResultPtr set_where(2) [OF i I(4)] unfolding callbacks_inv_def t
      by (auto simp: nth_list_update)
    then show ?thesis by (simp add: callbacks_work_def t sc)
  next
    case CallAsync
    then have t: "t = s\<lparr>script := st, cbs := (cbs s)[i := CExpected]\<rparr>"
      using step sc by (cases s) (auto simp: initiate_def setter_defs)
    have pc: "cbs s ! i = CUncalled" using I(11) [OF i] sc CallAsync by simp
    have "unfinished_cbs ((cbs s)[i := CExpected]) = unfinished_cbs (cbs s)"
      using unfinished_update [of i "cbs s" CExpected] i I(6) pc by simp
    moreover have "continuations s ! i \<and> result_ptrs s ! i = Some i" using I(8) sc CallAsync by simp
    ultimately have "callbacks_inv D left results n t"
      using inv sc CallAsync pc i unfolding callbacks_inv_def t by (auto simp: nth_list_update)
    moreover have "sum_list (map cb_work ((cbs s)[i := CExpected])) = sum_list (map cb_work (cbs s))"
      using sum_map_update [of i "cbs s" cb_work CExpected] i I(6) pc by simp
    ultimately show ?thesis by (simp add: callbacks_work_def t sc)
  qed
qed

lemma callback_keeps:
  assumes inv: "callbacks_inv D left results n s" and step: "callback D results i s = Some t"
  shows "callbacks_inv D left results n t \<and> callbacks_work t < callbacks_work s"
proof -
  note I = callbacks_invD [OF inv]
  have i: "i < n" "i < length (cbs s)" using step I(6) by (auto simp: callback_def split: if_splits)
  note work = sum_map_update [OF i(2), of cb_work]
  consider (store) "cbs s ! i = CExpected" | (resume) "cbs s ! i = CStored"
    using step i by (auto simp: callback_def split: cbpc.splits)
  then show ?thesis
  proof cases
    case store
    then have ptr: "continuations s ! i" "result_ptrs s ! i = Some i" using I(12) [OF i(1)] by simp_all
    have t: "t = s\<lparr>cbs := (cbs s)[i := CStored], storage := (storage s)[i := Some (results i)]\<rparr>"
      using step i store ptr by (cases s) (auto simp: callback_def callback_store_def)
    have "unfinished_cbs ((cbs s)[i := CStored]) = unfinished_cbs (cbs s)"
      using unfinished_update [OF i(2), of CStored] store by simp
    then have "callbacks_inv D left results n t"
      using inv i store ptr unfolding callbacks_inv_def t by (auto simp: nth_list_update)
    then show ?thesis using work [of CStored] store by (simp add: callbacks_work_def t)
  next
    case resume
    have conts: "continuations s ! i" using I(12) [OF i(1)] resume by simp
    obtain d isfinal where d: "cd_complete D (done_count s) = (d, isfinal)" by (cases "cd_complete D (done_count s)")
    have less: "unfinished_cbs (cbs s) = Suc (unfinished_cbs ((cbs s)[i := CDone]))"
      using unfinished_update [OF i(2), of CDone] resume by simp
    then have pos: "0 < left (done_count s)" using I(14) by simp
    note dec = counter_complete [OF I(1) d pos]
    have left: "left d = unfinished_cbs ((cbs s)[i := CDone])" and isfinal: "isfinal = (left d = 0)"
      using dec less I(14) by simp_all
    have none: "resumptions s = 0" "received s = None" using I(15,16) pos by simp_all
    have all: "storage s = map (Some \<circ> results) [0..<n]" if "left d = 0"
    proof (rule nth_equalityI)
      show "storage s ! j = map (Some \<circ> results) [0..<n] ! j" if j: "j < length (storage s)" for j
      proof -
        have "\<forall>c\<in>set ((cbs s)[i := CDone]). c = CDone" using \<open>left d = 0\<close> left unfinished_zero by metis
        then have "(cbs s)[i := CDone] ! j = CDone" using j I(6,7) by (metis length_list_update nth_mem)
        then have "cbs s ! j \<in> {CStored, CDone}" using resume i by (cases "j = i") auto
        then show ?thesis using I(13) [of j] j I(7) by simp
      qed
    qed (simp add: I(7))
    have "t = (callback_resume D i s)\<lparr>cbs := (cbs s)[i := CDone]\<rparr>"
      using step i resume by (simp add: callback_def)
    then have t: "t = s\<lparr>done_count := d, cbs := (cbs s)[i := CDone], resumptions := of_bool isfinal,
        received := if isfinal then Some (storage s) else None\<rparr>"
      by (intro callbacks.equality)
        (simp_all add: callback_resume_def callback_await_resume_def d none I(3) conts)
    have "received t = (if left (done_count t) = 0 then Some (map (Some \<circ> results) [0..<n]) else None)"
      using all isfinal by (simp add: t)
    moreover have "prepared (script t) {i. i < n \<and> continuations t ! i} {i. i < n \<and> result_ptrs t ! i = Some i}"
      using I(8) by (simp add: t)
    moreover have "(cbs t ! j = CUncalled) = (j \<in> set (async_calls (script t))) \<and>
        (cbs t ! j \<noteq> CUncalled \<longrightarrow> continuations t ! j \<and> result_ptrs t ! j = Some j) \<and>
        storage t ! j = (if cbs t ! j \<in> {CStored, CDone} then Some (results j) else None)" if j: "j < n" for j
      using I(11-13) [OF j] resume i unfolding t by (cases "j = i") auto
    ultimately have "callbacks_inv D left results n t"
      unfolding callbacks_inv_def using I(1-7,9,10) left isfinal by (simp add: t)
    then show ?thesis using work [of CDone] resume by (simp add: callbacks_work_def t)
  qed
qed

lemma callbacks_keep:
  assumes "callbacks_inv D left results n s" and "callbacks_step D results a s = Some t"
  shows "callbacks_inv D left results n t \<and> callbacks_work t < callbacks_work s"
proof (cases a)
  case Initiate
  then show ?thesis using initiate_keeps [OF assms(1)] assms(2) by simp
next
  case (Call_Back i)
  then show ?thesis using callback_keeps [OF assms(1)] assms(2) by simp
qed

lemma callbacks_progress:
  assumes inv: "callbacks_inv D left results n s" and stuck: "stuck (callbacks_step D results) s"
  shows "resumptions s = 1"
proof -
  note I = callbacks_invD [OF inv]
  have "initiate s = None" using stuckD [OF stuck, of Initiate] by simp
  then have empty: "script s = []"
    by (auto simp: initiate_def split: list.splits prod.splits cstmt.splits)
  have "cbs s ! i = CDone" if "i < n" for i
  proof -
    have "cbs s ! i \<noteq> CUncalled" using I(11) [OF that] empty by simp
    then show ?thesis
      using stuckD [OF stuck, of "Call_Back i"] that I(6) by (auto simp: callback_def split: cbpc.splits)
  qed
  then have "\<forall>c\<in>set (cbs s). c = CDone" using I(6) by (auto simp: in_set_conv_nth)
  then have "unfinished_cbs (cbs s) = 0" using unfinished_zero by blast
  then show ?thesis using I(14,15) by simp
qed

interpretation callbacks: terminating_system "callbacks_step D results" "callbacks_inv D left results n"
    callbacks_work "\<lambda>s. resumptions s = 1"
  for D left results n
  by unfold_locales (use callbacks_keep callbacks_progress in blast)+

lemma direct_group: "group_script 1 direct_script"
  by (auto simp: group_script_def direct_script_def await_suspend_def)

lemma none_of:
  "{i. i < n \<and> replicate n False ! i} = {}" "{i. i < n \<and> replicate n None ! i = Some i} = {}"
  by auto

lemma callbacks_start:
  assumes "counter_laws D left" and "0 < n" and "group_script n todo"
  shows "callbacks_inv D left results n (await_callbacks D todo n)"
    and "callbacks_work (await_callbacks D todo n) = length todo + 2 * n"
proof -
  have "unfinished_cbs (replicate n CUncalled) = n" by (simp add: unfinished_cbs_def sum_list_replicate)
  moreover have "prepared todo {i. i < n \<and> replicate n False ! i} {i. i < n \<and> replicate n None ! i = Some i}"
    using assms(3) unfolding group_script_def none_of by blast
  ultimately show "callbacks_inv D left results n (await_callbacks D todo n)"
    using assms counter_make [OF assms(1)] by (simp add: callbacks_inv_def await_callbacks_def group_script_def)
  show "callbacks_work (await_callbacks D todo n) = length todo + 2 * n"
    by (simp add: callbacks_work_def await_callbacks_def sum_list_replicate)
qed

lemma program_values: "list_all (\<lambda>(delivered, asserted). delivered = asserted) callback_main"
proof -
  have exact: "float_round (of_int k) = of_int k" if "\<bar>k\<bar> < 2 ^ 24" for k
    unfolding float_round_def using that by (intro fp_round_exact [of _ k 0]) (auto simp: pow2_def)
  then have "float_round 1 = 1" "float_round 2 = 2" "float_round 3 = 3" "float_round 10 = 10"
    using exact [of 1] exact [of 2] exact [of 3] exact [of 10] by simp_all
  then show ?thesis
    by (simp add: callback_main_def simulated_async_fn_void_def simulated_async_fn_def Let_def
        simulated_async_fn2_def simulated_async_fn_move_only_def trunc_def)
qed

text \<open>
  C39. Awaiting one callback, or several in a group that prepares each awaitable before it initiates it, with every
  statement of \<open>await_suspend\<close>, of the setters and of the callbacks interleaved with those of all other
  callbacks, which may come from any thread and also before the call that initiates them returns: no pointer or
  continuation is used before it is set; the awaiting task is resumed exactly once, and when it is, every result is
  in its place, each the one that its function passed to the callback. All is over after the statements of the awaiting
  side and two for each callback. For the functions of the program the results are the values that it asserts.
\<close>

theorem callback_awaitable_results:
  assumes "counter_laws D left" and "n = length results" and "0 < n"
    and "n = 1 \<and> todo = direct_script \<or> group_script n todo"
    and run: "run_steps (callbacks_step D (\<lambda>i. results ! i)) ks (await_callbacks D todo n) = Some s"
  shows "length ks \<le> length todo + 2 * n \<and> \<not> wild s \<and> resumptions s \<le> 1 \<and>
    (resumptions s = 1) = (received s \<noteq> None) \<and>
    (\<forall>r. received s = Some r \<longrightarrow> r = map Some results) \<and>
    (stuck (callbacks_step D (\<lambda>i. results ! i)) s \<longrightarrow> resumptions s = 1) \<and>
    list_all (\<lambda>(delivered, asserted). delivered = asserted) callback_main"
proof -
  have "group_script n todo" using assms(4) direct_group by blast
  note start = callbacks_start(1) [OF assms(1,3) this] callbacks_start(2) [OF assms(1,3) this]
  have inv: "callbacks_inv D left (\<lambda>i. results ! i) n s" using callbacks.run_inv [OF start(1) run] .
  note I = callbacks_invD [OF inv]
  have "length ks \<le> length todo + 2 * n"
    using callbacks.run_bound [OF start(1) run] unfolding start(2) by linarith
  moreover have "r = map Some results" if "received s = Some r" for r
  proof -
    have "r = map (Some \<circ> (\<lambda>i. results ! i)) [0..<n]" using I(16) that by (simp split: if_splits)
    then show ?thesis unfolding assms(2) by (simp flip: map_map add: map_nth)
  qed
  moreover have "stuck (callbacks_step D (\<lambda>i. results ! i)) s \<longrightarrow> resumptions s = 1"
    using callbacks_progress [OF inv] by blast
  moreover have "resumptions s \<le> 1" "(resumptions s = 1) = (received s \<noteq> None)" using I(15,16) by simp_all
  ultimately show ?thesis using I(3) program_values by blast
qed

text \<open>
  The inline callback of a direct await; and the two awaitables of \<open>spawn_tuple\<close>, the first called back only after
  the second, whose two statements it interrupts.
\<close>

definition tuple_script :: "(nat \<times> cstmt) list" where
  "tuple_script = [(0, SetContinuation), (0, SetResultPtr), (1, SetContinuation), (1, SetResultPtr),
     (0, CallAsync), (1, CallAsync)]"

theorem callback_awaitable_results_witness:
  "(\<exists>s. run_steps (callbacks_step nat_counter (\<lambda>i. [simulated_async_fn2 4 6] ! i))
      [Initiate, Initiate, Initiate, Call_Back 0, Call_Back 0] (await_callbacks nat_counter direct_script 1) = Some s \<and>
     received s = Some (map Some [simulated_async_fn2 4 6])) \<and>
   (\<exists>s. run_steps (callbacks_step nat_counter (\<lambda>i. [simulated_async_fn 1, simulated_async_fn_move_only 1] ! i))
      [Initiate, Initiate, Initiate, Initiate, Initiate, Initiate, Call_Back 1, Call_Back 0, Call_Back 0, Call_Back 1]
      (await_callbacks nat_counter tuple_script 2) = Some s \<and>
     received s = Some (map Some [simulated_async_fn 1, simulated_async_fn_move_only 1]))"
proof
  obtain s r where s: "run_steps (callbacks_step nat_counter (\<lambda>i. [simulated_async_fn2 4 6] ! i))
      [Initiate, Initiate, Initiate, Call_Back 0, Call_Back 0] (await_callbacks nat_counter direct_script 1) = Some s"
    "received s = Some r"
    by (simp add: await_callbacks_def direct_script_def await_suspend_def nat_counter_def initiate_def setter_defs
        callback_def callback_store_def callback_resume_def)
  have "1 = length [simulated_async_fn2 4 6]" by simp
  from callback_awaitable_results [OF nat_counter_laws this _ _ s(1)] s
  show "\<exists>s. run_steps (callbacks_step nat_counter (\<lambda>i. [simulated_async_fn2 4 6] ! i))
      [Initiate, Initiate, Initiate, Call_Back 0, Call_Back 0] (await_callbacks nat_counter direct_script 1) = Some s \<and>
     received s = Some (map Some [simulated_async_fn2 4 6])" by auto
next
  obtain s r where s: "run_steps (callbacks_step nat_counter (\<lambda>i. [simulated_async_fn 1, simulated_async_fn_move_only 1] ! i))
      [Initiate, Initiate, Initiate, Initiate, Initiate, Initiate, Call_Back 1, Call_Back 0, Call_Back 0, Call_Back 1]
      (await_callbacks nat_counter tuple_script 2) = Some s" "received s = Some r"
    by (simp add: await_callbacks_def tuple_script_def nat_counter_def initiate_def setter_defs callback_def
        callback_store_def callback_resume_def numeral_2_eq_2)
  have len: "2 = length [simulated_async_fn 1, simulated_async_fn_move_only 1]" by simp
  have "group_script 2 tuple_script" by (auto simp: group_script_def tuple_script_def)
  then have "(2 :: nat) = 1 \<and> tuple_script = direct_script \<or> group_script 2 tuple_script" by blast
  from callback_awaitable_results [OF nat_counter_laws len _ this s(1)] s
  show "\<exists>s. run_steps (callbacks_step nat_counter (\<lambda>i. [simulated_async_fn 1, simulated_async_fn_move_only 1] ! i))
      [Initiate, Initiate, Initiate, Initiate, Initiate, Initiate, Call_Back 1, Call_Back 0, Call_Back 0, Call_Back 1]
      (await_callbacks nat_counter tuple_script 2) = Some s \<and>
     received s = Some (map Some [simulated_async_fn 1, simulated_async_fn_move_only 1])" by auto
qed

end
