(* ===== verification/Http_Framing.thy ===== *)
theory Http_Framing
  imports Format "HOL-Library.Sublist"
begin

text \<open>
  The responses of the three servers as bytes on a connection, and a client that reads them back:
  three lines, an empty line, and as many bytes of body as the second line announces. Lines end with
  a line feed, as the programs write them.
\<close>

section \<open>What the servers write\<close>

abbreviation nl :: char where
  "nl \<equiv> CHR 0x0A"

text \<open>The literal of \<open>http_server.cpp\<close> and of the two \<open>hwloc\<close> servers.\<close>

definition static_response :: string where
  "static_response =
     ''HTTP/1.1 200 OK'' @ [nl] @
     ''Content-Length: 12'' @ [nl] @
     ''Content-Type: text/plain; charset=utf-8'' @ [nl] @
     [nl] @
     ''Hello World!''"

text \<open>The buffer that the handler of \<open>http_skynet.cpp\<close> fills.\<close>

definition skynet_response :: "string \<Rightarrow> string" where
  "skynet_response result =
     ''HTTP/1.1 200 OK'' @ [nl] @ ''Content-Length: '' @ to_string (length result) @
     [nl] @ ''Content-Type: text/plain; charset=utf-8'' @ [nl] @ [nl] @
     result"

section \<open>Reading a response\<close>

definition split_line :: "string \<Rightarrow> (string \<times> string) option" where
  "split_line s =
     (case dropWhile (\<lambda>c. c \<noteq> nl) s of
        [] \<Rightarrow> None
      | _ # rest \<Rightarrow> Some (takeWhile (\<lambda>c. c \<noteq> nl) s, rest))"

definition split_at :: "nat \<Rightarrow> string \<Rightarrow> (string \<times> string) option" where
  "split_at n s = (if n \<le> length s then Some (take n s, drop n s) else None)"

definition content_length :: "string \<Rightarrow> nat option" where
  "content_length l =
     (if take 16 l = ''Content-Length: '' then Some (digits_value (drop 16 l)) else None)"

definition read_response :: "string \<Rightarrow> (string \<times> string) option" where
  "read_response s =
     Option.bind (split_line s) (\<lambda>(status, s1).
     Option.bind (split_line s1) (\<lambda>(len, s2).
     Option.bind (split_line s2) (\<lambda>(type, s3).
     Option.bind (split_line s3) (\<lambda>(empty, s4).
       if status = ''HTTP/1.1 200 OK'' \<and> empty = []
       then Option.bind (content_length len) (\<lambda>n. split_at n s4)
       else None))))"

lemma split_line_line: "nl \<notin> set l \<Longrightarrow> split_line (l @ nl # rest) = Some (l, rest)"
proof -
  assume l: "nl \<notin> set l"
  then have "dropWhile (\<lambda>c. c \<noteq> nl) (l @ nl # rest) = nl # rest"
    by (subst dropWhile_append2) auto
  moreover have "takeWhile (\<lambda>c. c \<noteq> nl) (l @ nl # rest) = l"
    using l by (subst takeWhile_append2) auto
  ultimately show ?thesis by (simp add: split_line_def)
qed

lemma split_line_append:
  assumes "split_line s = Some (l, rest)"
  shows "split_line (s @ more) = Some (l, rest @ more)"
proof -
  from assms obtain c where d: "dropWhile (\<lambda>c. c \<noteq> nl) s = c # rest"
    and l: "l = takeWhile (\<lambda>c. c \<noteq> nl) s"
    by (auto simp: split_line_def split: list.splits)
  then have "c = nl" using hd_dropWhile [of "\<lambda>c. c \<noteq> nl" s] by auto
  moreover have "s = l @ c # rest" using d l by (metis takeWhile_dropWhile_id)
  moreover have "nl \<notin> set l" using l by (auto dest: set_takeWhileD)
  ultimately show ?thesis using split_line_line [of l "rest @ more"] by simp
qed

lemma split_line_shorter: "split_line s = Some (l, rest) \<Longrightarrow> length rest < length s"
  using length_dropWhile_le [of "\<lambda>c. c \<noteq> nl" s] by (auto simp: split_line_def split: list.splits)

lemma split_at_append:
  "split_at n s = Some (b, rest) \<Longrightarrow> split_at n (s @ more) = Some (b, rest @ more)"
  by (auto simp: split_at_def split: if_splits)

lemma split_at_shorter: "split_at n s = Some (b, rest) \<Longrightarrow> length rest \<le> length s"
  by (auto simp: split_at_def split: if_splits)

lemma read_response_Some:
  "read_response s = Some (b, rest) \<longleftrightarrow>
     (\<exists>s1 l s2 t s3 s4 n. split_line s = Some (''HTTP/1.1 200 OK'', s1) \<and> split_line s1 = Some (l, s2) \<and>
        split_line s2 = Some (t, s3) \<and> split_line s3 = Some ([], s4) \<and>
        content_length l = Some n \<and> split_at n s4 = Some (b, rest))"
  by (fastforce simp: read_response_def bind_eq_Some_conv split: if_splits)

lemma read_response_append:
  "read_response s = Some (b, rest) \<Longrightarrow> read_response (s @ more) = Some (b, rest @ more)"
  unfolding read_response_Some by (meson split_line_append split_at_append)

lemma read_response_shorter:
  "read_response s = Some (b, rest) \<Longrightarrow> length rest < length s"
  unfolding read_response_Some by (auto dest!: split_line_shorter split_at_shorter)

text \<open>The client reads one response after the other, as far as they are complete.\<close>

function read_all :: "string \<Rightarrow> string list" where
  "read_all s = (case read_response s of None \<Rightarrow> [] | Some (b, rest) \<Rightarrow> b # read_all rest)"
  by pat_completeness auto
termination
  by (relation "measure length") (auto dest: read_response_shorter)

declare read_all.simps [simp del]

section \<open>Round trip\<close>

lemma to_string_no_nl: "nl \<notin> set (to_string n)"
proof (induction n rule: to_string.induct)
  case (1 n)
  have digit: "char_of (48 + d :: nat) \<noteq> nl" if "d < 10" for d
  proof
    assume "char_of (48 + d :: nat) = nl"
    then have "(of_char (char_of (48 + d :: nat) :: char) :: nat) = of_char nl" by simp
    with digit_value [OF that] show False by simp
  qed
  show ?case
    using 1 digit [of n] digit [of "n mod 10"]
    by (subst to_string.simps) (auto simp: eq_commute)
qed

lemma read_skynet_response: "read_response (skynet_response result @ rest) = Some (result, rest)"
proof -
  have "split_line (''HTTP/1.1 200 OK'' @ nl # s) = Some (''HTTP/1.1 200 OK'', s)" for s
    by (rule split_line_line) simp
  moreover have "split_line ((''Content-Length: '' @ to_string (length result)) @ nl # s) =
      Some (''Content-Length: '' @ to_string (length result), s)" for s
    by (rule split_line_line) (use to_string_no_nl in auto)
  moreover have "split_line (''Content-Type: text/plain; charset=utf-8'' @ nl # s) =
      Some (''Content-Type: text/plain; charset=utf-8'', s)" for s
    by (rule split_line_line) simp
  moreover have "split_line ([] @ nl # s) = Some ([], s)" for s
    by (rule split_line_line) simp
  moreover have "content_length (''Content-Length: '' @ to_string n) = Some n" for n
    using to_string_digits [of n] by (simp add: content_length_def)
  ultimately show ?thesis
    by (simp add: read_response_def skynet_response_def split_at_def)
qed

lemma static_response_framed: "static_response = skynet_response ''Hello World!''"
  by (simp add: static_response_def skynet_response_def to_string.simps char_of_def bit_0)

text \<open>A client that has received complete responses and a part of one more has read the complete ones.\<close>

lemma read_all_response: "read_all (skynet_response b @ s) = b # read_all s"
  by (subst read_all.simps) (simp add: read_skynet_response)

lemma read_all_responses: "read_all (concat (map skynet_response bs) @ s) = bs @ read_all s"
  by (induction bs) (simp_all add: read_all_response)

lemma read_all_nil: "read_all [] = []"
  by (subst read_all.simps) (simp add: read_response_def split_line_def)

lemma read_all_cut:
  "read_all (take n (skynet_response b)) = (if n < length (skynet_response b) then [] else [b])"
proof (cases "n < length (skynet_response b)")
  case True
  have "read_response (take n (skynet_response b)) = None"
  proof (rule ccontr)
    assume "read_response (take n (skynet_response b)) \<noteq> None"
    then obtain b' rest where "read_response (take n (skynet_response b)) = Some (b', rest)" by auto
    then have "read_response (skynet_response b) = Some (b', rest @ drop n (skynet_response b))"
      using read_response_append [where more = "drop n (skynet_response b)"] by fastforce
    then show False using read_skynet_response [of b "[]"] True by simp
  qed
  then show ?thesis using True by (simp add: read_all.simps)
next
  case False
  then show ?thesis using read_all_response [of b "[]"] read_all_nil by simp
qed

end
