(* ===== verification/Http.thy ===== *)
theory Http
  imports Http_Framing Skynet
begin

text \<open>
  The HTTP servers: the connection handlers and accept loops of \<open>asio/http_server.cpp\<close>,
  \<open>asio/http_skynet.cpp\<close>, \<open>hwloc/asio_thread_per_core.cpp\<close> and \<open>hwloc/asio_server_per_cache.cpp\<close>,
  and the processes that run several accept loops. The outcomes of the operations of Asio are the
  choices of the schedule: an operation succeeds or fails, and a write that fails may have sent a
  part of its buffer. A read completes with some of the bytes that the client has sent, however many have arrived and the
  buffer holds: the handlers do not look for the end of a request. Only \<open>close()\<close> closes a socket.
\<close>

section \<open>A connection\<close>

text \<open>
  \<open>HTop\<close> is the test of the loop, \<open>HRead\<close> and \<open>HWrite\<close> are the two awaited operations, and
  \<open>HWork\<close> the call that computes a response in between.
\<close>

datatype 'j hpc = HTop | HRead | HWork 'j | HWrite string | HReturned

record 'j conn =
  hpc :: "'j hpc"
  is_open :: bool
  shutdowns :: nat        \<comment> \<open>calls of \<open>shutdown\<close>\<close>
  reads :: nat            \<comment> \<open>reads completed\<close>
  read_data :: "string list"   \<comment> \<open>the bytes that each of them has delivered\<close>
  wire :: string          \<comment> \<open>bytes sent\<close>

datatype io = Success | Received string | Failure nat | Frame "nat list" | Microseconds nat

definition accepted :: "'j conn" where
  "accepted = \<lparr>hpc = HTop, is_open = True, shutdowns = 0, reads = 0, read_data = [], wire = []\<rparr>"

text \<open>What a successful \<open>async_read_some\<close> into \<open>char data[4096]\<close> delivers.\<close>

definition fits_buffer :: "string \<Rightarrow> bool" where
  "fits_buffer data \<longleftrightarrow> data \<noteq> [] \<and> length data \<le> 4096"

definition handler :: "io \<Rightarrow> 'j conn \<Rightarrow> 'j conn option" where
  "handler io c =
     (case hpc c of
        HTop \<Rightarrow> Some (if is_open c then c\<lparr>hpc := HRead\<rparr>
                      else c\<lparr>shutdowns := shutdowns c + 1, is_open := False, hpc := HReturned\<rparr>)
      | HRead \<Rightarrow>
          (case io of
             Received data \<Rightarrow>
               if fits_buffer data
               then Some (c\<lparr>reads := reads c + 1, read_data := read_data c @ [data], hpc := HWrite static_response\<rparr>)
               else None
           | Failure n \<Rightarrow> Some (c\<lparr>is_open := False, hpc := HReturned\<rparr>)
           | _ \<Rightarrow> None)
      | HWrite data \<Rightarrow>
          (case io of
             Success \<Rightarrow> Some (c\<lparr>wire := wire c @ data, hpc := HTop\<rparr>)
           | Failure n \<Rightarrow>
               Some (c\<lparr>wire := wire c @ take n data, is_open := False, hpc := HReturned\<rparr>)
           | _ \<Rightarrow> None)
      | _ \<Rightarrow> None)"

text \<open>The copies of the handler in the two \<open>hwloc\<close> servers.\<close>

definition thread_per_core_handler :: "io \<Rightarrow> 'j conn \<Rightarrow> 'j conn option" where
  "thread_per_core_handler io c =
     (case hpc c of
        HTop \<Rightarrow> Some (if is_open c then c\<lparr>hpc := HRead\<rparr>
                      else c\<lparr>shutdowns := shutdowns c + 1, is_open := False, hpc := HReturned\<rparr>)
      | HRead \<Rightarrow>
          (case io of
             Received data \<Rightarrow>
               if fits_buffer data
               then Some (c\<lparr>reads := reads c + 1, read_data := read_data c @ [data], hpc := HWrite static_response\<rparr>)
               else None
           | Failure n \<Rightarrow> Some (c\<lparr>is_open := False, hpc := HReturned\<rparr>)
           | _ \<Rightarrow> None)
      | HWrite data \<Rightarrow>
          (case io of
             Success \<Rightarrow> Some (c\<lparr>wire := wire c @ data, hpc := HTop\<rparr>)
           | Failure n \<Rightarrow>
               Some (c\<lparr>wire := wire c @ take n data, is_open := False, hpc := HReturned\<rparr>)
           | _ \<Rightarrow> None)
      | _ \<Rightarrow> None)"

definition per_cache_handler :: "io \<Rightarrow> 'j conn \<Rightarrow> 'j conn option" where
  "per_cache_handler io c =
     (case hpc c of
        HTop \<Rightarrow> Some (if is_open c then c\<lparr>hpc := HRead\<rparr>
                      else c\<lparr>shutdowns := shutdowns c + 1, is_open := False, hpc := HReturned\<rparr>)
      | HRead \<Rightarrow>
          (case io of
             Received data \<Rightarrow>
               if fits_buffer data
               then Some (c\<lparr>reads := reads c + 1, read_data := read_data c @ [data], hpc := HWrite static_response\<rparr>)
               else None
           | Failure n \<Rightarrow> Some (c\<lparr>is_open := False, hpc := HReturned\<rparr>)
           | _ \<Rightarrow> None)
      | HWrite data \<Rightarrow>
          (case io of
             Success \<Rightarrow> Some (c\<lparr>wire := wire c @ data, hpc := HTop\<rparr>)
           | Failure n \<Rightarrow>
               Some (c\<lparr>wire := wire c @ take n data, is_open := False, hpc := HReturned\<rparr>)
           | _ \<Rightarrow> None)
      | _ \<Rightarrow> None)"

section \<open>The connections of \<open>http_skynet.cpp\<close>\<close>

text \<open>Its copy of \<open>skynet_one\<close>, of the expected result and of \<open>skynet\<close>, which returns the text.\<close>

fun http_depth_offset :: "nat \<Rightarrow> 'w::len word \<Rightarrow> 'w word" where
  "http_depth_offset 0 depthOffset = depthOffset"
| "http_depth_offset (Suc i) depthOffset = http_depth_offset i (depthOffset * 10)"

definition http_skynet_body :: "nat \<Rightarrow> 'w::len word \<times> nat \<Rightarrow> 'w word + ('w word \<times> nat) list" where
  "http_skynet_body DepthMax = (\<lambda>(BaseNum, Depth).
     if Depth = DepthMax then Inl BaseNum
     else let depthOffset = http_depth_offset (DepthMax - Depth - 1) 1
          in Inr (map (\<lambda>idx. (BaseNum + depthOffset * of_nat idx, Depth + 1)) [0..<10]))"

definition http_skynet_combine :: "'w::len word \<times> nat \<Rightarrow> 'w word list \<Rightarrow> 'w word" where
  "http_skynet_combine a results = fold (\<lambda>idx count. count + results ! idx) [0..<10] 0"

definition http_EXPECTED_RESULT :: "'w::len word" where
  "http_EXPECTED_RESULT = (if LENGTH('w) = 64 then 499999500000 else 1783293664)"

definition http_skynet :: "nat \<Rightarrow> 'w::len word \<Rightarrow> string" where
  "http_skynet execDur cnt =
     (if cnt \<noteq> http_EXPECTED_RESULT
      then ''got wrong result: '' @ to_string (unat cnt) @ [nl] else []) @
     ''executed skynet in '' @ to_string execDur @ '' us'' @ [nl]"

type_synonym 'w sky = "('w word \<times> nat, 'w word) frame"

definition skynet_handler :: "io \<Rightarrow> 'w::len sky conn \<Rightarrow> 'w sky conn option" where
  "skynet_handler io c =
     (case hpc c of
        HTop \<Rightarrow> Some (if is_open c then c\<lparr>hpc := HRead\<rparr>
                      else c\<lparr>shutdowns := shutdowns c + 1, is_open := False, hpc := HReturned\<rparr>)
      | HRead \<Rightarrow>
          (case io of
             Received data \<Rightarrow>
               if fits_buffer data
               then Some (c\<lparr>reads := reads c + 1, read_data := read_data c @ [data], hpc := HWork (Call (0, 0))\<rparr>)
               else None
           | Failure n \<Rightarrow> Some (c\<lparr>is_open := False, hpc := HReturned\<rparr>)
           | _ \<Rightarrow> None)
      | HWork f \<Rightarrow>
          (case io of
             Frame path \<Rightarrow>
               map_option (\<lambda>g. c\<lparr>hpc := HWork g\<rparr>)
                 (frame_step (http_skynet_body 6) http_skynet_combine path f)
           | Microseconds us \<Rightarrow>
               (case f of
                  Ret cnt \<Rightarrow> Some (c\<lparr>hpc := HWrite (skynet_response (http_skynet us cnt))\<rparr>)
                | _ \<Rightarrow> None)
           | _ \<Rightarrow> None)
      | HWrite data \<Rightarrow>
          (case io of
             Success \<Rightarrow> Some (c\<lparr>wire := wire c @ data, hpc := HTop\<rparr>)
           | Failure n \<Rightarrow>
               Some (c\<lparr>wire := wire c @ take n data, is_open := False, hpc := HReturned\<rparr>)
           | _ \<Rightarrow> None)
      | HReturned \<Rightarrow> None)"

section \<open>Accept loops and processes\<close>

datatype apc = AAccept | AJoin | AReturned

record 'j listener =
  apc :: apc
  tcp_port :: nat
  sockopts :: "32 word list"     \<comment> \<open>the options set with \<open>setsockopt\<close>\<close>
  conns :: "'j conn list"

text \<open>
  The accept loops of the four programs once their acceptors have been constructed; what can go wrong before is the
  subject of the theory \<open>Listening\<close>. The option numbers belong to the platform.
\<close>

definition accept_start :: "nat \<Rightarrow> 'j listener" where
  "accept_start port = \<lparr>apc = AAccept, tcp_port = port, sockopts = [], conns = []\<rparr>"

definition reuse_option :: "bool \<Rightarrow> 32 word \<Rightarrow> 32 word \<Rightarrow> 32 word" where
  "reuse_option win32 SO_REUSEADDR SO_REUSEPORT =
     (if win32 then SO_REUSEADDR else or SO_REUSEADDR SO_REUSEPORT)"

definition thread_per_core_accept :: "32 word \<Rightarrow> nat \<Rightarrow> 'j listener" where
  "thread_per_core_accept reuse port =
     \<lparr>apc = AAccept, tcp_port = port, sockopts = [reuse], conns = []\<rparr>"

definition per_cache_accept :: "32 word \<Rightarrow> nat \<Rightarrow> 'j listener" where
  "per_cache_accept reuse port =
     \<lparr>apc = AAccept, tcp_port = port, sockopts = [reuse], conns = []\<rparr>"

text \<open>
  One step of the accept loop: \<open>async_accept\<close> completes, or the fork group of the handlers is
  awaited, which resumes the caller when all of them have returned.
\<close>

definition accept_step :: "io \<Rightarrow> 'j listener \<Rightarrow> 'j listener option" where
  "accept_step io l =
     (case apc l of
        AAccept \<Rightarrow>
          (case io of
             Success \<Rightarrow> Some (l\<lparr>conns := conns l @ [accepted]\<rparr>)
           | Failure n \<Rightarrow> Some (l\<lparr>apc := AJoin\<rparr>)
           | _ \<Rightarrow> None)
      | AJoin \<Rightarrow>
          (if list_all (\<lambda>c. hpc c = HReturned) (conns l) then Some (l\<lparr>apc := AReturned\<rparr>) else None)
      | AReturned \<Rightarrow> None)"

text \<open>
  A process runs accept loops and waits for them: with a fork group for all at once, or with one
  \<open>wait()\<close> per worker in order. \<open>waited\<close> counts the loops it has waited for.
\<close>

record 'j process =
  listeners :: "'j listener list"
  waited :: nat

definition main_returned :: "'j process \<Rightarrow> bool" where
  "main_returned p = (waited p = length (listeners p))"

definition await_group :: "bool list \<Rightarrow> nat \<Rightarrow> nat option" where
  "await_group returned i =
     (if i < length returned \<and> list_all id returned then Some (length returned) else None)"

definition wait_workers :: "bool list \<Rightarrow> nat \<Rightarrow> nat option" where
  "wait_workers returned i = (if i < length returned \<and> returned ! i then Some (i + 1) else None)"

datatype server_agent = Main | Acceptor nat io | Handler nat nat io

definition listener_step :: "(io \<Rightarrow> 'j conn \<Rightarrow> 'j conn option) \<Rightarrow> nat \<Rightarrow> io \<Rightarrow> 'j listener \<Rightarrow> 'j listener option" where
  "listener_step handle i io l =
     (if i < length (conns l)
      then map_option (\<lambda>c. l\<lparr>conns := (conns l)[i := c]\<rparr>) (handle io (conns l ! i)) else None)"

fun process_step ::
    "(io \<Rightarrow> 'j conn \<Rightarrow> 'j conn option) \<Rightarrow> (bool list \<Rightarrow> nat \<Rightarrow> nat option) \<Rightarrow>
     server_agent \<Rightarrow> 'j process \<Rightarrow> 'j process option" where
  "process_step handle wait Main p =
     map_option (\<lambda>i. p\<lparr>waited := i\<rparr>)
       (wait (map (\<lambda>l. apc l = AReturned) (listeners p)) (waited p))"
| "process_step handle wait (Acceptor k io) p =
     (if k < length (listeners p)
      then map_option (\<lambda>l. p\<lparr>listeners := (listeners p)[k := l]\<rparr>) (accept_step io (listeners p ! k))
      else None)"
| "process_step handle wait (Handler k i io) p =
     (if k < length (listeners p)
      then map_option (\<lambda>l. p\<lparr>listeners := (listeners p)[k := l]\<rparr>)
             (listener_step handle i io (listeners p ! k))
      else None)"

definition http_server_main :: "'j process" where
  "http_server_main = \<lparr>listeners = [accept_start 55550, accept_start 55551], waited = 0\<rparr>"

definition http_skynet_main :: "'j process" where
  "http_skynet_main = \<lparr>listeners = [accept_start 55551, accept_start 55550], waited = 0\<rparr>"

end
