(* ===== verification/Http_Correct.thy ===== *)
theory Http_Correct
  imports Http
begin

text \<open>
  Correctness of the HTTP servers. A handler keeps the promise \<open>serves\<close>: what it has sent is a
  sequence of well-framed responses. The two locales are the interfaces between the parts: what a
  process relies on from its connection handler, and from its way of waiting for the accept loops.
\<close>

section \<open>What a connection handler promises\<close>

definition sent :: "(string \<Rightarrow> bool) \<Rightarrow> nat \<Rightarrow> string \<Rightarrow> bool" where
  "sent good n w \<longleftrightarrow> (\<exists>bs. list_all good bs \<and> length bs = n \<and> w = concat (map skynet_response bs))"

definition serves :: "(string \<Rightarrow> bool) \<Rightarrow> ('j \<Rightarrow> bool) \<Rightarrow> 'j conn \<Rightarrow> bool" where
  "serves good jobok c \<longleftrightarrow> shutdowns c = 0 \<and> is_open c = (hpc c \<noteq> HReturned) \<and>
     reads c = length (read_data c) \<and> list_all fits_buffer (read_data c) \<and>
     (case hpc c of
        HTop \<Rightarrow> sent good (reads c) (wire c)
      | HRead \<Rightarrow> sent good (reads c) (wire c)
      | HWork j \<Rightarrow> jobok j \<and> (\<exists>n. reads c = Suc n \<and> sent good n (wire c))
      | HWrite d \<Rightarrow> (\<exists>b. good b \<and> d = skynet_response b) \<and> (\<exists>n. reads c = Suc n \<and> sent good n (wire c))
      | HReturned \<Rightarrow> list_all good (read_all (wire c)) \<and>
          length (read_all (wire c)) \<le> reads c \<and> reads c \<le> Suc (length (read_all (wire c))))"

lemma sent_nil [simp]: "sent good 0 []"
  by (simp add: sent_def)

lemma sent_snoc: "sent good n w \<Longrightarrow> good b \<Longrightarrow> sent good (Suc n) (w @ skynet_response b)"
  unfolding sent_def by (elim exE, rule_tac x = "bs @ [b]" in exI) auto

lemma sent_read:
  assumes "sent good n w"
  shows "list_all good (read_all w) \<and> length (read_all w) = n"
proof -
  obtain bs where "list_all good bs" "length bs = n" "w = concat (map skynet_response bs)"
    using assms by (auto simp: sent_def)
  then show ?thesis using read_all_responses [of bs "[]"] read_all_nil by simp
qed

lemma sent_cut:
  assumes "sent good n w" and "good b"
  shows "list_all good (read_all (w @ take m (skynet_response b))) \<and>
    n \<le> length (read_all (w @ take m (skynet_response b))) \<and>
    length (read_all (w @ take m (skynet_response b))) \<le> Suc n"
proof -
  obtain bs where "list_all good bs" "length bs = n" "w = concat (map skynet_response bs)"
    using assms(1) by (auto simp: sent_def)
  then show ?thesis
    using read_all_responses [of bs "take m (skynet_response b)"] read_all_cut [of m b] assms(2)
    by simp
qed

text \<open>The steps that the handlers have in common.\<close>

lemma serves_top:
  "serves good jobok c \<Longrightarrow> hpc c = HTop \<Longrightarrow> is_open c \<and> serves good jobok (c\<lparr>hpc := HRead\<rparr>)"
  by (auto simp: serves_def)

lemma serves_read:
  assumes "serves good jobok c" and "hpc c = HRead"
  shows "serves good jobok (c\<lparr>is_open := False, hpc := HReturned\<rparr>)"
proof -
  have "sent good (reads c) (wire c)" "shutdowns c = 0" "reads c = length (read_data c)"
    "list_all fits_buffer (read_data c)"
    using assms by (auto simp: serves_def)
  then show ?thesis using sent_read [of good "reads c" "wire c"] by (simp add: serves_def)
qed

lemma serves_received:
  "serves good jobok c \<Longrightarrow> hpc c = HRead \<Longrightarrow> fits_buffer data \<Longrightarrow> good b \<Longrightarrow>
   serves good jobok
     (c\<lparr>reads := Suc (reads c), read_data := read_data c @ [data], hpc := HWrite (skynet_response b)\<rparr>)"
  by (auto simp: serves_def)

lemma serves_job:
  "serves good jobok c \<Longrightarrow> hpc c = HRead \<Longrightarrow> fits_buffer data \<Longrightarrow> jobok j \<Longrightarrow>
   serves good jobok (c\<lparr>reads := Suc (reads c), read_data := read_data c @ [data], hpc := HWork j\<rparr>)"
  by (auto simp: serves_def)

lemma serves_written:
  assumes "serves good jobok c" and "hpc c = HWrite d"
  shows "serves good jobok (c\<lparr>wire := wire c @ d, hpc := HTop\<rparr>)"
proof -
  obtain b n where "good b" "d = skynet_response b" "reads c = Suc n" "sent good n (wire c)"
      "shutdowns c = 0" "is_open c" "reads c = length (read_data c)" "list_all fits_buffer (read_data c)"
    using assms by (auto simp: serves_def)
  then show ?thesis using sent_snoc [of good n "wire c" b] by (simp add: serves_def)
qed

lemma serves_broken:
  assumes "serves good jobok c" and "hpc c = HWrite d"
  shows "serves good jobok (c\<lparr>wire := wire c @ take m d, is_open := False, hpc := HReturned\<rparr>)"
proof -
  obtain b n where "good b" "d = skynet_response b" "reads c = Suc n" "sent good n (wire c)"
      "shutdowns c = 0" "reads c = length (read_data c)" "list_all fits_buffer (read_data c)"
    using assms by (auto simp: serves_def)
  then show ?thesis using sent_cut [of good n "wire c" b m] by (simp add: serves_def)
qed

lemma accepted_serves: "serves good jobok accepted"
  by (simp add: serves_def accepted_def)

text \<open>What the promise means to a client: it reads only good bodies, never more than reads have completed.\<close>

lemma serves_client:
  assumes "serves good jobok c"
  shows "list_all good (read_all (wire c)) \<and> length (read_all (wire c)) \<le> reads c \<and>
    reads c \<le> Suc (length (read_all (wire c))) \<and>
    (hpc c = HTop \<or> hpc c = HRead \<longrightarrow> length (read_all (wire c)) = reads c) \<and>
    shutdowns c = 0 \<and> is_open c = (hpc c \<noteq> HReturned) \<and>
    reads c = length (read_data c) \<and> list_all fits_buffer (read_data c)"
  using assms by (cases "hpc c") (auto simp: serves_def dest!: sent_read)

locale responder =
  fixes handle :: "io \<Rightarrow> 'j conn \<Rightarrow> 'j conn option"
    and good :: "string \<Rightarrow> bool"
    and jobok :: "'j \<Rightarrow> bool"
  assumes handle_serves: "serves good jobok c \<Longrightarrow> handle io c = Some c' \<Longrightarrow> serves good jobok c'"
    and returned_silent: "hpc c = HReturned \<Longrightarrow> handle io c = None"
    and handle_ends: "serves good jobok c \<Longrightarrow> \<exists>ios c'. run_steps handle ios c = Some c' \<and> hpc c' = HReturned"

text \<open>What a process needs from its way of waiting.\<close>

locale waiter =
  fixes wait :: "bool list \<Rightarrow> nat \<Rightarrow> nat option"
  assumes wait_Some: "wait rs i = Some j \<Longrightarrow> i < j \<and> j \<le> length rs \<and> (\<forall>k<j. i \<le> k \<longrightarrow> rs ! k)"
    and wait_all: "list_all id rs \<Longrightarrow> i < length rs \<Longrightarrow> wait rs i \<noteq> None"

locale server = responder handle good jobok + waiter wait
  for handle :: "io \<Rightarrow> 'j conn \<Rightarrow> 'j conn option" and good jobok wait
begin

definition listener_ok :: "'j listener \<Rightarrow> bool" where
  "listener_ok l \<longleftrightarrow> (\<forall>c\<in>set (conns l). serves good jobok c) \<and>
     (apc l = AReturned \<longrightarrow> (\<forall>c\<in>set (conns l). hpc c = HReturned))"

definition process_ok :: "'j process \<Rightarrow> bool" where
  "process_ok p \<longleftrightarrow> waited p \<le> length (listeners p) \<and>
     (\<forall>k<waited p. apc (listeners p ! k) = AReturned) \<and> (\<forall>l\<in>set (listeners p). listener_ok l)"

lemma accept_step_ok: "listener_ok l \<Longrightarrow> accept_step io l = Some l' \<Longrightarrow> listener_ok l'"
  by (auto simp: accept_step_def listener_ok_def accepted_serves list_all_iff
      split: apc.splits io.splits if_splits)

lemma listener_step_ok:
  assumes "listener_ok l" and "listener_step handle i io l = Some l'"
  shows "listener_ok l'"
proof -
  obtain c where i: "i < length (conns l)" and c: "handle io (conns l ! i) = Some c"
    and l': "l' = l\<lparr>conns := (conns l)[i := c]\<rparr>"
    using assms(2) by (auto simp: listener_step_def split: if_splits)
  have mem: "conns l ! i \<in> set (conns l)" using i by simp
  then have "serves good jobok c" using assms(1) c handle_serves by (auto simp: listener_ok_def)
  moreover have "apc l \<noteq> AReturned"
    using assms(1) mem c returned_silent [of "conns l ! i" io] by (auto simp: listener_ok_def)
  ultimately show ?thesis
    using assms(1) by (auto simp: l' listener_ok_def dest: set_update_le)
qed

lemma accept_returned: "accept_step io l = Some l' \<Longrightarrow> apc l \<noteq> AReturned"
  by (auto simp: accept_step_def)

lemma listener_step_apc: "listener_step handle i io l = Some l' \<Longrightarrow> apc l' = apc l"
  by (auto simp: listener_step_def split: if_splits)

lemma process_ok_update:
  assumes "process_ok p" and "k < length (listeners p)" and "listener_ok l"
    and "apc (listeners p ! k) = AReturned \<Longrightarrow> apc l = AReturned"
  shows "process_ok (p\<lparr>listeners := (listeners p)[k := l]\<rparr>)"
  using assms by (auto simp: process_ok_def nth_list_update dest: set_update_le)

lemma process_step_ok: "process_ok p \<Longrightarrow> process_step handle wait a p = Some q \<Longrightarrow> process_ok q"
proof (cases a)
  case Main
  assume ok: "process_ok p" and "process_step handle wait a p = Some q"
  then obtain j where j: "wait (map (\<lambda>l. apc l = AReturned) (listeners p)) (waited p) = Some j"
    and q: "q = p\<lparr>waited := j\<rparr>" by (auto simp: Main)
  show ?thesis
    using wait_Some [OF j] ok by (auto simp: q process_ok_def)
next
  case (Acceptor k io)
  assume ok: "process_ok p" and "process_step handle wait a p = Some q"
  then obtain l where k: "k < length (listeners p)" and l: "accept_step io (listeners p ! k) = Some l"
    and q: "q = p\<lparr>listeners := (listeners p)[k := l]\<rparr>" by (auto simp: Acceptor split: if_splits)
  have "listener_ok l" using accept_step_ok [OF _ l] ok k by (auto simp: process_ok_def)
  then show ?thesis unfolding q
    using accept_returned [OF l] by (intro process_ok_update ok k) auto
next
  case (Handler k i io)
  assume ok: "process_ok p" and "process_step handle wait a p = Some q"
  then obtain l where k: "k < length (listeners p)" and l: "listener_step handle i io (listeners p ! k) = Some l"
    and q: "q = p\<lparr>listeners := (listeners p)[k := l]\<rparr>" by (auto simp: Handler split: if_splits)
  have "listener_ok l" using listener_step_ok [OF _ l] ok k by (auto simp: process_ok_def)
  then show ?thesis unfolding q
    using listener_step_apc [OF l] by (intro process_ok_update ok k) auto
qed

text \<open>What keeps a process from returning.\<close>

definition listener_rest :: "'j listener \<Rightarrow> nat" where
  "listener_rest l = (case apc l of AAccept \<Rightarrow> 2 | AJoin \<Rightarrow> 1 | AReturned \<Rightarrow> 0) +
     sum_list (map (\<lambda>c. of_bool (hpc c \<noteq> HReturned)) (conns l))"

definition process_rest :: "'j process \<Rightarrow> nat" where
  "process_rest p = sum_list (map listener_rest (listeners p)) + (length (listeners p) - waited p)"

lemma rest_update:
  "k < length (listeners p) \<Longrightarrow> listener_rest l < listener_rest (listeners p ! k) \<Longrightarrow>
   process_rest (p\<lparr>listeners := (listeners p)[k := l]\<rparr>) < process_rest p"
  using sum_map_update [of k "listeners p" listener_rest l] by (simp add: process_rest_def)

lemma run_listener:
  "k < length (listeners p) \<Longrightarrow> i < length (conns (listeners p ! k)) \<Longrightarrow>
   run_steps handle ios (conns (listeners p ! k) ! i) = Some c \<Longrightarrow>
   run_steps (process_step handle wait) (map (Handler k i) ios) p =
     Some (p\<lparr>listeners := (listeners p)[k := (listeners p ! k)
       \<lparr>conns := (conns (listeners p ! k))[i := c]\<rparr>]\<rparr>)"
proof (induction ios arbitrary: p)
  case Nil
  then have "(conns (listeners p ! k))[i := c] = conns (listeners p ! k)"
    by (metis list_update_id option.inject run_steps.simps(1))
  then show ?case using Nil.prems(1) by simp
next
  case (Cons io ios)
  from Cons.prems(3) obtain d where d: "handle io (conns (listeners p ! k) ! i) = Some d"
    and r: "run_steps handle ios d = Some c" by (auto split: option.splits)
  let ?p = "p\<lparr>listeners := (listeners p)[k := (listeners p ! k)
       \<lparr>conns := (conns (listeners p ! k))[i := d]\<rparr>]\<rparr>"
  have "run_steps (process_step handle wait) (map (Handler k i) ios) ?p =
      Some (?p\<lparr>listeners := (listeners ?p)[k := (listeners ?p ! k)
       \<lparr>conns := (conns (listeners ?p ! k))[i := c]\<rparr>]\<rparr>)"
    using Cons.prems r by (intro Cons.IH) auto
  then show ?case
    using Cons.prems(1,2) d by (simp add: listener_step_def)
qed

lemma less_rest:
  assumes ok: "process_ok p" and "\<not> main_returned p"
  shows "\<exists>ks q. run_steps (process_step handle wait) ks p = Some q \<and> process_rest q < process_rest p"
proof -
  consider (acceptor) k where "k < length (listeners p)" "apc (listeners p ! k) = AAccept"
    | (conn) k i where "k < length (listeners p)" "i < length (conns (listeners p ! k))"
        "hpc (conns (listeners p ! k) ! i) \<noteq> HReturned"
    | (join) k where "k < length (listeners p)" "apc (listeners p ! k) = AJoin"
        "\<forall>c\<in>set (conns (listeners p ! k)). hpc c = HReturned"
    | (over) "\<forall>k<length (listeners p). apc (listeners p ! k) = AReturned"
  proof (cases "\<exists>k<length (listeners p). \<exists>c\<in>set (conns (listeners p ! k)). hpc c \<noteq> HReturned")
    case True
    then show thesis using that(2) by (auto simp: in_set_conv_nth)
  next
    case False
    then have all: "\<forall>c\<in>set (conns (listeners p ! k)). hpc c = HReturned" if "k < length (listeners p)" for k
      using that by blast
    show thesis
    proof (cases "\<forall>k<length (listeners p). apc (listeners p ! k) = AReturned")
      case True
      then show thesis by (rule that(4))
    next
      case False
      then obtain k where k: "k < length (listeners p)" "apc (listeners p ! k) \<noteq> AReturned" by blast
      then show thesis using that(1,3) [OF k(1)] all [OF k(1)] by (cases "apc (listeners p ! k)") auto
    qed
  qed
  then show ?thesis
  proof cases
    case acceptor
    let ?l = "(listeners p ! k)\<lparr>apc := AJoin\<rparr>"
    have "run_steps (process_step handle wait) [Acceptor k (Failure 0)] p =
        Some (p\<lparr>listeners := (listeners p)[k := ?l]\<rparr>)"
      using acceptor by (simp add: accept_step_def)
    moreover have "listener_rest ?l < listener_rest (listeners p ! k)"
      using acceptor by (simp add: listener_rest_def)
    ultimately show ?thesis using rest_update [OF acceptor(1)] by blast
  next
    case conn
    have "listener_ok (listeners p ! k)" using ok conn(1) by (simp add: process_ok_def)
    then have "serves good jobok (conns (listeners p ! k) ! i)"
      using conn(2) by (simp add: listener_ok_def)
    then obtain ios c where r: "run_steps handle ios (conns (listeners p ! k) ! i) = Some c"
      and c: "hpc c = HReturned" using handle_ends by blast
    let ?l = "(listeners p ! k)\<lparr>conns := (conns (listeners p ! k))[i := c]\<rparr>"
    have "listener_rest ?l < listener_rest (listeners p ! k)"
      using sum_map_update [OF conn(2), of "\<lambda>c. of_bool (hpc c \<noteq> HReturned)" c] c conn(3)
      by (simp add: listener_rest_def)
    then show ?thesis using run_listener [OF conn(1,2) r] rest_update [OF conn(1)] by blast
  next
    case join
    let ?l = "(listeners p ! k)\<lparr>apc := AReturned\<rparr>"
    have "run_steps (process_step handle wait) [Acceptor k Success] p =
        Some (p\<lparr>listeners := (listeners p)[k := ?l]\<rparr>)"
      using join by (simp add: accept_step_def list_all_iff)
    moreover have "listener_rest ?l < listener_rest (listeners p ! k)"
      using join by (simp add: listener_rest_def)
    ultimately show ?thesis using rest_update [OF join(1)] by blast
  next
    case over
    let ?rs = "map (\<lambda>l. apc l = AReturned) (listeners p)"
    have w: "waited p < length ?rs" using assms by (simp add: process_ok_def main_returned_def)
    have "list_all id ?rs" using over by (auto simp: list_all_length)
    then obtain j where j: "wait ?rs (waited p) = Some j" using wait_all w by fastforce
    then have "run_steps (process_step handle wait) [Main] p = Some (p\<lparr>waited := j\<rparr>)" by simp
    moreover have "process_rest (p\<lparr>waited := j\<rparr>) < process_rest p"
      using wait_Some [OF j] w by (simp add: process_rest_def) (rule diff_less_mono2, auto)
    ultimately show ?thesis by blast
  qed
qed

end

sublocale server \<subseteq> serving: invariant_system "process_step handle wait" process_ok
  by unfold_locales (rule process_step_ok)

context server begin

lemma shuts_down:
  "process_ok p \<Longrightarrow> \<exists>ks q. run_steps (process_step handle wait) ks p = Some q \<and> main_returned q"
proof (induction "process_rest p" arbitrary: p rule: less_induct)
  case less
  show ?case
  proof (cases "main_returned p")
    case True
    then have "run_steps (process_step handle wait) [] p = Some p \<and> main_returned p" by simp
    then show ?thesis by blast
  next
    case False
    then obtain ks q where q: "run_steps (process_step handle wait) ks p = Some q"
      and l: "process_rest q < process_rest p" using less_rest less.prems by blast
    obtain ls r where "run_steps (process_step handle wait) ls q = Some r \<and> main_returned r"
      using less.hyps [OF l serving.run_inv [OF less.prems q]] by blast
    then have "run_steps (process_step handle wait) (ks @ ls) p = Some r \<and> main_returned r"
      using q by (simp add: run_steps_append)
    then show ?thesis by blast
  qed
qed

text \<open>The two facts about every process that starts without connections.\<close>

definition fresh :: "'j process \<Rightarrow> bool" where
  "fresh p \<longleftrightarrow> waited p = 0 \<and> (\<forall>l\<in>set (listeners p). apc l = AAccept \<and> conns l = [])"

lemma fresh_ok: "fresh p \<Longrightarrow> process_ok p"
  by (auto simp: fresh_def process_ok_def listener_ok_def)

lemma run_serves:
  assumes "fresh p" and "run_steps (process_step handle wait) ks p = Some q"
    and "l \<in> set (listeners q)" and "c \<in> set (conns l)"
  shows "serves good jobok c"
  using serving.run_inv [OF fresh_ok [OF assms(1)] assms(2)] assms(3,4)
  by (auto simp: process_ok_def listener_ok_def)

lemma run_returned:
  assumes "fresh p" and "run_steps (process_step handle wait) ks p = Some q"
  shows "(main_returned q \<longrightarrow> (\<forall>l\<in>set (listeners q). \<forall>c\<in>set (conns l). hpc c = HReturned \<and> \<not> is_open c)) \<and>
    (\<exists>more r. run_steps (process_step handle wait) (ks @ more) p = Some r \<and> main_returned r)"
proof
  have ok: "process_ok q" using serving.run_inv [OF fresh_ok [OF assms(1)] assms(2)] .
  have "hpc c = HReturned \<and> \<not> is_open c"
    if main: "main_returned q" and l: "l \<in> set (listeners q)" and c: "c \<in> set (conns l)" for l c
  proof -
    obtain k where "k < length (listeners q)" "l = listeners q ! k"
      using l by (auto simp: in_set_conv_nth)
    then have "apc l = AReturned" using ok main by (simp add: process_ok_def main_returned_def)
    moreover have "listener_ok l" using ok l by (simp add: process_ok_def)
    ultimately have "hpc c = HReturned" using c by (simp add: listener_ok_def)
    then show ?thesis using serves_client [OF run_serves [OF assms l c]] by blast
  qed
  then show "main_returned q \<longrightarrow>
      (\<forall>l\<in>set (listeners q). \<forall>c\<in>set (conns l). hpc c = HReturned \<and> \<not> is_open c)" by blast
  show "\<exists>more r. run_steps (process_step handle wait) (ks @ more) p = Some r \<and> main_returned r"
    using shuts_down [OF ok] assms(2) by (auto simp: run_steps_append)
qed

text \<open>
  What a handler can do with one connection, a process can: a client whose bytes arrive as \<open>ds\<close> gets one response
  for each of them.
\<close>

lemma connection_run:
  assumes "fresh p" and k: "k < length (listeners p)" and "run_steps handle ios accepted = Some c"
  shows "\<exists>ks q. run_steps (process_step handle wait) ks p = Some q \<and> k < length (listeners q) \<and>
    conns (listeners q ! k) = [c]"
proof -
  let ?p = "p\<lparr>listeners := (listeners p)[k := (listeners p ! k)\<lparr>conns := [accepted]\<rparr>]\<rparr>"
  have l: "apc (listeners p ! k) = AAccept" "conns (listeners p ! k) = []"
    using assms(1) k by (simp_all add: fresh_def)
  then have "process_step handle wait (Acceptor k Success) p = Some ?p"
    using k by (simp add: accept_step_def)
  moreover obtain q where "run_steps (process_step handle wait) (map (Handler k 0) ios) ?p = Some q"
      "k < length (listeners q)" "conns (listeners q ! k) = [c]"
    using run_listener [of k ?p 0 ios c] k assms(3) by simp
  ultimately have "run_steps (process_step handle wait) (Acceptor k Success # map (Handler k 0) ios) p = Some q \<and>
      k < length (listeners q) \<and> conns (listeners q ! k) = [c]" by simp
  then show ?thesis by blast
qed

end

text \<open>\<open>answers\<close>: what a handler does with one connection whose bytes arrive as \<open>ds\<close>, when nothing fails.\<close>

definition answers :: "(io \<Rightarrow> 'j conn \<Rightarrow> 'j conn option) \<Rightarrow> string list \<Rightarrow> bool" where
  "answers handle ds \<longleftrightarrow>
     (\<exists>ios c. run_steps handle ios accepted = Some c \<and> hpc c = HTop \<and> read_data c = ds)"

context server begin

lemma pieces_run:
  assumes "fresh p" and "0 < length (listeners p)" and "answers handle ds"
  shows "\<exists>ks q c. run_steps (process_step handle wait) ks p = Some q \<and> conns (listeners q ! 0) = [c] \<and>
    read_data c = ds \<and> length (read_all (wire c)) = length ds"
proof -
  obtain ios c where run: "run_steps handle ios accepted = Some c" "hpc c = HTop" "read_data c = ds"
    using assms(3) by (auto simp: answers_def)
  obtain ks q where q: "run_steps (process_step handle wait) ks p = Some q" "0 < length (listeners q)"
      "conns (listeners q ! 0) = [c]"
    using connection_run [OF assms(1,2) run(1)] by blast
  have "serves good jobok c" using run_serves [OF assms(1) q(1), of "listeners q ! 0" c] q(2,3) by simp
  then have "length (read_all (wire c)) = length ds" using serves_client run(2,3) by metis
  then show ?thesis using q run(3) by blast
qed

end

section \<open>The handlers keep the promise\<close>

interpretation group: waiter await_group
  by unfold_locales (auto simp: await_group_def list_all_length split: if_splits)

interpretation order: waiter wait_workers
  by unfold_locales (auto simp: wait_workers_def list_all_length less_Suc_eq split: if_splits)

lemma run_steps_oneI: "step k s = Some t \<Longrightarrow> P t \<Longrightarrow> \<exists>ks t. run_steps step ks s = Some t \<and> P t"
  by (rule exI [of _ "[k]"]) simp

lemma run_steps_ConsI:
  "step k s = Some t \<Longrightarrow> \<exists>ks u. run_steps step ks t = Some u \<and> P u \<Longrightarrow>
   \<exists>ks u. run_steps step ks s = Some u \<and> P u"
  by (metis (no_types, lifting) option.case(2) run_steps.simps(2))

abbreviation hello :: "string \<Rightarrow> bool" where
  "hello b \<equiv> b = ''Hello World!''"

abbreviation no_job :: "'j \<Rightarrow> bool" where
  "no_job j \<equiv> False"

lemma handler_serves:
  assumes "serves hello no_job c" and step: "handler io c = Some c'"
  shows "serves hello no_job c'"
proof (cases "hpc c")
  case HTop
  then show ?thesis using step serves_top [OF assms(1)] by (auto simp: handler_def)
next
  case HRead
  then show ?thesis
    using step serves_read [OF assms(1) HRead] serves_received [OF assms(1) HRead]
    by (auto simp: handler_def static_response_framed split: io.splits if_splits)
next
  case (HWork j)
  then show ?thesis using step by (simp add: handler_def)
next
  case (HWrite d)
  then show ?thesis
    using step serves_written [OF assms(1) HWrite] serves_broken [OF assms(1) HWrite]
    by (auto simp: handler_def split: io.splits)
next
  case HReturned
  then show ?thesis using step by (simp add: handler_def)
qed

lemma handler_answers:
  "list_all fits_buffer ds \<Longrightarrow> hpc c = HTop \<Longrightarrow> is_open c \<Longrightarrow>
   \<exists>ios c'. run_steps handler ios c = Some c' \<and> hpc c' = HTop \<and> read_data c' = read_data c @ ds"
proof (induction ds arbitrary: c)
  case Nil
  then have "run_steps handler [] c = Some c \<and> hpc c = HTop \<and> read_data c = read_data c @ []" by simp
  then show ?case by blast
next
  case (Cons d ds)
  let ?c = "c\<lparr>reads := reads c + 1, read_data := read_data c @ [d], wire := wire c @ static_response, hpc := HTop\<rparr>"
  have run: "run_steps handler [Success, Received d, Success] c = Some ?c"
    using Cons.prems by (simp add: handler_def)
  obtain ios c' where "run_steps handler ios ?c = Some c'" "hpc c' = HTop" "read_data c' = read_data ?c @ ds"
    using Cons.IH [of ?c] Cons.prems by auto
  then have "run_steps handler ([Success, Received d, Success] @ ios) c = Some c' \<and> hpc c' = HTop \<and>
      read_data c' = read_data c @ (d # ds)"
    unfolding run_steps_append run by simp
  then show ?case by blast
qed

lemma handler_piecewise: "list_all fits_buffer ds \<Longrightarrow> answers handler ds"
  using handler_answers [of ds accepted] by (auto simp: answers_def accepted_def)

lemma handler_ends:
  assumes "serves hello no_job c"
  shows "\<exists>ios c'. run_steps handler ios c = Some c' \<and> hpc c' = HReturned"
proof -
  have blocked: "\<exists>ios c'. run_steps handler ios c = Some c' \<and> hpc c' = HReturned"
    if "hpc c = HRead \<or> hpc c = HWrite d" for c :: "'a conn" and d
    by (rule run_steps_oneI [where k = "Failure 0"]) (use that in \<open>auto simp: handler_def\<close>)
  show ?thesis
  proof (cases "hpc c")
    case HTop
    then show ?thesis using assms
      by (intro run_steps_ConsI [where k = Success, OF _ blocked]) (auto simp: handler_def serves_def)
  next
    case HReturned
    then have "run_steps handler [] c = Some c \<and> hpc c = HReturned" by simp
    then show ?thesis by blast
  qed (use assms blocked in \<open>auto simp: serves_def\<close>)
qed

interpretation static: responder handler hello no_job
  by unfold_locales (use handler_serves handler_ends in \<open>auto simp: handler_def\<close>)

lemma copied_handlers: "thread_per_core_handler = handler" "per_cache_handler = handler"
  by (intro ext, simp add: handler_def thread_per_core_handler_def per_cache_handler_def)+

interpretation http_server: server handler hello no_job await_group
  by unfold_locales

interpretation thread_per_core: server thread_per_core_handler hello no_job wait_workers
  unfolding copied_handlers by unfold_locales

interpretation per_cache: server per_cache_handler hello no_job wait_workers
  unfolding copied_handlers by unfold_locales

end
