(* ===== verification/Http_Servers.thy ===== *)
theory Http_Servers
  imports Http_Correct
begin

text \<open>
  The handler of \<open>http_skynet.cpp\<close>, and what the clients of \<open>http_server.cpp\<close> and
  \<open>http_skynet.cpp\<close> see.
\<close>

section \<open>The handler of \<open>http_skynet.cpp\<close>\<close>

lemma http_depth_offset_copy: "http_depth_offset n d = depth_offset n d"
  by (induction n arbitrary: d) simp_all

lemma http_skynet_copy:
  "http_skynet_body = skynet_body" "http_skynet_combine = skynet_combine"
  "http_EXPECTED_RESULT = EXPECTED_RESULT"
  by (simp_all add: fun_eq_iff http_skynet_body_def skynet_body_def http_depth_offset_copy
      http_skynet_combine_def skynet_combine_def http_EXPECTED_RESULT_def EXPECTED_RESULT_def)

interpretation http_sky: fork_join "http_skynet_body DepthMax" http_skynet_combine
    "\<lambda>(b, d). d \<le> DepthMax" "leaf_sum DepthMax" "\<lambda>(b, d). skynet_cost (DepthMax - d)"
  for DepthMax
  unfolding http_skynet_copy by (rule skynet.fork_join_axioms)

text \<open>The body of a response: the text about the sum of the leaves, and some time.\<close>

definition sky_body :: "'w::len word \<Rightarrow> string \<Rightarrow> bool" where
  "sky_body leaves b \<longleftrightarrow> (\<exists>us. b = http_skynet us leaves)"

definition sky_job :: "'w::len sky \<Rightarrow> bool" where
  "sky_job f \<longleftrightarrow> http_sky.sound 6 f \<and> http_sky.denote 6 f = leaf_sum 6 (0, 0)"

abbreviation sky_serves :: "'w::len sky conn \<Rightarrow> bool" where
  "sky_serves \<equiv> serves (sky_body (leaf_sum 6 (0, 0) :: 'w word)) sky_job"

lemma sky_job_start: "sky_job (Call (0, 0))"
  by (simp add: sky_job_def)

lemma sky_job_step:
  "sky_job f \<Longrightarrow> frame_step (http_skynet_body 6) http_skynet_combine path f = Some g \<Longrightarrow> sky_job g"
  using http_sky.step_denote by (auto simp: sky_job_def)

lemma serves_work:
  "serves good jobok c \<Longrightarrow> hpc c = HWork j \<Longrightarrow> jobok k \<Longrightarrow> serves good jobok (c\<lparr>hpc := HWork k\<rparr>)"
  by (auto simp: serves_def; metis)

lemma serves_answer:
  "serves good jobok c \<Longrightarrow> hpc c = HWork j \<Longrightarrow> good b \<Longrightarrow>
   serves good jobok (c\<lparr>hpc := HWrite (skynet_response b)\<rparr>)"
  by (auto simp: serves_def; metis)

lemma skynet_handler_serves:
  assumes "sky_serves c" and step: "skynet_handler io c = Some c'"
  shows "sky_serves c'"
proof (cases "hpc c")
  case HTop
  then show ?thesis using step serves_top [OF assms(1)] by (auto simp: skynet_handler_def)
next
  case HRead
  then show ?thesis
    using step serves_read [OF assms(1) HRead] serves_job [OF assms(1) HRead _ sky_job_start]
    by (auto simp: skynet_handler_def split: io.splits if_splits)
next
  case (HWork f)
  then have job: "sky_job f" using assms(1) by (simp add: serves_def)
  show ?thesis
  proof (cases io)
    case (Frame path)
    then obtain g where g: "frame_step (http_skynet_body 6) http_skynet_combine path f = Some g"
      and c': "c' = c\<lparr>hpc := HWork g\<rparr>" using step HWork by (auto simp: skynet_handler_def)
    then show ?thesis using serves_work [OF assms(1) HWork sky_job_step [OF job g]] by simp
  next
    case (Microseconds us)
    then obtain cnt where f: "f = Ret cnt" and c': "c' = c\<lparr>hpc := HWrite (skynet_response (http_skynet us cnt))\<rparr>"
      using step HWork by (auto simp: skynet_handler_def split: frame.splits)
    have "sky_body (leaf_sum 6 (0, 0) :: 'a word) (http_skynet us cnt)"
      using job unfolding f sky_job_def sky_body_def by (intro exI [of _ us]) simp
    then show ?thesis unfolding c' by (rule serves_answer [OF assms(1) HWork])
  qed (use step HWork in \<open>simp_all add: skynet_handler_def\<close>)
next
  case (HWrite d)
  then show ?thesis
    using step serves_written [OF assms(1) HWrite] serves_broken [OF assms(1) HWrite]
    by (auto simp: skynet_handler_def split: io.splits)
next
  case HReturned
  then show ?thesis using step by (simp add: skynet_handler_def)
qed

lemma skynet_handler_frame:
  "hpc c = HWork f \<Longrightarrow> frame_step (http_skynet_body 6) http_skynet_combine path f = Some g \<Longrightarrow>
   skynet_handler (Frame path) c = Some (c\<lparr>hpc := HWork g\<rparr>)"
  by (simp add: skynet_handler_def)

lemma skynet_handler_frames:
  "hpc c = HWork f \<Longrightarrow> run_steps (frame_step (http_skynet_body 6) http_skynet_combine) paths f = Some g \<Longrightarrow>
   run_steps skynet_handler (map Frame paths) c = Some (c\<lparr>hpc := HWork g\<rparr>)"
proof (induction paths arbitrary: c f)
  case (Cons p ps)
  then obtain h where h: "frame_step (http_skynet_body 6) http_skynet_combine p f = Some h"
    and r: "run_steps (frame_step (http_skynet_body 6) http_skynet_combine) ps h = Some g"
    by (auto split: option.splits)
  have "run_steps skynet_handler (map Frame ps) (c\<lparr>hpc := HWork h\<rparr>) =
      Some (c\<lparr>hpc := HWork h\<rparr>\<lparr>hpc := HWork g\<rparr>)"
    by (rule Cons.IH [OF _ r]) simp
  then show ?case using skynet_handler_frame [OF Cons.prems(1) h] by simp
qed auto

lemma skynet_handler_ends:
  assumes "sky_serves c"
  shows "\<exists>ios c'. run_steps skynet_handler ios c = Some c' \<and> hpc c' = HReturned"
proof -
  have blocked: "\<exists>ios c'. run_steps skynet_handler ios c = Some c' \<and> hpc c' = HReturned"
    if "hpc c = HRead \<or> hpc c = HWrite d" for c :: "'a sky conn" and d
    by (rule run_steps_oneI [where k = "Failure 0"]) (use that in \<open>auto simp: skynet_handler_def\<close>)
  show ?thesis
  proof (cases "hpc c")
    case HTop
    then show ?thesis using assms
      by (intro run_steps_ConsI [where k = Success, OF _ blocked])
        (auto simp: skynet_handler_def serves_def)
  next
    case (HWork f)
    then have "http_sky.sound 6 f" using assms by (simp add: serves_def sky_job_def)
    from http_sky.runs.can_finish [OF this, where ks = "[]"] obtain paths g where
      r: "run_steps (frame_step (http_skynet_body 6) http_skynet_combine) paths f = Some g" and "is_ret g"
      by auto
    then obtain v where g: "g = Ret v" by (cases g) auto
    let ?d = "skynet_response (http_skynet 0 v)"
    have "run_steps skynet_handler (map Frame paths @ [Microseconds 0]) c = Some (c\<lparr>hpc := HWrite ?d\<rparr>)"
      using skynet_handler_frames [OF HWork r] by (simp add: run_steps_append g skynet_handler_def)
    moreover obtain ios c' where "run_steps skynet_handler ios (c\<lparr>hpc := HWrite ?d\<rparr>) = Some c'"
      and "hpc c' = HReturned" using blocked [of "c\<lparr>hpc := HWrite ?d\<rparr>" ?d] by auto
    ultimately have "run_steps skynet_handler ((map Frame paths @ [Microseconds 0]) @ ios) c = Some c' \<and>
        hpc c' = HReturned" by (subst run_steps_append) simp
    then show ?thesis by blast
  next
    case HReturned
    then have "run_steps skynet_handler [] c = Some c \<and> hpc c = HReturned" by simp
    then show ?thesis by blast
  qed (use blocked in auto)
qed

interpretation http_skynet: server "skynet_handler :: io \<Rightarrow> 'w::len sky conn \<Rightarrow> _"
    "sky_body (leaf_sum 6 (0, 0) :: 'w word)" sky_job await_group
  by unfold_locales
    (erule (1) skynet_handler_serves, simp add: skynet_handler_def, erule skynet_handler_ends)

section \<open>What the clients see\<close>

text \<open>
  C27. \<open>http_server.cpp\<close>: whatever the network does, a client that reads the bytes of its connection
  by their \<open>Content-Length\<close> sees \<open>Hello World!\<close> again and again, never more responses than the handler has
  completed reads, at most one less, and all of them when the handler is back at its read; each read has delivered
  between 1 and 4096 bytes; \<open>shutdown\<close> is never called. The process returns only after every connection has been
  closed, and can always be brought to return (when the acceptors and the connections fail).

  Reads are not requests: for every way to cut bytes into pieces there is a run in which they arrive as these pieces and
  get a response each. A client that waits for the response before it sends the next request gets one response per request
  exactly if each request arrives as one piece; a request that arrives in two pieces gets two responses.
\<close>

theorem http_server_serves:
  assumes "run_steps (process_step handler await_group) ks (http_server_main :: 'j process) = Some q"
  shows "(\<forall>l\<in>set (listeners q). \<forall>c\<in>set (conns l).
      (\<forall>b\<in>set (read_all (wire c)). b = ''Hello World!'') \<and>
      length (read_all (wire c)) \<le> reads c \<and> reads c \<le> Suc (length (read_all (wire c))) \<and>
      (hpc c = HRead \<longrightarrow> length (read_all (wire c)) = reads c) \<and> shutdowns c = 0 \<and>
      reads c = length (read_data c) \<and> list_all fits_buffer (read_data c) \<and>
      (main_returned q \<longrightarrow> \<not> is_open c)) \<and>
    (\<exists>more r. run_steps (process_step handler await_group) (ks @ more) (http_server_main :: 'j process) = Some r \<and>
      main_returned r) \<and>
    (\<forall>ds. list_all fits_buffer ds \<longrightarrow>
       (\<exists>ks r c. run_steps (process_step handler await_group) ks (http_server_main :: 'j process) = Some r \<and>
          conns (listeners r ! 0) = [c] \<and> read_data c = ds \<and> length (read_all (wire c)) = length ds))"
proof -
  have fresh: "http_server.fresh http_server_main"
    by (simp add: http_server.fresh_def http_server_main_def accept_start_def)
  have split: "\<exists>ks r c. run_steps (process_step handler await_group) ks (http_server_main :: 'j process) = Some r \<and>
      conns (listeners r ! 0) = [c] \<and> read_data c = ds \<and> length (read_all (wire c)) = length ds"
    if "list_all fits_buffer ds" for ds
    by (rule http_server.pieces_run [OF fresh _ handler_piecewise [OF that]]) (simp add: http_server_main_def)
  show ?thesis
    using serves_client [OF http_server.run_serves [OF fresh assms]]
      http_server.run_returned [OF fresh assms] split
    unfolding list_all_iff by blast
qed

definition hello_run :: "server_agent list" where
  "hello_run = [Acceptor 1 Success, Handler 1 0 Success, Handler 1 0 (Received ''GET / HT''), Handler 1 0 Success,
     Handler 1 0 Success, Handler 1 0 (Received ''TP/1.1''), Handler 1 0 (Failure 20), Acceptor 0 (Failure 0), Acceptor 0 Success,
     Acceptor 1 (Failure 0), Acceptor 1 Success, Main]"

theorem http_server_serves_witness:
  "(\<exists>q c. run_steps (process_step handler await_group) hello_run (http_server_main :: unit process) = Some q \<and>
     conns (listeners q ! 1) = [c] \<and> main_returned q \<and> \<not> is_open c \<and> shutdowns c = 0 \<and> reads c = 2) \<and>
   (\<exists>ks r c. run_steps (process_step handler await_group) ks (http_server_main :: unit process) = Some r \<and>
     conns (listeners r ! 0) = [c] \<and> concat (read_data c) = ''GET / HTTP/1.1'' @ [nl, nl] \<and>
     length (read_all (wire c)) = 2)"
proof -
  obtain q where q: "run_steps (process_step handler await_group) hello_run (http_server_main :: unit process) = Some q"
      "main_returned q" "length (listeners q) = 2" "length (conns (listeners q ! 1)) = 1"
      "reads (conns (listeners q ! 1) ! 0) = 2"
    by (simp add: hello_run_def http_server_main_def accept_start_def accept_step_def listener_step_def
        handler_def accepted_def await_group_def main_returned_def fits_buffer_def)
  have "list_all fits_buffer [''GET / HT'', ''TP/1.1'' @ [nl, nl]]" by (simp add: fits_buffer_def)
  then have "\<exists>ks r c. run_steps (process_step handler await_group) ks (http_server_main :: unit process) = Some r \<and>
      conns (listeners r ! 0) = [c] \<and> read_data c = [''GET / HT'', ''TP/1.1'' @ [nl, nl]] \<and>
      length (read_all (wire c)) = length [''GET / HT'', ''TP/1.1'' @ [nl, nl]]"
    using http_server_serves [OF q(1)] by blast
  then have "\<exists>ks r c. run_steps (process_step handler await_group) ks (http_server_main :: unit process) = Some r \<and>
      conns (listeners r ! 0) = [c] \<and> concat (read_data c) = ''GET / HTTP/1.1'' @ [nl, nl] \<and>
      length (read_all (wire c)) = 2" by fastforce
  note q this
  moreover define c where "c = conns (listeners q ! 1) ! 0"
  moreover have "listeners q ! 1 \<in> set (listeners q)" "c \<in> set (conns (listeners q ! 1))"
    using q by (auto simp: c_def)
  moreover have "conns (listeners q ! 1) = [c]" using q(4) by (cases "conns (listeners q ! 1)") (auto simp: c_def)
  ultimately show ?thesis using http_server_serves [OF q(1)] by blast
qed

text \<open>
  C28. \<open>http_skynet.cpp\<close>, on platforms with 64-bit and 32-bit \<open>size_t\<close>: every response a client reads
  is the text of a correct run of the benchmark, in whatever order the coroutines of all connections run; no
  response says \<open>got wrong result\<close>. The other guarantees are those of the plain server.
\<close>

theorem http_skynet_serves:
  fixes q :: "'w::len sky process"
  assumes "LENGTH('w) = 64 \<or> LENGTH('w) = 32"
    and "run_steps (process_step skynet_handler await_group) ks http_skynet_main = Some q"
  shows "(\<forall>l\<in>set (listeners q). \<forall>c\<in>set (conns l).
      (\<forall>b\<in>set (read_all (wire c)). \<exists>us. b = ''executed skynet in '' @ to_string us @ '' us'' @ [nl]) \<and>
      length (read_all (wire c)) \<le> reads c \<and> reads c \<le> Suc (length (read_all (wire c))) \<and>
      (hpc c = HRead \<longrightarrow> length (read_all (wire c)) = reads c) \<and> shutdowns c = 0 \<and>
      (main_returned q \<longrightarrow> \<not> is_open c)) \<and>
    (\<exists>more r. run_steps (process_step skynet_handler await_group) (ks @ more)
        (http_skynet_main :: 'w sky process) = Some r \<and> main_returned r)"
proof -
  have fresh: "http_skynet.fresh (http_skynet_main :: 'w sky process)"
    by (simp add: http_skynet.fresh_def http_skynet_main_def accept_start_def)
  have body: "\<exists>us. b = ''executed skynet in '' @ to_string us @ '' us'' @ [nl]"
    if "sky_body (leaf_sum 6 (0, 0) :: 'w word) b" for b
    using that leaf_sum_expected [OF assms(1)] unfolding sky_body_def http_skynet_def http_skynet_copy
    by auto
  show ?thesis
    using serves_client [OF http_skynet.run_serves [OF fresh assms(2)]]
      http_skynet.run_returned [OF fresh assms(2)]
    unfolding list_all_iff by (blast intro: body)
qed

theorem http_skynet_serves_witness:
  "\<exists>more r. run_steps (process_step skynet_handler await_group) ([Acceptor 0 Success, Handler 0 0 Success] @ more)
     (http_skynet_main :: 64 sky process) = Some r \<and> main_returned r"
proof -
  obtain q where "run_steps (process_step skynet_handler await_group) [Acceptor 0 Success, Handler 0 0 Success]
      (http_skynet_main :: 64 sky process) = Some q"
    by (simp add: http_skynet_main_def accept_start_def accept_step_def listener_step_def
        skynet_handler_def accepted_def)
  from http_skynet_serves [OF _ this] show ?thesis by auto
qed

end
