(* ===== verification/Hwloc_Servers.thy ===== *)
theory Hwloc_Servers
  imports Http_Correct
begin

text \<open>
  The two servers of \<open>hwloc/\<close>: one worker per core (\<open>asio_thread_per_core.cpp\<close>) or per cache
  (\<open>asio_server_per_cache.cpp\<close>), all in one process or, started by the prefork scripts, one process
  per worker.
\<close>

section \<open>The C library functions they use\<close>

text \<open>
  C leaves \<open>atoi\<close> undefined when the value is not an \<open>int\<close>. Here it is the value itself, so what is said about such
  arguments holds only of a library that continues it so; the arguments of the scripts are indices of cores and caches.
\<close>

definition isspace :: "char \<Rightarrow> bool" where
  "isspace c = (c \<in> {CHR 0x09, CHR 0x0A, CHR 0x0B, CHR 0x0C, CHR 0x0D, CHR '' ''})"

definition isdigit :: "char \<Rightarrow> bool" where
  "isdigit c \<longleftrightarrow> 48 \<le> (of_char c :: nat) \<and> (of_char c :: nat) \<le> 57"

definition atoi :: "string \<Rightarrow> int" where
  "atoi s =
     (case dropWhile isspace s of
        [] \<Rightarrow> 0
      | c # cs \<Rightarrow>
          (if c = CHR ''-'' then - int (digits_value (takeWhile isdigit cs))
           else if c = CHR ''+'' then int (digits_value (takeWhile isdigit cs))
           else int (digits_value (takeWhile isdigit (c # cs)))))"

section \<open>Configurations and main functions\<close>

text \<open>
  What a process does: it prints a number and returns, or it runs one worker per configured pair of
  executors. A configuration is the sequence of calls on the executors.
\<close>

datatype 'c ex_call =
    AsioPartition 'c      \<comment> \<open>\<open>ExAsio.add_partition\<close> with this core or cache index\<close>
  | AsioInit
  | CpuPartition 'c
  | CpuThreads 'c
  | CpuInit

datatype 'c program = Printed nat | Workers "'c ex_call list list"

definition thread_per_core_main :: "nat \<Rightarrow> string list \<Rightarrow> 'w::len word program" where
  "thread_per_core_main core_count argv =
     (case argv of
        arg # _ \<Rightarrow>
          if arg = ''--query'' then Printed core_count
          else let coreIdx = word_of_int (atoi arg) in Workers [[AsioPartition coreIdx, AsioInit]]
      | [] \<Rightarrow> Workers (map (\<lambda>i. [AsioPartition (of_nat i), AsioInit]) [0..<core_count]))"

text \<open>\<open>groups\<close> holds the number of cores of each cache; reading past its end is undefined (\<open>None\<close>).\<close>

definition configure_executors :: "nat list \<Rightarrow> 'w::len word \<Rightarrow> 'w word ex_call list option" where
  "configure_executors groups CacheIdx =
     (if unat CacheIdx < length groups
      then Some [AsioPartition CacheIdx, AsioInit, CpuPartition CacheIdx,
             CpuThreads (of_nat (groups ! unat CacheIdx) - 1), CpuInit]
      else None)"

fun all_some :: "'a option list \<Rightarrow> 'a list option" where
  "all_some [] = Some []"
| "all_some (None # xs) = None"
| "all_some (Some x # xs) = map_option ((#) x) (all_some xs)"

definition per_cache_main :: "nat list \<Rightarrow> string list \<Rightarrow> 'w::len word program option" where
  "per_cache_main groups argv =
     (case argv of
        arg # _ \<Rightarrow>
          if arg = ''--query'' then Some (Printed (length groups))
          else let cacheIdx = word_of_int (atoi arg)
               in map_option (\<lambda>calls. Workers [calls @ [CpuInit]]) (configure_executors groups cacheIdx)
      | [] \<Rightarrow>
          map_option Workers
            (all_some (map (\<lambda>i. configure_executors groups (of_nat i)) [0..<length groups])))"

text \<open>The accept loops that the workers run, and the process that waits for them.\<close>

definition thread_per_core_process :: "32 word \<Rightarrow> nat \<Rightarrow> 'j process" where
  "thread_per_core_process reuse workers =
     \<lparr>listeners = replicate workers (thread_per_core_accept reuse 55550), waited = 0\<rparr>"

definition per_cache_process :: "32 word \<Rightarrow> nat \<Rightarrow> 'j process" where
  "per_cache_process reuse workers =
     \<lparr>listeners = replicate workers (per_cache_accept reuse 55550), waited = 0\<rparr>"

section \<open>Arguments written by the scripts\<close>

lemma digit_isdigit: "d < 10 \<Longrightarrow> isdigit (char_of (48 + d :: nat))"
  by (simp add: isdigit_def digit_value)

lemma to_string_isdigit: "\<forall>c\<in>set (to_string n). isdigit c"
proof (induction n rule: to_string.induct)
  case (1 n)
  then show ?case
    using digit_isdigit [of n] digit_isdigit [of "n mod 10"]
    by (subst to_string.simps) auto
qed

lemma to_string_ne: "to_string n \<noteq> []"
  by (subst to_string.simps) simp

lemma atoi_to_string: "atoi (to_string n) = int n"
proof -
  obtain c cs where s: "to_string n = c # cs" using to_string_ne [of n] by (cases "to_string n") auto
  have all: "\<forall>x\<in>set (c # cs). isdigit x" using to_string_isdigit [of n] by (simp only: s)
  then have c: "isdigit c" by simp
  have "\<not> isspace c" "c \<noteq> CHR ''-''" "c \<noteq> CHR ''+''"
    using c by (auto simp: isdigit_def isspace_def)
  moreover have "takeWhile isdigit (c # cs) = c # cs"
    using all by (intro takeWhile_eq_all_conv [THEN iffD2])
  moreover have "digits_value (c # cs) = n" using to_string_digits [of n] by (simp only: s)
  ultimately show ?thesis by (simp add: atoi_def s)
qed

lemma to_string_not_query: "to_string n \<noteq> ''--query''"
proof
  assume "to_string n = ''--query''"
  then show False using to_string_isdigit [of n] by (simp add: isdigit_def)
qed

section \<open>Properties\<close>

lemma all_some_map: "(\<And>x. x \<in> set xs \<Longrightarrow> f x = Some (g x)) \<Longrightarrow> all_some (map f xs) = Some (map g xs)"
  by (induction xs) auto

lemma configure_of_nat:
  assumes "i < length groups" and "length groups \<le> 2 ^ LENGTH('w)"
  shows "configure_executors groups (of_nat i :: 'w::len word) =
    Some [AsioPartition (of_nat i), AsioInit, CpuPartition (of_nat i),
          CpuThreads (of_nat (groups ! i) - 1), CpuInit]"
  using assms by (simp add: configure_executors_def unsigned_of_nat take_bit_nat_eq_self)



text \<open>
  C30. The servers of \<open>hwloc/\<close> with any number of workers keep the promises of the plain server:
  complete responses with the body \<open>Hello World!\<close> only, one per completed read (as many as the pieces in which the bytes
  of a client arrive, however these are cut into requests), no \<open>shutdown\<close>; the main function
  returns only when every connection of every worker is closed, although it waits for the workers one
  after the other, and it can always be brought to return.
\<close>

theorem hwloc_servers_serve:
  assumes "(handle, p) = (thread_per_core_handler, thread_per_core_process reuse n :: 'j process) \<or>
      (handle, p) = (per_cache_handler, per_cache_process reuse n)"
    and "run_steps (process_step handle wait_workers) ks p = Some q"
  shows "(\<forall>l\<in>set (listeners q). \<forall>c\<in>set (conns l).
      (\<forall>b\<in>set (read_all (wire c)). b = ''Hello World!'') \<and>
      length (read_all (wire c)) \<le> reads c \<and> reads c \<le> Suc (length (read_all (wire c))) \<and>
      (hpc c = HRead \<longrightarrow> length (read_all (wire c)) = reads c) \<and> shutdowns c = 0 \<and>
      reads c = length (read_data c) \<and> list_all fits_buffer (read_data c) \<and>
      (main_returned q \<longrightarrow> \<not> is_open c)) \<and>
    (\<exists>more r. run_steps (process_step handle wait_workers) (ks @ more) p = Some r \<and> main_returned r) \<and>
    (\<forall>ds. 0 < n \<and> list_all fits_buffer ds \<longrightarrow>
       (\<exists>ks r c. run_steps (process_step handle wait_workers) ks p = Some r \<and>
          conns (listeners r ! 0) = [c] \<and> read_data c = ds \<and> length (read_all (wire c)) = length ds))"
proof -
  have h: "handle = handler" using assms(1) copied_handlers by auto
  have p: "p = thread_per_core_process reuse n"
    using assms(1)
    by (auto simp: thread_per_core_process_def per_cache_process_def thread_per_core_accept_def
        per_cache_accept_def)
  then have fresh: "thread_per_core.fresh p"
    by (simp add: thread_per_core.fresh_def thread_per_core_process_def thread_per_core_accept_def)
  have run: "run_steps (process_step thread_per_core_handler wait_workers) ks p = Some q"
    using assms(2) by (simp add: h copied_handlers)
  have split: "\<exists>ks r c. run_steps (process_step thread_per_core_handler wait_workers) ks p = Some r \<and>
      conns (listeners r ! 0) = [c] \<and> read_data c = ds \<and> length (read_all (wire c)) = length ds"
    if "0 < n" "list_all fits_buffer ds" for ds
    using that(1) handler_piecewise [OF that(2)]
    by (intro thread_per_core.pieces_run [OF fresh]) (simp_all add: p thread_per_core_process_def copied_handlers)
  show ?thesis
    using serves_client [OF thread_per_core.run_serves [OF fresh run]]
      thread_per_core.run_returned [OF fresh run] split
    unfolding h copied_handlers list_all_iff by blast
qed

theorem hwloc_servers_serve_witness:
  "\<exists>more r. run_steps (process_step per_cache_handler wait_workers) ([Acceptor 1 Success, Handler 1 0 Success] @ more)
     (per_cache_process 15 2 :: unit process) = Some r \<and> main_returned r"
proof -
  obtain q where q: "run_steps (process_step per_cache_handler wait_workers) [Acceptor 1 Success, Handler 1 0 Success]
      (per_cache_process 15 2 :: unit process) = Some q"
    by (simp add: per_cache_process_def per_cache_accept_def accept_step_def listener_step_def
        per_cache_handler_def accepted_def numeral_2_eq_2)
  from hwloc_servers_serve [OF _ q, of 15 2] show ?thesis by blast
qed

text \<open>
  The option passed to \<open>setsockopt\<close> is the bitwise disjunction of two option numbers. With the numbers of
  Linux it is \<open>SO_REUSEPORT\<close>; with those of BSD systems it is neither of the two.
\<close>

lemma reuse_option_numbers:
  "reuse_option False 2 15 = 15" "reuse_option False 4 512 \<noteq> 4 \<and> reuse_option False 4 512 \<noteq> 512"
  by (simp_all add: reuse_option_def)

end
