(* ===== verification/Blocking.thy ===== *)
theory Blocking
  imports Prelude
begin

text \<open>
  A thread outside of the executor that posts work to \<open>tmc::cpu_executor()\<close> and blocks on futures:
  the shape of \<open>examples/sync.cpp\<close> and \<open>examples/hwloc/hybrid_executor.cpp\<close>. Of the executor only
  the documented contract is used: every posted item runs once, on some thread that may run it, in
  any order and in parallel; a future is ready when all of its items have completed.
\<close>

section \<open>Programs and states\<close>

text \<open>
  \<open>tmc::post\<close> or \<open>tmc::post_bulk\<close>; \<open>tmc::post_waitable\<close> or \<open>tmc::post_bulk_waitable\<close>, which makes
  a future; \<open>get()\<close> or \<open>wait()\<close> on the latest future; a use of the value it gave; a sleep.
\<close>

datatype 'j stmt = Post "'j list" | PostWaitable "'j list" | Wait | UseResult | Sleep

text \<open>
  A thread of the executor: idle, about to run an item, about to complete it. An item carries the
  number of the future it belongs to.
\<close>

datatype 'j cpu = Idle | Running 'j "nat option" | Ending 'j "nat option"

text \<open>What the program can observe: thread \<open>t\<close> ran an item, or the blocked thread used a result.\<close>

datatype 'j occurrence = Ran nat 'j "nat option" | Used "int option"

record ('j, 'x) blocking =
  code :: "'j stmt list"
  ready :: "('j \<times> nat option) list"
  crew :: "'j cpu list"
  futures :: "(nat \<times> int option) list"   \<comment> \<open>items not yet completed, and the value\<close>
  seen :: "'x"

datatype blocking_agent = Blocked | Cpu nat nat

definition blocked_step ::
    "('j occurrence \<Rightarrow> 'x \<Rightarrow> 'x) \<Rightarrow> ('j, 'x) blocking \<Rightarrow> ('j, 'x) blocking option" where
  "blocked_step effect p =
     (case code p of
        [] \<Rightarrow> None
      | Post js # ss \<Rightarrow> Some (p\<lparr>code := ss, ready := ready p @ map (\<lambda>j. (j, None)) js\<rparr>)
      | PostWaitable js # ss \<Rightarrow>
          Some (p\<lparr>code := ss, ready := ready p @ map (\<lambda>j. (j, Some (length (futures p)))) js,
                  futures := futures p @ [(length js, None)]\<rparr>)
      | Wait # ss \<Rightarrow> (if fst (last (futures p)) = 0 then Some (p\<lparr>code := ss\<rparr>) else None)
      | UseResult # ss \<Rightarrow>
          Some (p\<lparr>code := ss, seen := effect (Used (snd (last (futures p)))) (seen p)\<rparr>)
      | Sleep # ss \<Rightarrow> Some (p\<lparr>code := ss\<rparr>))"

definition complete :: "int option \<Rightarrow> nat \<times> int option \<Rightarrow> nat \<times> int option" where
  "complete r fut = (fst fut - 1, case r of None \<Rightarrow> snd fut | Some v \<Rightarrow> Some v)"

definition cpu_step ::
    "('j occurrence \<Rightarrow> 'x \<Rightarrow> 'x) \<Rightarrow> ('j \<Rightarrow> int option) \<Rightarrow> (nat \<Rightarrow> 'j \<Rightarrow> bool) \<Rightarrow> nat \<Rightarrow> nat \<Rightarrow>
     ('j, 'x) blocking \<Rightarrow> ('j, 'x) blocking option" where
  "cpu_step effect result may t i p =
     (if t < length (crew p) then
        (case crew p ! t of
           Idle \<Rightarrow>
             (if i < length (ready p) \<and> may t (fst (ready p ! i)) then
                Some (p\<lparr>ready := take i (ready p) @ drop (Suc i) (ready p),
                        crew := (crew p)[t := Running (fst (ready p ! i)) (snd (ready p ! i))]\<rparr>)
              else None)
         | Running j fut \<Rightarrow>
             Some (p\<lparr>crew := (crew p)[t := Ending j fut], seen := effect (Ran t j fut) (seen p)\<rparr>)
         | Ending j None \<Rightarrow> Some (p\<lparr>crew := (crew p)[t := Idle]\<rparr>)
         | Ending j (Some f) \<Rightarrow>
             Some (p\<lparr>crew := (crew p)[t := Idle],
                     futures := (futures p)[f := complete (result j) (futures p ! f)]\<rparr>))
      else None)"

fun blocking_step ::
    "('j occurrence \<Rightarrow> 'x \<Rightarrow> 'x) \<Rightarrow> ('j \<Rightarrow> int option) \<Rightarrow> (nat \<Rightarrow> 'j \<Rightarrow> bool) \<Rightarrow> blocking_agent \<Rightarrow>
     ('j, 'x) blocking \<Rightarrow> ('j, 'x) blocking option" where
  "blocking_step effect result may Blocked p = blocked_step effect p"
| "blocking_step effect result may (Cpu t i) p = cpu_step effect result may t i p"

definition blocking_init :: "nat \<Rightarrow> 'j stmt list \<Rightarrow> 'x \<Rightarrow> ('j, 'x) blocking" where
  "blocking_init n prog x0 =
     \<lparr>code = prog, ready = [], crew = replicate n Idle, futures = [], seen = x0\<rparr>"

section \<open>What a run may have done\<close>

text \<open>The program waits on every future it makes before it goes on.\<close>

fun paced :: "bool \<Rightarrow> 'j stmt list \<Rightarrow> bool" where
  "paced w [] = (\<not> w)"
| "paced w (Post js # ss) = paced w ss"
| "paced w (PostWaitable js # ss) = (\<not> w \<and> paced True ss)"
| "paced w (Wait # ss) = (w \<and> paced False ss)"
| "paced w (UseResult # ss) = (\<not> w \<and> paced False ss)"
| "paced w (Sleep # ss) = paced w ss"

text \<open>The items of the latest future, and those posted without one; the history is in reverse.\<close>

fun last_jobs :: "'j stmt list \<Rightarrow> 'j list" where
  "last_jobs [] = []"
| "last_jobs (PostWaitable js # h) = js"
| "last_jobs (_ # h) = last_jobs h"

fun nowait_jobs :: "'j stmt list \<Rightarrow> 'j multiset" where
  "nowait_jobs [] = {#}"
| "nowait_jobs (Post js # h) = mset js + nowait_jobs h"
| "nowait_jobs (_ # h) = nowait_jobs h"

lemma nowait_jobs_append [simp]: "nowait_jobs (g @ h) = nowait_jobs g + nowait_jobs h"
  by (induction g rule: nowait_jobs.induct) auto

text \<open>
  The specification of the synchronised part: the items of each waited statement as one block, in
  any order within it, and each use of a result after the block it comes from.
\<close>

fun explains :: "('j \<Rightarrow> int option) \<Rightarrow> 'j stmt list \<Rightarrow> ('j + int option) list \<Rightarrow> bool" where
  "explains result [] es = (es = [])"
| "explains result (PostWaitable js # h) es =
     (\<exists>a b. es = a @ b \<and> explains result h a \<and> mset b = mset (map Inl js))"
| "explains result (UseResult # h) es =
     (\<exists>a v. es = a @ [Inr v] \<and> explains result h a \<and> (\<forall>j. last_jobs h = [j] \<longrightarrow> v = result j))"
| "explains result (_ # h) es = explains result h es"

fun synced :: "'j occurrence list \<Rightarrow> ('j + int option) list" where
  "synced [] = []"
| "synced (Ran t j (Some f) # es) = Inl j # synced es"
| "synced (Ran t j None # es) = synced es"
| "synced (Used v # es) = Inr v # synced es"

fun unsynced :: "'j occurrence list \<Rightarrow> 'j multiset" where
  "unsynced [] = {#}"
| "unsynced (Ran t j None # es) = add_mset j (unsynced es)"
| "unsynced (_ # es) = unsynced es"

lemma synced_append [simp]: "synced (xs @ ys) = synced xs @ synced ys"
  by (induction xs rule: synced.induct) auto

lemma unsynced_append [simp]: "unsynced (xs @ ys) = unsynced xs + unsynced ys"
  by (induction xs rule: unsynced.induct) auto

section \<open>Items in the executor\<close>

fun cpu_todo :: "'j cpu \<Rightarrow> ('j \<times> nat option) multiset" where
  "cpu_todo (Running j fut) = {#(j, fut)#}"
| "cpu_todo _ = {#}"

fun cpu_holds :: "'j cpu \<Rightarrow> ('j \<times> nat option) multiset" where
  "cpu_holds Idle = {#}"
| "cpu_holds (Running j fut) = {#(j, fut)#}"
| "cpu_holds (Ending j fut) = {#(j, fut)#}"

definition unrun :: "('j, 'x) blocking \<Rightarrow> ('j \<times> nat option) multiset" where
  "unrun p = mset (ready p) + sum_list (map cpu_todo (crew p))"

definition incomplete :: "('j, 'x) blocking \<Rightarrow> ('j \<times> nat option) multiset" where
  "incomplete p = mset (ready p) + sum_list (map cpu_holds (crew p))"

definition waited :: "('j \<times> nat option) multiset \<Rightarrow> 'j multiset" where
  "waited M = image_mset fst (filter_mset (\<lambda>x. snd x \<noteq> None) M)"

definition unwaited :: "('j \<times> nat option) multiset \<Rightarrow> 'j multiset" where
  "unwaited M = image_mset fst (filter_mset (\<lambda>x. snd x = None) M)"

lemma waited_simps [simp]:
  "waited {#} = {#}" "waited (add_mset (j, Some f) M) = add_mset j (waited M)"
  "waited (add_mset (j, None) M) = waited M"
  "waited (M + M') = waited M + waited M'"
  by (simp_all add: waited_def)

lemma unwaited_simps [simp]:
  "unwaited {#} = {#}" "unwaited (add_mset (j, Some f) M) = unwaited M"
  "unwaited (add_mset (j, None) M) = add_mset j (unwaited M)"
  "unwaited (M + M') = unwaited M + unwaited M'"
  by (simp_all add: unwaited_def)

lemma waited_posts [simp]:
  "waited (mset (map (\<lambda>j. (j, Some f)) js)) = mset js"
  "waited (mset (map (\<lambda>j. (j, None)) js)) = {#}"
  "unwaited (mset (map (\<lambda>j. (j, Some f)) js)) = {#}"
  "unwaited (mset (map (\<lambda>j. (j, None)) js)) = mset js"
  by (induction js) simp_all

lemma mset_remove_nth: "i < length xs \<Longrightarrow> add_mset (xs ! i) (mset (take i xs @ drop (Suc i) xs)) = mset xs"
  by (subst (3) id_take_nth_drop [of i xs]) simp_all

lemma cpu_todo_le: "sum_list (map cpu_todo cs) \<subseteq># sum_list (map cpu_holds cs)"
proof (induction cs)
  case (Cons c cs)
  have "cpu_todo c \<subseteq># cpu_holds c" by (cases c) auto
  with Cons show ?case by (simp add: subset_mset.add_mono)
qed simp

lemma unrun_le: "unrun p \<subseteq># incomplete p"
  by (simp add: unrun_def incomplete_def cpu_todo_le)

lemma waited_mono: "M \<subseteq># M' \<Longrightarrow> waited M \<subseteq># waited M'"
  by (simp add: waited_def image_mset_subseteq_mono multiset_filter_mono)

lemma unrun_waited_empty: "waited (incomplete p) = {#} \<Longrightarrow> waited (unrun p) = {#}"
  using waited_mono [OF unrun_le, of p] by simp

text \<open>The three kinds of steps of an executor thread, by what they do to the items.\<close>

lemma cpu_cases:
  assumes "cpu_step effect result may t i p = Some p'"
  obtains (take) j fut where "crew p ! t = Idle" "crew p' = (crew p)[t := Running j fut]" "may t j"
      "(j, fut) \<in> set (ready p)" "length (ready p) = Suc (length (ready p'))"
      "unrun p' = unrun p" "incomplete p' = incomplete p"
      "code p' = code p" "futures p' = futures p" "seen p' = seen p" "t < length (crew p)"
    | (run) j fut where "crew p ! t = Running j fut" "crew p' = (crew p)[t := Ending j fut]"
      "ready p' = ready p" "unrun p = add_mset (j, fut) (unrun p')" "incomplete p' = incomplete p"
      "code p' = code p" "futures p' = futures p" "seen p' = effect (Ran t j fut) (seen p)"
      "t < length (crew p)"
    | (end_) j fut where "crew p ! t = Ending j fut" "crew p' = (crew p)[t := Idle]"
      "ready p' = ready p" "unrun p' = unrun p" "incomplete p = add_mset (j, fut) (incomplete p')"
      "code p' = code p" "seen p' = seen p" "t < length (crew p)"
      "futures p' = (case fut of None \<Rightarrow> futures p
         | Some f \<Rightarrow> (futures p)[f := complete (result j) (futures p ! f)])"
proof -
  have t: "t < length (crew p)" using assms by (auto simp: cpu_step_def split: if_splits)
  note up = sum_mset_map_update [OF t]
  show ?thesis
  proof (cases "crew p ! t")
    case Idle
    then have i: "i < length (ready p)" "may t (fst (ready p ! i))"
      and p': "p' = p\<lparr>ready := take i (ready p) @ drop (Suc i) (ready p),
        crew := (crew p)[t := Running (fst (ready p ! i)) (snd (ready p ! i))]\<rparr>"
      using assms t by (auto simp: cpu_step_def split: if_splits)
    have "ready p ! i \<in> set (ready p)" using i by simp
    then show ?thesis
      using Idle t i up [of cpu_todo "Running (fst (ready p ! i)) (snd (ready p ! i))"]
        up [of cpu_holds "Running (fst (ready p ! i)) (snd (ready p ! i))"] mset_remove_nth [OF i(1)]
      by (intro take) (auto simp: p' unrun_def incomplete_def)
  next
    case (Running j fut)
    then have p': "p' = p\<lparr>crew := (crew p)[t := Ending j fut], seen := effect (Ran t j fut) (seen p)\<rparr>"
      using assms t by (simp add: cpu_step_def)
    show ?thesis
      using Running t up [of cpu_todo "Ending j fut"] up [of cpu_holds "Ending j fut"]
      by (intro run) (auto simp: p' unrun_def incomplete_def)
  next
    case (Ending j fut)
    then show ?thesis
      using assms t up [of cpu_todo Idle] up [of cpu_holds Idle]
      by (intro end_ [of j fut]) (auto simp: cpu_step_def unrun_def incomplete_def split: option.splits)
  qed
qed

section \<open>The invariant\<close>

text \<open>
  \<open>h\<close> is the history of the blocked thread in reverse, \<open>log\<close> the events so far, \<open>w\<close> whether the
  thread still has to wait on its latest future.
\<close>

definition futures_ok :: "('j \<Rightarrow> int option) \<Rightarrow> 'j stmt list \<Rightarrow> bool \<Rightarrow> ('j, 'x) blocking \<Rightarrow> bool" where
  "futures_ok result h w p \<longleftrightarrow>
     (\<forall>j f. (j, Some f) \<in># incomplete p \<longrightarrow> Suc f = length (futures p)) \<and>
     (futures p = [] \<longrightarrow> last_jobs h = []) \<and>
     (futures p \<noteq> [] \<longrightarrow> size (waited (incomplete p)) = fst (last (futures p))) \<and>
     waited (incomplete p) \<subseteq># mset (last_jobs h) \<and>
     (w \<longrightarrow> futures p \<noteq> []) \<and> (\<not> w \<longrightarrow> waited (incomplete p) = {#}) \<and>
     (\<forall>j. last_jobs h = [j] \<longrightarrow>
        snd (last (futures p)) = (if waited (incomplete p) = {#} then result j else None))"

definition log_ok ::
    "('j \<Rightarrow> int option) \<Rightarrow> (nat \<Rightarrow> 'j \<Rightarrow> bool) \<Rightarrow> 'j stmt list \<Rightarrow> 'j occurrence list \<Rightarrow>
     ('j, 'x) blocking \<Rightarrow> bool" where
  "log_ok result may h log p \<longleftrightarrow>
     (\<forall>ys. mset ys = image_mset Inl (waited (unrun p)) \<longrightarrow> explains result h (synced log @ ys)) \<and>
     nowait_jobs h = unsynced log + unwaited (unrun p) \<and>
     (\<forall>t j fut. Ran t j fut \<in> set log \<longrightarrow> may t j \<and> t < length (crew p)) \<and>
     (\<forall>t<length (crew p). \<forall>j fut. crew p ! t = Running j fut \<longrightarrow> may t j)"

definition blocking_inv ::
    "('j occurrence \<Rightarrow> 'x \<Rightarrow> 'x) \<Rightarrow> ('j \<Rightarrow> int option) \<Rightarrow> (nat \<Rightarrow> 'j \<Rightarrow> bool) \<Rightarrow> 'j stmt list \<Rightarrow> 'x \<Rightarrow>
     ('j, 'x) blocking \<Rightarrow> bool" where
  "blocking_inv effect result may prog x0 p \<longleftrightarrow>
     (\<exists>h log w. prog = rev h @ code p \<and> paced w (code p) \<and> seen p = fold effect log x0 \<and>
        futures_ok result h w p \<and> log_ok result may h log p)"

lemma blocking_invI:
  assumes "prog = rev h @ code p" and "paced w (code p)" and "seen p = fold effect log x0"
    and "futures_ok result h w p" and "log_ok result may h log p"
  shows "blocking_inv effect result may prog x0 p"
  using assms unfolding blocking_inv_def by blast

lemma explains_post:
  "explains result h es \<Longrightarrow> mset ys = image_mset Inl (mset js) \<Longrightarrow> explains result (PostWaitable js # h) (es @ ys)"
  by auto

lemma blocked_keeps:
  assumes inv: "blocking_inv effect result may prog x0 p" and step: "blocked_step effect p = Some p'"
  shows "blocking_inv effect result may prog x0 p'"
proof -
  obtain h log w where i: "prog = rev h @ code p" "paced w (code p)" "seen p = fold effect log x0"
    and f: "futures_ok result h w p" and l: "log_ok result may h log p"
    using inv unfolding blocking_inv_def by blast
  obtain s ss where s: "code p = s # ss" using step by (cases "code p") (auto simp: blocked_step_def)
  have prog: "prog = rev (s # h) @ ss" using i(1) s by simp
  have idle: "waited (unrun p) = {#}" if "\<not> w"
    using f that unrun_waited_empty by (auto simp: futures_ok_def)
  show ?thesis
  proof (cases s)
    case (Post js)
    then have p': "p' = p\<lparr>code := ss, ready := ready p @ map (\<lambda>j. (j, None)) js\<rparr>"
      using step s by (simp add: blocked_step_def)
    have "unrun p' = unrun p + mset (map (\<lambda>j. (j, None)) js)"
      "incomplete p' = incomplete p + mset (map (\<lambda>j. (j, None)) js)"
      by (simp_all add: p' unrun_def incomplete_def del: mset_map)
    then have "futures_ok result (s # h) w p'" "log_ok result may (s # h) log p'"
      using f l by (auto simp: futures_ok_def log_ok_def Post p' simp del: mset_map)
    then show ?thesis
      using i s Post p' by (intro blocking_invI [where h = "s # h" and log = log and w = w]) auto
  next
    case (PostWaitable js)
    then have p': "p' = p\<lparr>code := ss, ready := ready p @ map (\<lambda>j. (j, Some (length (futures p)))) js,
        futures := futures p @ [(length js, None)]\<rparr>"
      using step s by (simp add: blocked_step_def)
    have w: "\<not> w" "paced True ss" using i(2) s PostWaitable by simp_all
    have none: "waited (incomplete p) = {#}" using f w by (simp add: futures_ok_def)
    have u: "unrun p' = unrun p + mset (map (\<lambda>j. (j, Some (length (futures p)))) js)"
      "incomplete p' = incomplete p + mset (map (\<lambda>j. (j, Some (length (futures p)))) js)"
      by (simp_all add: p' unrun_def incomplete_def del: mset_map)
    have old: "\<not> (j, Some f) \<in># incomplete p" for j f
    proof
      assume "(j, Some f) \<in># incomplete p"
      then have "j \<in># waited (incomplete p)" by (force simp: waited_def)
      then show False using none by simp
    qed
    have "futures_ok result (s # h) True p'"
      using none old u by (auto simp: futures_ok_def PostWaitable p' simp del: mset_map)
    moreover have "log_ok result may (s # h) log p'"
      using l idle [OF w(1)] u explains_post [of result h "synced log" _ js]
      by (auto simp: log_ok_def PostWaitable p' simp del: mset_map explains.simps(2))
    ultimately show ?thesis
      using i s w PostWaitable p'
      by (intro blocking_invI [where h = "s # h" and log = log and w = True]) auto
  next
    case Wait
    then have p': "p' = p\<lparr>code := ss\<rparr>" and zero: "fst (last (futures p)) = 0"
      using step s by (auto simp: blocked_step_def split: if_splits)
    have w: "w" "paced False ss" using i(2) s Wait by simp_all
    have "futures_ok result (s # h) False p'"
      using f w zero by (auto simp: futures_ok_def Wait p' incomplete_def)
    moreover have "log_ok result may (s # h) log p'"
      using l by (auto simp: log_ok_def Wait p' unrun_def)
    ultimately show ?thesis
      using i s w Wait p'
      by (intro blocking_invI [where h = "s # h" and log = log and w = False]) auto
  next
    case UseResult
    let ?e = "Used (snd (last (futures p)))"
    have p': "p' = p\<lparr>code := ss, seen := effect ?e (seen p)\<rparr>"
      using step s UseResult by (simp add: blocked_step_def)
    have w: "\<not> w" "paced False ss" using i(2) s UseResult by simp_all
    have "futures_ok result (s # h) False p'"
      using f w by (auto simp: futures_ok_def UseResult p' incomplete_def)
    moreover have "log_ok result may (s # h) (log @ [?e]) p'"
      using l f w idle by (auto simp: log_ok_def futures_ok_def UseResult p' unrun_def)
    ultimately show ?thesis
      using i s w UseResult p'
      by (intro blocking_invI [where h = "s # h" and log = "log @ [?e]" and w = False]) auto
  next
    case Sleep
    then have p': "p' = p\<lparr>code := ss\<rparr>" using step s by (simp add: blocked_step_def)
    have "futures_ok result (s # h) w p'" "log_ok result may (s # h) log p'"
      using f l by (auto simp: futures_ok_def log_ok_def Sleep p' unrun_def incomplete_def)
    then show ?thesis
      using i s Sleep p' by (intro blocking_invI [where h = "s # h" and log = log and w = w]) auto
  qed
qed

lemma cpu_keeps:
  assumes inv: "blocking_inv effect result may prog x0 p"
    and step: "cpu_step effect result may t i p = Some p'"
  shows "blocking_inv effect result may prog x0 p'"
proof -
  obtain h log w where i: "prog = rev h @ code p" "paced w (code p)" "seen p = fold effect log x0"
    and f: "futures_ok result h w p" and l: "log_ok result may h log p"
    using inv unfolding blocking_inv_def by blast
  show ?thesis
    using step
  proof (cases rule: cpu_cases)
    case (take j fut)
    then have "futures_ok result h w p'" using f by (simp add: futures_ok_def)
    moreover have "log_ok result may h log p'"
      using l take by (auto simp: log_ok_def nth_list_update)
    ultimately show ?thesis
      using i take by (intro blocking_invI [where h = h and log = log and w = w]) auto
  next
    case (run j fut)
    let ?log = "log @ [Ran t j fut]"
    have may: "may t j" using l run by (auto simp: log_ok_def)
    have "futures_ok result h w p'" using f run by (simp add: futures_ok_def)
    moreover have "log_ok result may h ?log p'"
    proof (cases fut)
      case None
      then show ?thesis using l run may by (auto simp: log_ok_def nth_list_update)
    next
      case (Some g)
      have "explains result h (synced ?log @ ys)"
        if "mset ys = image_mset Inl (waited (unrun p'))" for ys
      proof -
        have "mset (Inl j # ys) = image_mset Inl (waited (unrun p))" using that run Some by simp
        then have "explains result h (synced log @ Inl j # ys)" using l unfolding log_ok_def by blast
        then show ?thesis using Some by simp
      qed
      then show ?thesis using l run may Some by (auto simp: log_ok_def nth_list_update)
    qed
    ultimately show ?thesis
      using i run by (intro blocking_invI [where h = h and log = ?log and w = w]) auto
  next
    case (end_ j fut)
    have "futures_ok result h w p'"
    proof (cases fut)
      case None
      then show ?thesis using f end_ by (auto simp: futures_ok_def)
    next
      case (Some g)
      then have g: "Suc g = length (futures p)" using f end_ by (auto simp: futures_ok_def)
      then have "futures p \<noteq> []" "length (futures p) - 1 = g" by auto
      then have ne: "futures p \<noteq> []" "g < length (futures p)" "last (futures p) = futures p ! g"
        using g by (auto simp: last_conv_nth)
      have fut': "futures p' = (futures p)[g := complete (result j) (futures p ! g)]"
        using end_ Some by simp
      then have new: "futures p' \<noteq> []" "last (futures p') = complete (result j) (last (futures p))"
        using g ne by (auto simp: last_list_update)
      have old: "add_mset j (waited (incomplete p')) \<subseteq># mset (last_jobs h)"
        "Suc (size (waited (incomplete p'))) = fst (last (futures p))"
        "\<And>x. last_jobs h = [x] \<Longrightarrow> snd (last (futures p)) = None"
        "\<And>j f. (j, Some f) \<in># incomplete p' \<Longrightarrow> Suc f = length (futures p)"
        using f end_ Some ne by (auto simp: futures_ok_def)
      have "waited (incomplete p') \<subseteq># mset (last_jobs h)"
        using old(1) by (meson mset_subset_eq_insertD subset_mset.less_imp_le)
      moreover have w "futures p \<noteq> []" using f end_ Some ne by (auto simp: futures_ok_def)
      moreover have "snd (last (futures p')) =
          (if waited (incomplete p') = {#} then result x else None)" if "last_jobs h = [x]" for x
        using old(1,3) that new by (auto simp: complete_def split: option.splits)
      ultimately show ?thesis
        unfolding futures_ok_def using old(2,4) new fut' by (auto simp: complete_def)
    qed
    moreover have "log_ok result may h log p'"
      using l end_ by (auto simp: log_ok_def nth_list_update)
    ultimately show ?thesis
      using i end_ by (intro blocking_invI [where h = h and log = log and w = w]) auto
  qed
qed

lemma blocking_keeps:
  "blocking_inv effect result may prog x0 p \<Longrightarrow> blocking_step effect result may a p = Some p' \<Longrightarrow>
   blocking_inv effect result may prog x0 p'"
  by (cases a) (auto intro: blocked_keeps cpu_keeps)

section \<open>Termination and progress\<close>

fun stmt_work :: "'j stmt \<Rightarrow> nat" where
  "stmt_work (Post js) = 1 + 3 * length js"
| "stmt_work (PostWaitable js) = 1 + 3 * length js"
| "stmt_work _ = 1"

fun cpu_work :: "'j cpu \<Rightarrow> nat" where
  "cpu_work Idle = 0"
| "cpu_work (Running j fut) = 2"
| "cpu_work (Ending j fut) = 1"

definition blocking_work :: "('j, 'x) blocking \<Rightarrow> nat" where
  "blocking_work p =
     sum_list (map stmt_work (code p)) + 3 * length (ready p) + sum_list (map cpu_work (crew p))"

lemma blocking_less:
  assumes "blocking_step effect result may a p = Some p'"
  shows "blocking_work p' < blocking_work p"
proof (cases a)
  case Blocked
  then show ?thesis
    using assms by (auto simp: blocked_step_def blocking_work_def split: list.splits stmt.splits if_splits)
next
  case (Cpu t i)
  then have "cpu_step effect result may t i p = Some p'" using assms by simp
  then show ?thesis
  proof (cases rule: cpu_cases)
    case (take j fut)
    then show ?thesis
      using sum_map_update [OF take(11), of cpu_work "Running j fut"] by (simp add: blocking_work_def)
  next
    case (run j fut)
    then show ?thesis
      using sum_map_update [OF run(9), of cpu_work "Ending j fut"] by (simp add: blocking_work_def)
  next
    case (end_ j fut)
    then show ?thesis
      using sum_map_update [OF end_(8), of cpu_work Idle] by (simp add: blocking_work_def)
  qed
qed

fun stmt_jobs :: "'j stmt \<Rightarrow> 'j set" where
  "stmt_jobs (Post js) = set js"
| "stmt_jobs (PostWaitable js) = set js"
| "stmt_jobs _ = {}"

definition prog_jobs :: "'j stmt list \<Rightarrow> 'j set" where
  "prog_jobs prog = \<Union> (stmt_jobs ` set prog)"

lemma history_jobs: "set (last_jobs h) \<union> set_mset (nowait_jobs h) \<subseteq> prog_jobs h"
proof -
  have "set (last_jobs h) \<subseteq> prog_jobs h"
    by (induction h rule: last_jobs.induct) (auto simp: prog_jobs_def)
  moreover have "set_mset (nowait_jobs h) \<subseteq> prog_jobs h"
    by (induction h rule: nowait_jobs.induct) (auto simp: prog_jobs_def)
  ultimately show ?thesis by blast
qed

definition blocking_live ::
    "('j occurrence \<Rightarrow> 'x \<Rightarrow> 'x) \<Rightarrow> ('j \<Rightarrow> int option) \<Rightarrow> (nat \<Rightarrow> 'j \<Rightarrow> bool) \<Rightarrow> nat \<Rightarrow> 'j stmt list \<Rightarrow> 'x \<Rightarrow>
     ('j, 'x) blocking \<Rightarrow> bool" where
  "blocking_live effect result may n prog x0 p \<longleftrightarrow>
     blocking_inv effect result may prog x0 p \<and> length (crew p) = n \<and>
     (\<forall>j\<in>prog_jobs prog. \<exists>t<n. may t j)"

definition blocking_final :: "('j, 'x) blocking \<Rightarrow> bool" where
  "blocking_final p \<longleftrightarrow> code p = [] \<and> ready p = [] \<and> (\<forall>c\<in>set (crew p). c = Idle)"

lemma blocking_live_step:
  assumes "blocking_live effect result may n prog x0 p"
    and step: "blocking_step effect result may a p = Some p'"
  shows "blocking_live effect result may n prog x0 p'"
proof -
  have "length (crew p') = length (crew p)"
  proof (cases a)
    case Blocked
    then show ?thesis
      using step by (auto simp: blocked_step_def split: list.splits stmt.splits if_splits)
  next
    case (Cpu t i)
    then have "cpu_step effect result may t i p = Some p'" using step by simp
    then show ?thesis by (cases rule: cpu_cases) simp_all
  qed
  then show ?thesis using assms blocking_keeps unfolding blocking_live_def by metis
qed

lemma waited_or_unwaited: "(j, fut) \<in># M \<Longrightarrow> j \<in># waited M \<or> j \<in># unwaited M"
  by (cases fut) (force simp: waited_def unwaited_def)+

lemma idle_crew:
  "\<forall>c\<in>set cs. c = Idle \<Longrightarrow> sum_list (map cpu_holds cs) = {#}"
  "\<forall>c\<in>set cs. c = Idle \<Longrightarrow> sum_list (map cpu_todo cs) = {#}"
  by (induction cs) auto

lemma blocking_progress:
  assumes live: "blocking_live effect result may n prog x0 p"
    and stuck: "stuck (blocking_step effect result may) p"
  shows "blocking_final p"
proof -
  obtain h log w where i: "prog = rev h @ code p" "paced w (code p)"
    and f: "futures_ok result h w p" and l: "log_ok result may h log p"
    using live unfolding blocking_live_def blocking_inv_def by blast
  have cpu: "cpu_step effect result may t i p = None" for t i
    using stuckD [OF stuck, of "Cpu t i"] by simp
  have idle: "crew p ! t = Idle" if "t < length (crew p)" for t
    using cpu [of t 0] that by (auto simp: cpu_step_def split: cpu.splits option.splits)
  have ready: "ready p = []"
  proof (rule ccontr)
    assume "ready p \<noteq> []"
    then obtain j fut rest where r: "ready p = (j, fut) # rest" by (metis list.exhaust surj_pair)
    then have "(j, fut) \<in># unrun p" by (simp add: unrun_def)
    then have "j \<in># waited (unrun p) \<or> j \<in># unwaited (unrun p)" by (rule waited_or_unwaited)
    moreover have "waited (unrun p) \<subseteq># mset (last_jobs h)"
      using f waited_mono [OF unrun_le, of p] by (auto simp: futures_ok_def)
    moreover have "unwaited (unrun p) \<subseteq># nowait_jobs h" using l by (simp add: log_ok_def)
    ultimately have "j \<in> set (last_jobs h) \<union> set_mset (nowait_jobs h)"
      by (auto dest: mset_subset_eqD)
    then have "j \<in> prog_jobs prog" using history_jobs [of h] i(1) by (auto simp: prog_jobs_def)
    then obtain t where "t < length (crew p)" "may t j" using live by (auto simp: blocking_live_def)
    then show False using cpu [of t 0] idle r by (simp add: cpu_step_def)
  qed
  have crew: "\<forall>c\<in>set (crew p). c = Idle" using idle by (auto simp: in_set_conv_nth)
  then have "sum_list (map cpu_holds (crew p)) = {#}" by (rule idle_crew)
  then have none: "waited (incomplete p) = {#}" using ready by (simp add: incomplete_def)
  have "blocked_step effect p = None" using stuckD [OF stuck, of Blocked] by simp
  then have "code p = []"
    using f none i(2) by (auto simp: blocked_step_def futures_ok_def split: list.splits stmt.splits)
  then show ?thesis using ready crew by (simp add: blocking_final_def)
qed

interpretation blocking_run: terminating_system
  "blocking_step effect result may" "blocking_live effect result may n prog x0"
  blocking_work blocking_final
  for effect result may n prog x0
  by unfold_locales (auto intro: blocking_live_step blocking_less blocking_progress)

lemma blocking_start:
  assumes "paced False prog" and "\<forall>j\<in>prog_jobs prog. \<exists>t<n. may t j"
  shows "blocking_live effect result may n prog x0 (blocking_init n prog x0)"
proof -
  let ?p = "blocking_init n prog x0"
  have u: "unrun ?p = {#}" "incomplete ?p = {#}"
    by (simp_all add: blocking_init_def unrun_def incomplete_def)
  have "futures_ok result [] False ?p" unfolding futures_ok_def u by (simp add: blocking_init_def)
  moreover have "log_ok result may [] [] ?p" unfolding log_ok_def u by (simp add: blocking_init_def)
  ultimately have "blocking_inv effect result may prog x0 ?p"
    using assms(1)
    by (intro blocking_invI [where h = "[]" and log = "[]" and w = False]) (simp_all add: blocking_init_def)
  then show ?thesis using assms(2) by (simp add: blocking_live_def blocking_init_def)
qed

lemma blocking_init_work: "blocking_work (blocking_init n prog x0) = sum_list (map stmt_work prog)"
  by (simp add: blocking_work_def blocking_init_def sum_list_replicate)

text \<open>What the locale gives for a program, written out once for the two that use it.\<close>

lemma blocking_outcome:
  assumes "blocking_live effect result may n prog x0 p"
  obtains h log where "prog = rev h @ code p" "seen p = fold effect log x0"
    "\<And>t j fut. Ran t j fut \<in> set log \<Longrightarrow> may t j \<and> t < n"
    "unsynced log \<subseteq># nowait_jobs h"
    "code p = [] \<Longrightarrow> explains result h (synced log)"
    "blocking_final p \<Longrightarrow> unsynced log = nowait_jobs h"
proof -
  obtain h log w where i: "prog = rev h @ code p" "paced w (code p)" "seen p = fold effect log x0"
    and f: "futures_ok result h w p" and l: "log_ok result may h log p"
    using assms unfolding blocking_live_def blocking_inv_def by blast
  have n: "length (crew p) = n" using assms by (simp add: blocking_live_def)
  have "explains result h (synced log)" if "code p = []"
  proof -
    have "waited (incomplete p) = {#}" using f i(2) that by (simp add: futures_ok_def)
    then have "waited (unrun p) = {#}" by (rule unrun_waited_empty)
    then have "mset [] = image_mset Inl (waited (unrun p))" by simp
    then have "explains result h (synced log @ [])" using l unfolding log_ok_def by blast
    then show ?thesis by simp
  qed
  moreover have "unsynced log = nowait_jobs h" if "blocking_final p"
  proof -
    have "sum_list (map cpu_todo (crew p)) = {#}"
      using that by (auto simp: blocking_final_def intro: idle_crew)
    then have "unrun p = {#}" using that by (simp add: unrun_def blocking_final_def)
    then show ?thesis using l by (simp add: log_ok_def)
  qed
  ultimately show ?thesis
    using i l n by (intro that [of h log]) (auto simp: log_ok_def)
qed

end
