(* ===== verification/Hybrid.thy ===== *)
theory Hybrid
  imports Blocking Format
begin

text \<open>
  The program \<open>examples/hwloc/hybrid_executor.cpp\<close>: an executor whose partitions steer work by
  priority to performance or efficiency cores, and three batches of tasks that count where they ran.
  Parameters are the machine: whether \<open>topology::query()\<close> calls it hybrid, and the kinds of the cores
  that the threads of the executor are pinned to.
\<close>

section \<open>Configuration\<close>

datatype cpu_kind = PERFORMANCE | EFFICIENCY1

text \<open>\<open>add_partition(filter, begin, end)\<close>: the kind, and the priorities its threads take.\<close>

definition partitions :: "(cpu_kind \<times> nat \<times> nat) list" where
  "partitions = [(PERFORMANCE, 0, 2), (EFFICIENCY1, 1, 3)]"

definition priority_count :: nat where
  "priority_count = 3"

text \<open>
  Which thread may run a priority: with partitions, one of a partition of its kind whose range
  holds it; without, every thread runs every priority that was configured.
\<close>

definition may_run :: "bool \<Rightarrow> cpu_kind list \<Rightarrow> nat \<Rightarrow> nat \<Rightarrow> bool" where
  "may_run hybrid kinds t prio \<longleftrightarrow>
     t < length kinds \<and>
     (if hybrid then list_ex (\<lambda>(kind, lo, hi). kinds ! t = kind \<and> lo \<le> prio \<and> prio < hi) partitions
      else prio < priority_count)"

section \<open>Tasks\<close>

text \<open>
  \<open>capture_location\<close>: \<open>output[prio][kindIdx]++\<close>, one atomic increment. The kind is the thread-local
  that the thread init hook has set, the priority the one the task was posted with.
\<close>

definition kind_index :: "cpu_kind \<Rightarrow> nat" where
  "kind_index kind = (if kind = PERFORMANCE then 0 else 1)"

definition increment :: "nat \<Rightarrow> nat \<Rightarrow> nat list list \<Rightarrow> nat list list" where
  "increment i j xss = xss[i := (xss ! i)[j := Suc (xss ! i ! j)]]"

fun capture_location :: "cpu_kind list \<Rightarrow> nat occurrence \<Rightarrow> nat list list \<Rightarrow> nat list list" where
  "capture_location kinds (Ran t prio fut) output = increment prio (kind_index (kinds ! t)) output"
| "capture_location kinds (Used v) output = output"

text \<open>\<open>iota(0u, 10000u) | transform(\<dots>)\<close>: ten thousand tasks of the priority.\<close>

definition batch :: "nat \<Rightarrow> nat list" where
  "batch prio = map (\<lambda>_. prio) [0..<10000]"

definition run_tasks :: "nat \<Rightarrow> nat stmt list" where
  "run_tasks prio = [PostWaitable (batch prio), Wait]"

definition hybrid_main :: "nat stmt list" where
  "hybrid_main = run_tasks 0 @ run_tasks 1 @ run_tasks 2"

definition no_counts :: "nat list list" where
  "no_counts = [[0, 0], [0, 0], [0, 0]]"

definition hybrid_step ::
    "bool \<Rightarrow> cpu_kind list \<Rightarrow> blocking_agent \<Rightarrow> (nat, nat list list) blocking \<Rightarrow>
     (nat, nat list list) blocking option" where
  "hybrid_step hybrid kinds = blocking_step (capture_location kinds) (\<lambda>_. None) (may_run hybrid kinds)"

definition hybrid_init :: "cpu_kind list \<Rightarrow> (nat, nat list list) blocking" where
  "hybrid_init kinds = blocking_init (length kinds) hybrid_main no_counts"

text \<open>The lines that \<open>main\<close> prints at the end.\<close>

definition hybrid_report :: "nat list list \<Rightarrow> string list" where
  "hybrid_report counts =
     [to_string (counts ! 0 ! 0) @ '' high priority tasks ran on PERFORMANCE cores'',
      to_string (counts ! 0 ! 1) @ '' high priority tasks ran on EFFICIENCY1 cores'',
      to_string (counts ! 1 ! 0) @ '' medium priority tasks ran on PERFORMANCE cores'',
      to_string (counts ! 1 ! 1) @ '' medium priority tasks ran on EFFICIENCY1 cores'',
      to_string (counts ! 2 ! 0) @ '' low priority tasks ran on PERFORMANCE cores'',
      to_string (counts ! 2 ! 1) @ '' low priority tasks ran on EFFICIENCY1 cores'']"

section \<open>The counters\<close>

lemma batch_replicate: "batch prio = replicate 10000 prio"
  by (simp add: batch_def map_replicate_const)

lemma length_batch [simp]: "length (batch prio) = 10000"
  by (simp add: batch_def)

lemma set_batch: "set (batch prio) \<subseteq> {prio}"
  by (auto simp: batch_def)

fun located :: "cpu_kind list \<Rightarrow> nat \<Rightarrow> nat \<Rightarrow> nat occurrence \<Rightarrow> bool" where
  "located kinds i j (Ran t prio fut) = (prio = i \<and> kind_index (kinds ! t) = j)"
| "located kinds i j (Used v) = False"

fun ran_at :: "nat \<Rightarrow> nat occurrence \<Rightarrow> bool" where
  "ran_at i (Ran t prio fut) = (prio = i)"
| "ran_at i (Used v) = False"

lemma kind_index_cases: "kind_index kind = 0 \<or> kind_index kind = Suc 0"
  by (simp add: kind_index_def)

lemma fold_capture:
  assumes "length out = 3" and "\<forall>i<3. length (out ! i) = 2"
    and "\<forall>t prio fut. Ran t prio fut \<in> set evs \<longrightarrow> prio < 3"
  shows "i < 3 \<Longrightarrow> j < 2 \<Longrightarrow>
    fold (capture_location kinds) evs out ! i ! j = out ! i ! j + length (filter (located kinds i j) evs)"
  using assms
proof (induction evs arbitrary: out)
  case (Cons e evs)
  show ?case
  proof (cases e)
    case (Ran t prio fut)
    let ?k = "kind_index (kinds ! t)"
    have prio: "prio < 3" using Cons.prems(5) Ran by force
    have k: "?k < 2" using kind_index_cases [of "kinds ! t"] by auto
    have "fold (capture_location kinds) evs (increment prio ?k out) ! i ! j =
        increment prio ?k out ! i ! j + length (filter (located kinds i j) evs)"
      using Cons.prems prio by (intro Cons.IH) (auto simp: increment_def nth_list_update)
    moreover have "increment prio ?k out ! i ! j = out ! i ! j + (if located kinds i j e then 1 else 0)"
      using Cons.prems(1-4) prio k Ran by (auto simp: increment_def nth_list_update)
    ultimately show ?thesis using Ran by simp
  qed (use Cons in auto)
qed simp

lemma located_row:
  "length (filter (located kinds i 0) evs) + length (filter (located kinds i (Suc 0)) evs) =
   length (filter (ran_at i) evs)"
proof (induction evs)
  case (Cons e evs)
  then show ?case using kind_index_cases by (cases e) (auto simp: kind_index_def)
qed simp

lemma located_none:
  assumes "\<And>t fut. Ran t i fut \<in> set evs \<Longrightarrow> kind_index (kinds ! t) \<noteq> j"
  shows "length (filter (located kinds i j) evs) = 0"
proof -
  have "\<not> located kinds i j e" if "e \<in> set evs" for e
    using assms that by (cases e) auto
  then show ?thesis by (simp add: filter_empty_conv)
qed

lemma ran_at_synced:
  "length (filter (ran_at i) evs) = length (filter ((=) (Inl i)) (synced evs)) + count (unsynced evs) i"
proof (induction evs)
  case (Cons e evs)
  then show ?case
  proof (cases e)
    case (Ran t prio fut)
    then show ?thesis using Cons by (cases fut) auto
  qed auto
qed simp

lemma filter_count: "length (filter ((=) x) xs) = count (mset xs) x"
  by (induction xs) auto

lemma count_batch:
  "mset (b :: (nat + int option) list) = mset (map Inl (batch prio)) \<Longrightarrow>
   count (mset b) (Inl i) = (if i = prio then 10000 else 0)"
  by (simp only: batch_replicate map_replicate mset_replicate count_replicate_mset sum.inject)

lemma hybrid_explained:
  assumes "explains (\<lambda>_. None) (rev hybrid_main) es" and "i < 3"
  shows "length (filter ((=) (Inl i)) es) = 10000"
proof -
  obtain b0 b1 b2 where es: "es = b0 @ b1 @ b2"
    and "mset b0 = mset (map Inl (batch 0))" "mset b1 = mset (map Inl (batch 1))"
      "mset b2 = mset (map Inl (batch 2))"
    using assms(1) by (auto simp: hybrid_main_def run_tasks_def simp del: mset_map)
  then show ?thesis
    using assms(2) by (simp add: filter_count es count_batch del: mset_map)
qed

section \<open>Where the tasks ran\<close>

definition good_machine :: "bool \<Rightarrow> cpu_kind list \<Rightarrow> bool" where
  "good_machine hybrid kinds \<longleftrightarrow>
     (if hybrid then PERFORMANCE \<in> set kinds \<and> EFFICIENCY1 \<in> set kinds else set kinds = {PERFORMANCE})"

lemma hybrid_jobs: "prog_jobs hybrid_main \<subseteq> {0, 1, 2}"
  using set_batch by (auto simp: prog_jobs_def hybrid_main_def run_tasks_def)

lemma hybrid_placed:
  assumes "good_machine hybrid kinds"
  shows "\<forall>j\<in>prog_jobs hybrid_main. \<exists>t<length kinds. may_run hybrid kinds t j"
proof
  fix j assume "j \<in> prog_jobs hybrid_main"
  then have j: "j < 3" using hybrid_jobs by auto
  show "\<exists>t<length kinds. may_run hybrid kinds t j"
  proof (cases hybrid)
    case True
    then have "PERFORMANCE \<in> set kinds" "EFFICIENCY1 \<in> set kinds"
      using assms by (simp_all add: good_machine_def)
    then obtain p e where "p < length kinds" "kinds ! p = PERFORMANCE" "e < length kinds"
      "kinds ! e = EFFICIENCY1"
      by (metis in_set_conv_nth)
    then have "may_run hybrid kinds (if j < 2 then p else e) j"
      and "(if j < 2 then p else e) < length kinds"
      using True j by (auto simp: may_run_def partitions_def)
    then show ?thesis by blast
  next
    case False
    then have "kinds \<noteq> []" using assms by (cases kinds) (simp_all add: good_machine_def)
    then have "0 < length kinds \<and> may_run hybrid kinds 0 j"
      using False j by (simp add: may_run_def priority_count_def)
    then show ?thesis by blast
  qed
qed

lemma hybrid_start:
  "good_machine hybrid kinds \<Longrightarrow>
   blocking_live (capture_location kinds) (\<lambda>_. None) (may_run hybrid kinds) (length kinds)
     hybrid_main no_counts (hybrid_init kinds)"
  unfolding hybrid_init_def
  by (rule blocking_start [OF _ hybrid_placed]) (simp_all add: hybrid_main_def run_tasks_def)

lemma may_run_kind:
  "may_run True kinds t 0 \<Longrightarrow> kinds ! t = PERFORMANCE"
  "may_run True kinds t 2 \<Longrightarrow> kinds ! t = EFFICIENCY1"
  by (auto simp: may_run_def partitions_def)

lemma report_digits: "to_string 0 = ''0''" "to_string 10000 = ''10000''"
proof -
  have "(char_of (48 :: nat) :: char) = CHR ''0''" "(char_of (49 :: nat) :: char) = CHR ''1''"
    by code_simp+
  then show "to_string 0 = ''0''" "to_string 10000 = ''10000''"
    by (simp_all add: to_string.simps [of 0] to_string.simps [of 1] to_string.simps [of 10]
        to_string.simps [of 100] to_string.simps [of 1000] to_string.simps [of 10000] to_string.simps [of "Suc 0"])
qed

text \<open>
  C31. \<open>examples/hwloc/hybrid_executor.cpp\<close> on a hybrid machine with executor threads of both kinds:
  at no time has a high priority task been counted on an efficiency core or a low priority task on
  a performance core; on a homogeneous machine nothing is counted under efficiency. When \<open>main\<close>
  prints, the two counters of each priority add up to 10000, wherever the medium priority tasks were
  stolen to; on a hybrid machine four of the six printed lines are the same in every run. And it
  gets there: no batch is posted that no thread may run.
\<close>

theorem hybrid_executor_locations:
  assumes "good_machine hybrid kinds"
    and "run_steps (hybrid_step hybrid kinds) ks (hybrid_init kinds) = Some p"
  shows "length ks \<le> 90006 \<and>
    (hybrid \<longrightarrow> seen p ! 0 ! 1 = 0 \<and> seen p ! 2 ! 0 = 0) \<and>
    (\<not> hybrid \<longrightarrow> (\<forall>prio<3. seen p ! prio ! 1 = 0)) \<and>
    (code p = [] \<longrightarrow> (\<forall>prio<3. seen p ! prio ! 0 + seen p ! prio ! 1 = 10000)) \<and>
    (hybrid \<and> code p = [] \<longrightarrow> (\<exists>a b. a + b = 10000 \<and> hybrid_report (seen p) =
       [''10000 high priority tasks ran on PERFORMANCE cores'',
        ''0 high priority tasks ran on EFFICIENCY1 cores'',
        to_string a @ '' medium priority tasks ran on PERFORMANCE cores'',
        to_string b @ '' medium priority tasks ran on EFFICIENCY1 cores'',
        ''0 low priority tasks ran on PERFORMANCE cores'',
        ''10000 low priority tasks ran on EFFICIENCY1 cores''])) \<and>
    (stuck (hybrid_step hybrid kinds) p \<longrightarrow> code p = [])"
proof -
  note start = hybrid_start [OF assms(1)]
  note run = assms(2) [unfolded hybrid_step_def]
  note live = blocking_run.run_inv [OF start run]
  obtain h evs where h: "hybrid_main = rev h @ code p"
    and out: "seen p = fold (capture_location kinds) evs no_counts"
    and ran: "\<And>t j fut. Ran t j fut \<in> set evs \<Longrightarrow> may_run hybrid kinds t j \<and> t < length kinds"
    and sub: "unsynced evs \<subseteq># nowait_jobs h"
    and ex: "code p = [] \<Longrightarrow> explains (\<lambda>_. None) h (synced evs)"
    using blocking_outcome [OF live] by metis
  have small: "\<forall>t prio fut. Ran t prio fut \<in> set evs \<longrightarrow> prio < 3"
    using ran by (fastforce simp: may_run_def partitions_def priority_count_def split: if_splits)
  have start_counts: "length no_counts = 3" "\<forall>i<3. length (no_counts ! i) = 2"
    "i < 3 \<Longrightarrow> j < 2 \<Longrightarrow> no_counts ! i ! j = 0" for i j
    by (auto simp: no_counts_def less_Suc_eq numeral_eq_Suc)
  have cell: "seen p ! i ! j = length (filter (located kinds i j) evs)" if "i < 3" "j < 2" for i j
    using fold_capture [OF start_counts(1,2) small that] start_counts(3) [OF that] out by simp
  have none: "seen p ! i ! j = 0"
    if "i < 3" "j < 2" "\<And>t fut. Ran t i fut \<in> set evs \<Longrightarrow> kind_index (kinds ! t) \<noteq> j" for i j
    using cell [OF that(1,2)] located_none [OF that(3)] by simp
  have steer: "seen p ! 0 ! 1 = 0 \<and> seen p ! 2 ! 0 = 0" if hybrid
  proof (intro conjI none)
    show "kind_index (kinds ! t) \<noteq> 1" if "Ran t 0 fut \<in> set evs" for t fut
      using ran [OF that] \<open>hybrid\<close> may_run_kind(1) by (simp add: kind_index_def)
    show "kind_index (kinds ! t) \<noteq> 0" if "Ran t 2 fut \<in> set evs" for t fut
      using ran [OF that] \<open>hybrid\<close> may_run_kind(2) [of kinds t] by (simp add: kind_index_def)
  qed simp_all
  have homog: "seen p ! i ! 1 = 0" if "\<not> hybrid" "i < 3" for i
  proof (intro none)
    show "kind_index (kinds ! t) \<noteq> 1" if "Ran t i fut \<in> set evs" for t fut
    proof -
      have "kinds ! t \<in> set kinds" using ran [OF that] by simp
      then show ?thesis using assms(1) \<open>\<not> hybrid\<close> by (simp add: good_machine_def kind_index_def)
    qed
  qed (use that in simp_all)
  have "nowait_jobs (rev hybrid_main) = {#}" by (simp add: hybrid_main_def run_tasks_def)
  then have "unsynced evs = {#}" using sub by (simp add: h)
  then have row: "seen p ! i ! 0 + seen p ! i ! 1 = length (filter ((=) (Inl i)) (synced evs))"
    if "i < 3" for i
    using located_row [of kinds i evs] ran_at_synced [of i evs] cell [OF that] by simp
  have whole: "seen p ! i ! 0 + seen p ! i ! 1 = 10000" if "code p = []" "i < 3" for i
  proof -
    have "h = rev hybrid_main" using h that(1) by (metis append_Nil2 rev_rev_ident)
    then have "explains (\<lambda>_. None) (rev hybrid_main) (synced evs)" using ex that(1) by simp
    then show ?thesis using row [OF that(2)] hybrid_explained that(2) by simp
  qed
  have report: "\<exists>a b. a + b = 10000 \<and> hybrid_report (seen p) =
       [''10000 high priority tasks ran on PERFORMANCE cores'',
        ''0 high priority tasks ran on EFFICIENCY1 cores'',
        to_string a @ '' medium priority tasks ran on PERFORMANCE cores'',
        to_string b @ '' medium priority tasks ran on EFFICIENCY1 cores'',
        ''0 low priority tasks ran on PERFORMANCE cores'',
        ''10000 low priority tasks ran on EFFICIENCY1 cores'']" if "hybrid" "code p = []"
    using steer [OF that(1)] whole [OF that(2), of 0] whole [OF that(2), of 1] whole [OF that(2), of 2]
    by (intro exI [of _ "seen p ! 1 ! 0"] exI [of _ "seen p ! 1 ! 1"])
       (simp add: hybrid_report_def report_digits)
  have "blocking_work (hybrid_init kinds) = 90006"
    by (simp add: hybrid_init_def blocking_init_work hybrid_main_def run_tasks_def)
  then have "length ks \<le> 90006" using blocking_run.run_bound [OF start run] by linarith
  moreover have "code p = []" if "stuck (hybrid_step hybrid kinds) p"
    using blocking_run.progress [OF live] that by (simp add: hybrid_step_def blocking_final_def)
  ultimately show ?thesis using steer homog whole report by (intro conjI impI allI) simp_all
qed

theorem hybrid_executor_locations_witness:
  "\<exists>ks p. run_steps (hybrid_step True [PERFORMANCE, EFFICIENCY1]) ks
       (hybrid_init [PERFORMANCE, EFFICIENCY1]) = Some p \<and>
     code p = [] \<and> seen p ! 0 ! 0 = 10000 \<and> seen p ! 2 ! 1 = 10000"
proof -
  have m: "good_machine True [PERFORMANCE, EFFICIENCY1]" by (simp add: good_machine_def)
  obtain ks p where run: "run_steps (hybrid_step True [PERFORMANCE, EFFICIENCY1]) ks
       (hybrid_init [PERFORMANCE, EFFICIENCY1]) = Some p"
    and "stuck (hybrid_step True [PERFORMANCE, EFFICIENCY1]) p"
    using blocking_run.reaches_stuck [OF hybrid_start [OF m]] unfolding hybrid_step_def by blast
  then have "code p = []" "seen p ! 0 ! 1 = 0" "seen p ! 2 ! 0 = 0"
    and "\<forall>prio<3. seen p ! prio ! 0 + seen p ! prio ! 1 = 10000"
    using hybrid_executor_locations [OF m run] by simp_all
  then have "code p = [] \<and> seen p ! 0 ! 0 = 10000 \<and> seen p ! 2 ! 1 = 10000"
    by (simp add: less_Suc_eq numeral_3_eq_3 numeral_2_eq_2 del: One_nat_def)
  with run show ?thesis by blast
qed

end
