(* ===== verification/Sync_Program.thy ===== *)
theory Sync_Program
  imports Blocking Format
begin

text \<open>
  The program \<open>examples/sync.cpp\<close>: the four kinds of work it posts, its \<open>wait_*\<close> and \<open>nowait_*\<close>
  functions and \<open>main\<close>, on the model of a blocking thread of theory \<open>Blocking\<close>.
\<close>

section \<open>The work items\<close>

datatype sync_job = CoroVoid nat | CoroValue nat | FuncVoid | FuncValue

text \<open>What \<open>coro_void\<close>, \<open>coro_value\<close>, \<open>func_void\<close> and \<open>func_value\<close> print and return.\<close>

fun job_line :: "sync_job \<Rightarrow> string" where
  "job_line (CoroVoid slot) = ''void coro: '' @ to_string slot"
| "job_line (CoroValue slot) = ''value coro: '' @ to_string slot"
| "job_line FuncVoid = ''void func''"
| "job_line FuncValue = ''value func''"

fun job_result :: "sync_job \<Rightarrow> int option" where
  "job_result (CoroVoid slot) = None"
| "job_result (CoroValue slot) = Some (int slot + 100)"
| "job_result FuncVoid = None"
| "job_result FuncValue = Some 200"

text \<open>The lines on standard output; \<open>fut.get()\<close> of the value futures is printed by the caller.\<close>

fun value_line :: "int option \<Rightarrow> string list" where
  "value_line (Some v) = [''got value '' @ to_string (nat v)]"
| "value_line None = []"

fun event_lines :: "sync_job occurrence \<Rightarrow> string list" where
  "event_lines (Ran t j fut) = [job_line j]"
| "event_lines (Used v) = value_line v"

definition sync_print :: "sync_job occurrence \<Rightarrow> string list \<Rightarrow> string list" where
  "sync_print e out = out @ event_lines e"

section \<open>The functions that block and those that do not\<close>

definition wait_one_coro_void :: "sync_job stmt list" where
  "wait_one_coro_void = [PostWaitable [CoroVoid 0], Wait]"

definition wait_one_func_void :: "sync_job stmt list" where
  "wait_one_func_void = [PostWaitable [FuncVoid], Wait]"

definition wait_one_coro_value :: "sync_job stmt list" where
  "wait_one_coro_value = [PostWaitable [CoroValue 0], Wait, UseResult]"

definition wait_one_func_value :: "sync_job stmt list" where
  "wait_one_func_value = [PostWaitable [FuncValue], Wait, UseResult]"

definition wait_many_coro_void :: "sync_job stmt list" where
  "wait_many_coro_void = [PostWaitable (map CoroVoid [0..<10]), Wait]"

definition wait_many_func_void :: "sync_job stmt list" where
  "wait_many_func_void = [PostWaitable (map (\<lambda>_. FuncVoid) [0..<10]), Wait]"

definition nowait_one_coro_void :: "sync_job stmt list" where
  "nowait_one_coro_void = [Post [CoroVoid 0]]"

definition nowait_one_func_void :: "sync_job stmt list" where
  "nowait_one_func_void = [Post [FuncVoid]]"

definition nowait_many_coro_void :: "sync_job stmt list" where
  "nowait_many_coro_void = [Post (map CoroVoid [0..<10])]"

definition nowait_many_func_void :: "sync_job stmt list" where
  "nowait_many_func_void = [Post (map (\<lambda>_. FuncVoid) [0..<10])]"

definition sync_main :: "sync_job stmt list" where
  "sync_main = nowait_one_coro_void @ nowait_one_func_void @ nowait_many_coro_void @
     nowait_many_func_void @ [Sleep] @ wait_one_coro_void @ wait_one_func_void @
     wait_one_coro_value @ wait_one_func_value @ wait_many_coro_void @ wait_many_func_void"

text \<open>Any thread of the executor may run any item.\<close>

definition sync_step :: "blocking_agent \<Rightarrow> (sync_job, string list) blocking \<Rightarrow> (sync_job, string list) blocking option" where
  "sync_step = blocking_step sync_print job_result (\<lambda>_ _. True)"

lemmas sync_functions =
  wait_one_coro_void_def wait_one_func_void_def wait_one_coro_value_def wait_one_func_value_def
  wait_many_coro_void_def wait_many_func_void_def nowait_one_coro_void_def nowait_one_func_void_def
  nowait_many_coro_void_def nowait_many_func_void_def

section \<open>What it prints\<close>

fun synced_lines :: "sync_job + int option \<Rightarrow> string list" where
  "synced_lines (Inl j) = [job_line j]"
| "synced_lines (Inr v) = value_line v"

lemma fold_sync_print: "fold sync_print evs out = out @ concat (map event_lines evs)"
  by (induction evs arbitrary: out) (simp_all add: sync_print_def)

lemma sync_paced: "paced False sync_main"
  by (simp add: sync_main_def sync_functions)

lemma sync_start: "0 < n \<Longrightarrow> blocking_live sync_print job_result (\<lambda>_ _. True) n sync_main []
    (blocking_init n sync_main [])"
  by (rule blocking_start [OF sync_paced]) auto

lemma replicate_of_mset:
  assumes "mset xs = mset (replicate n x)"
  shows "xs = replicate n x"
proof (rule replicate_eqI)
  show "length xs = n" using assms by (metis length_replicate size_mset)
  show "y = x" if "y \<in> set xs" for y
    using assms that by (metis in_set_replicate mset_eq_setD)
qed

lemma digits: "to_string 0 = ''0''" "to_string 100 = ''100''" "to_string 200 = ''200''"
  by code_simp+

lemma func_lines:
  "concat (map synced_lines (replicate n (Inl FuncVoid))) = replicate n ''void func''"
  by (induction n) simp_all

lemma block_lines:
  assumes "mset cs = mset (map (\<lambda>i. Inl (CoroVoid i)) is)"
  shows "mset (concat (map synced_lines cs)) = mset (map (\<lambda>i. ''void coro: '' @ to_string i) is)"
proof -
  have "mset (concat (map synced_lines cs)) = (\<Sum>e\<in>#mset cs. mset (synced_lines e))"
    by (induction cs) simp_all
  moreover have "(\<Sum>e\<in>#mset (map (\<lambda>i. Inl (CoroVoid i)) is). mset (synced_lines e)) =
      mset (map (\<lambda>i. ''void coro: '' @ to_string i) is)"
    by (induction "is") simp_all
  ultimately show ?thesis unfolding assms by simp
qed

lemma sync_explained:
  assumes "explains job_result (rev sync_main) es"
  obtains cs fs where "es = [Inl (CoroVoid 0), Inl FuncVoid, Inl (CoroValue 0), Inr (Some 100),
      Inl FuncValue, Inr (Some 200)] @ cs @ fs"
    "mset cs = mset (map (\<lambda>i. Inl (CoroVoid i)) [0..<10])" "fs = replicate 10 (Inl FuncVoid)"
proof -
  let ?cs = "map CoroVoid [0..<10]" and ?fs = "map (\<lambda>_. FuncVoid) [0..<10]"
  have "explains job_result (PostWaitable ?fs # Wait # PostWaitable ?cs # UseResult # Wait #
      PostWaitable [FuncValue] # UseResult # Wait # PostWaitable [CoroValue 0] # Wait #
      PostWaitable [FuncVoid] # Wait # PostWaitable [CoroVoid 0] # []) es"
    using assms by (simp add: sync_main_def sync_functions del: upt_Suc)
  then show ?thesis
    by (simp del: upt_Suc mset_map add: Cons_eq_append_conv comp_def)
      (auto simp: map_replicate_const simp del: upt_Suc mset_map intro!: that replicate_of_mset)
qed


text \<open>
  C32. \<open>examples/sync.cpp\<close> on any number of executor threads: it takes at most 157 steps, its blocking
  thread is never left waiting, and when \<open>main\<close> is over the lines of the blocking functions are
  in program order, those of one function never among those of another: the two values are 100
  and 200, the ten coroutines of \<open>wait_many_coro_void\<close> print 0 to 9 in some order. The lines
  of the \<open>nowait_*\<close> functions are interleaved anywhere, each at most once, and all of them appear
  if the executor keeps running; the sleep of 200 ms guarantees nothing about them.
\<close>

theorem sync_program_output:
  assumes "0 < n" and "run_steps sync_step ks (blocking_init n sync_main []) = Some p"
  shows "length ks \<le> 157 \<and> (stuck sync_step p \<longrightarrow> code p = [] \<and> ready p = []) \<and>
    (\<exists>evs. seen p = concat (map event_lines evs) \<and>
      (code p = [] \<longrightarrow>
        (\<exists>block. mset block = mset (map (\<lambda>i. ''void coro: '' @ to_string i) [0..<10]) \<and>
          concat (map synced_lines (synced evs)) =
            [''void coro: 0'', ''void func'', ''value coro: 0'', ''got value 100'', ''value func'',
             ''got value 200''] @ block @ replicate 10 ''void func'')) \<and>
      unsynced evs \<subseteq># {#CoroVoid 0, FuncVoid#} + mset (map CoroVoid [0..<10]) + replicate_mset 10 FuncVoid \<and>
      (stuck sync_step p \<longrightarrow> unsynced evs =
         {#CoroVoid 0, FuncVoid#} + mset (map CoroVoid [0..<10]) + replicate_mset 10 FuncVoid))"
proof -
  let ?nowait = "{#CoroVoid 0, FuncVoid#} + mset (map CoroVoid [0..<10]) + replicate_mset 10 FuncVoid"
  note start = sync_start [OF assms(1)]
  have run: "run_steps (blocking_step sync_print job_result (\<lambda>_ _. True)) ks
      (blocking_init n sync_main []) = Some p"
    using assms(2) by (simp add: sync_step_def)
  have work: "blocking_work (blocking_init n sync_main []) = 157"
    by (simp add: blocking_init_work sync_main_def sync_functions)
  note live = blocking_run.run_inv [OF start run]
  have fin: "blocking_final p" if "stuck sync_step p"
    using blocking_run.progress [OF live] that by (simp add: sync_step_def)
  obtain h evs where h: "sync_main = rev h @ code p" and out: "seen p = fold sync_print evs []"
    and sub: "unsynced evs \<subseteq># nowait_jobs h"
    and ex: "code p = [] \<Longrightarrow> explains job_result h (synced evs)"
    and all: "blocking_final p \<Longrightarrow> unsynced evs = nowait_jobs h"
    using blocking_outcome [OF live] by metis
  have nowait: "nowait_jobs (rev sync_main) = ?nowait"
    by (simp add: sync_main_def sync_functions image_mset_const_eq del: upt_Suc)
  have "nowait_jobs h \<subseteq># nowait_jobs (rev sync_main)"
    by (simp add: h)
  then have "unsynced evs \<subseteq># ?nowait" using sub nowait subset_mset.order_trans by metis
  moreover have "unsynced evs = ?nowait" if "stuck sync_step p"
    using all [OF fin [OF that]] fin [OF that] nowait h
    by (metis append_Nil2 blocking_final_def rev_rev_ident)
  moreover have "\<exists>block. mset block = mset (map (\<lambda>i. ''void coro: '' @ to_string i) [0..<10]) \<and>
          concat (map synced_lines (synced evs)) =
            [''void coro: 0'', ''void func'', ''value coro: 0'', ''got value 100'', ''value func'',
             ''got value 200''] @ block @ replicate 10 ''void func''" if over: "code p = []"
  proof -
    have "h = rev sync_main" using h over by (metis append_Nil2 rev_rev_ident)
    then have "explains job_result (rev sync_main) (synced evs)" using ex over by simp
    then obtain cs fs where es: "synced evs = [Inl (CoroVoid 0), Inl FuncVoid, Inl (CoroValue 0),
        Inr (Some 100), Inl FuncValue, Inr (Some 200)] @ cs @ fs"
      and cs: "mset cs = mset (map (\<lambda>i. Inl (CoroVoid i)) [0..<10])"
      and fs: "fs = replicate 10 (Inl FuncVoid)"
      by (rule sync_explained)
    have "concat (map synced_lines (synced evs)) = [''void coro: 0'', ''void func'',
        ''value coro: 0'', ''got value 100'', ''value func'', ''got value 200''] @
        concat (map synced_lines cs) @ replicate 10 ''void func''"
      by (simp add: es fs digits func_lines)
    then show ?thesis using block_lines [OF cs] by blast
  qed
  moreover have "length ks \<le> 157" using blocking_run.run_bound [OF start run] unfolding work by linarith
  ultimately show ?thesis
    using fin out by (intro conjI exI [of _ evs]) (simp_all add: fold_sync_print blocking_final_def)
qed

theorem sync_program_output_witness:
  "\<exists>ks p evs. run_steps sync_step ks (blocking_init 2 sync_main []) = Some p \<and>
     seen p = concat (map event_lines evs) \<and> code p = [] \<and>
     unsynced evs = {#CoroVoid 0, FuncVoid#} + mset (map CoroVoid [0..<10]) + replicate_mset 10 FuncVoid"
proof -
  have "0 < (2 :: nat)" by simp
  then obtain ks p where run: "run_steps sync_step ks (blocking_init 2 sync_main []) = Some p"
    and "stuck sync_step p"
    using blocking_run.reaches_stuck [OF sync_start] unfolding sync_step_def by blast
  then show ?thesis using sync_program_output [OF \<open>0 < 2\<close> run] by blast
qed

end
