(* ===== verification/Mux.thy ===== *)
theory Mux
  imports Prelude
begin

text \<open>
  The interface of \<open>tmc::mux_tuple\<close> with two awaitables and of the unbounded queue
  \<open>tmc::qu_mpsc_unbounded\<close> as one task pulls from it: library primitives, given by their operations
  and by what the library documents about them.
\<close>

section \<open>\<open>tmc::mux_tuple\<close>\<close>

text \<open>
  A slot is idle, or its awaitable is under way, or it has completed and \<open>co_await mux\<close> has not
  reported it yet. \<open>mx_complete\<close> is the completion of an awaitable. \<open>mx_await\<close> is one attempt of
  \<open>co_await mux\<close> (\<open>None\<close>: the caller suspends): it reports a completed slot, which becomes idle, or
  \<open>end()\<close> when all slots are idle.
\<close>

datatype slot = Idle | Pending | Ready

record 'm mux_ops =
  mx_make :: "'m"
  mx_fork :: "nat \<Rightarrow> 'm \<Rightarrow> 'm"
  mx_active :: "nat \<Rightarrow> 'm \<Rightarrow> bool"
  mx_pending :: "nat \<Rightarrow> 'm \<Rightarrow> bool"
  mx_complete :: "nat \<Rightarrow> 'm \<Rightarrow> 'm"
  mx_await :: "'m \<Rightarrow> (nat \<times> 'm) option"
  mx_end :: nat

definition mux_laws :: "'m mux_ops \<Rightarrow> ('m \<Rightarrow> nat \<Rightarrow> slot) \<Rightarrow> bool" where
  "mux_laws M slots \<longleftrightarrow>
     2 \<le> mx_end M \<and> slots (mx_make M) = (\<lambda>_. Idle) \<and>
     (\<forall>i m. i < 2 \<longrightarrow> slots m i = Idle \<longrightarrow> slots (mx_fork M i m) = (slots m)(i := Pending)) \<and>
     (\<forall>i m. mx_active M i m = (slots m i \<noteq> Idle)) \<and>
     (\<forall>i m. mx_pending M i m = (slots m i = Pending)) \<and>
     (\<forall>i m. i < 2 \<longrightarrow> slots m i = Pending \<longrightarrow> slots (mx_complete M i m) = (slots m)(i := Ready)) \<and>
     (\<forall>m. case mx_await M m of
            None \<Rightarrow> slots m 0 \<noteq> Ready \<and> slots m 1 \<noteq> Ready \<and> (slots m 0 = Pending \<or> slots m 1 = Pending)
          | Some (i, m') \<Rightarrow>
              i < 2 \<and> slots m i = Ready \<and> slots m' = (slots m)(i := Idle) \<or>
              i = mx_end M \<and> slots m 0 = Idle \<and> slots m 1 = Idle \<and> slots m' = slots m)"

lemma mux_make: "mux_laws M slots \<Longrightarrow> slots (mx_make M) = (\<lambda>_. Idle)"
  by (simp add: mux_laws_def)

lemma mux_end: "mux_laws M slots \<Longrightarrow> mx_end M \<noteq> 0 \<and> mx_end M \<noteq> Suc 0"
  by (auto simp: mux_laws_def)

lemma mux_fork: "mux_laws M slots \<Longrightarrow> i < 2 \<Longrightarrow> slots m i = Idle \<Longrightarrow> slots (mx_fork M i m) = (slots m)(i := Pending)"
  by (simp add: mux_laws_def)

lemma mux_active: "mux_laws M slots \<Longrightarrow> mx_active M i m = (slots m i \<noteq> Idle)"
  by (simp add: mux_laws_def)

lemma mux_pending: "mux_laws M slots \<Longrightarrow> mx_pending M i m = (slots m i = Pending)"
  by (simp add: mux_laws_def)

lemma mux_complete:
  "mux_laws M slots \<Longrightarrow> i < 2 \<Longrightarrow> slots m i = Pending \<Longrightarrow> slots (mx_complete M i m) = (slots m)(i := Ready)"
  by (simp add: mux_laws_def)

lemma mux_await_law:
  "mux_laws M slots \<Longrightarrow>
     (case mx_await M m of
        None \<Rightarrow> slots m 0 \<noteq> Ready \<and> slots m 1 \<noteq> Ready \<and> (slots m 0 = Pending \<or> slots m 1 = Pending)
      | Some (i, m') \<Rightarrow>
          i < 2 \<and> slots m i = Ready \<and> slots m' = (slots m)(i := Idle) \<or>
          i = mx_end M \<and> slots m 0 = Idle \<and> slots m 1 = Idle \<and> slots m' = slots m)"
  by (simp add: mux_laws_def)

lemma mux_await_None:
  "mux_laws M slots \<Longrightarrow> mx_await M m = None \<Longrightarrow> slots m 0 = Pending \<or> slots m 1 = Pending"
  using mux_await_law [of M slots m] by simp

text \<open>The three results of awaiting two slots.\<close>

lemma mux_await_cases:
  assumes "mux_laws M slots" and "mx_await M m = Some (i, m')"
  obtains (first) "i = 0" "slots m 0 = Ready" "slots m' = (slots m)(0 := Idle)"
    | (second) "i = 1" "slots m 1 = Ready" "slots m' = (slots m)(1 := Idle)"
    | (ended) "i = mx_end M" "slots m 0 = Idle" "slots m 1 = Idle" "slots m' = slots m"
  using mux_await_law [OF assms(1), of m] assms(2) by (auto simp: less_2_cases_iff)

section \<open>\<open>tmc::qu_mpsc_unbounded\<close>\<close>

record ('q, 'd) mpsc_ops =
  mq_make :: "'q"
  mq_post :: "'d \<Rightarrow> 'q \<Rightarrow> 'q"
  mq_pull :: "'q \<Rightarrow> ('d option \<times> 'q) option"   \<comment> \<open>\<open>None\<close>: the caller suspends\<close>
  mq_close :: "'q \<Rightarrow> 'q"

definition mpsc_laws :: "('q, 'd) mpsc_ops \<Rightarrow> ('q \<Rightarrow> 'd list) \<Rightarrow> ('q \<Rightarrow> bool) \<Rightarrow> bool" where
  "mpsc_laws Q elements shut \<longleftrightarrow>
     elements (mq_make Q) = [] \<and> \<not> shut (mq_make Q) \<and>
     (\<forall>q d. \<not> shut q \<longrightarrow> elements (mq_post Q d q) = elements q @ [d] \<and> \<not> shut (mq_post Q d q)) \<and>
     (\<forall>q. case mq_pull Q q of
            None \<Rightarrow> elements q = [] \<and> \<not> shut q
          | Some (Some d, q') \<Rightarrow> elements q = d # elements q' \<and> shut q' = shut q
          | Some (None, q') \<Rightarrow> elements q = [] \<and> shut q \<and> elements q' = [] \<and> shut q') \<and>
     (\<forall>q. elements (mq_close Q q) = elements q \<and> shut (mq_close Q q))"

lemma mpsc_make: "mpsc_laws Q elements shut \<Longrightarrow> elements (mq_make Q) = [] \<and> \<not> shut (mq_make Q)"
  by (simp add: mpsc_laws_def)

lemma mpsc_post:
  "mpsc_laws Q elements shut \<Longrightarrow> \<not> shut q \<Longrightarrow>
   elements (mq_post Q d q) = elements q @ [d] \<and> \<not> shut (mq_post Q d q)"
  by (simp add: mpsc_laws_def)

lemma mpsc_close:
  "mpsc_laws Q elements shut \<Longrightarrow> elements (mq_close Q q) = elements q \<and> shut (mq_close Q q)"
  by (simp add: mpsc_laws_def)

lemma mpsc_pull_law:
  "mpsc_laws Q elements shut \<Longrightarrow>
     (case mq_pull Q q of
        None \<Rightarrow> elements q = [] \<and> \<not> shut q
      | Some (Some d, q') \<Rightarrow> elements q = d # elements q' \<and> shut q' = shut q
      | Some (None, q') \<Rightarrow> elements q = [] \<and> shut q \<and> elements q' = [] \<and> shut q')"
  by (simp add: mpsc_laws_def)

lemma mpsc_pull_Some:
  "mpsc_laws Q elements shut \<Longrightarrow> mq_pull Q q = Some (Some d, q') \<Longrightarrow>
   elements q = d # elements q' \<and> shut q' = shut q"
  using mpsc_pull_law [of Q elements shut q] by simp

lemma mpsc_pull_Closed:
  "mpsc_laws Q elements shut \<Longrightarrow> mq_pull Q q = Some (None, q') \<Longrightarrow>
   elements q = [] \<and> shut q \<and> elements q' = [] \<and> shut q'"
  using mpsc_pull_law [of Q elements shut q] by simp

lemma mpsc_pull_None: "mpsc_laws Q elements shut \<Longrightarrow> mq_pull Q q = None \<Longrightarrow> \<not> shut q"
  using mpsc_pull_law [of Q elements shut q] by simp

section \<open>Concrete instances for closed examples\<close>

definition slot_mux :: "(slot \<times> slot) mux_ops" where
  "slot_mux = \<lparr>
     mx_make = (Idle, Idle),
     mx_fork = (\<lambda>i (a, b). if i = 0 then (Pending, b) else if i = 1 then (a, Pending) else (a, b)),
     mx_active = (\<lambda>i (a, b). i = 0 \<and> a \<noteq> Idle \<or> i = 1 \<and> b \<noteq> Idle),
     mx_pending = (\<lambda>i (a, b). i = 0 \<and> a = Pending \<or> i = 1 \<and> b = Pending),
     mx_complete = (\<lambda>i (a, b). if i = 0 then (Ready, b) else if i = 1 then (a, Ready) else (a, b)),
     mx_await = (\<lambda>(a, b). if a = Ready then Some (0, (Idle, b)) else if b = Ready then Some (1, (a, Idle))
        else if a = Pending \<or> b = Pending then None else Some (64, (a, b))),
     mx_end = 64 \<rparr>"

definition pair_slots :: "slot \<times> slot \<Rightarrow> nat \<Rightarrow> slot" where
  "pair_slots = (\<lambda>(a, b) i. if i = 0 then a else if i = 1 then b else Idle)"

lemma slot_mux_laws: "mux_laws slot_mux pair_slots"
proof -
  have "slot = Idle \<or> slot = Pending \<or> slot = Ready" for slot by (cases slot) auto
  then show ?thesis
    by (auto simp: mux_laws_def slot_mux_def pair_slots_def fun_eq_iff)
qed

definition list_mpsc :: "('d list \<times> bool, 'd) mpsc_ops" where
  "list_mpsc = \<lparr>
     mq_make = ([], False),
     mq_post = (\<lambda>d (ds, cl). (ds @ [d], cl)),
     mq_pull = (\<lambda>(ds, cl). case ds of
        [] \<Rightarrow> if cl then Some (None, (ds, cl)) else None
      | d # ds \<Rightarrow> Some (Some d, (ds, cl))),
     mq_close = (\<lambda>(ds, cl). (ds, True)) \<rparr>"

lemma list_mpsc_laws: "mpsc_laws list_mpsc fst snd"
  by (auto simp: mpsc_laws_def list_mpsc_def split: list.splits)

end
