(* ===== verification/Batch_Processor.thy ===== *)
theory Batch_Processor
  imports Mux Format
begin

text \<open>
  \<open>asio/batch_processor.cpp\<close>: a task that multiplexes a queue and a timer, and processes the elements
  in batches. When the timer expires is left to the schedule, so the facts hold for every duration.
\<close>

section \<open>The program\<close>

datatype 'd bmain = MPost "'d list" | MAwait | MReturned

text \<open>
  \<open>slot0\<close> is the result of slot 0 once its pull has completed (\<open>None\<close>: the queue is closed), and
  \<open>batches\<close> collects the arguments of \<open>process\<close>.
\<close>

record ('m, 'q, 'd) batcher =
  mux :: 'm
  source :: 'q
  slot0 :: "'d option"
  batch :: "'d list"
  batches :: "'d list list"
  timer_cancelled :: bool
  isreturned :: bool
  bmain :: "'d bmain"

text \<open>\<open>timedBatchProcessor\<close>: before its loop, and one iteration.\<close>

definition batch_start :: "'m mux_ops \<Rightarrow> ('q, 'd) mpsc_ops \<Rightarrow> 'd list \<Rightarrow> ('m, 'q, 'd) batcher" where
  "batch_start M Q ds =
     \<lparr>mux = mx_fork M 0 (mx_make M), source = mq_make Q, slot0 = None, batch = [], batches = [],
      timer_cancelled = False, isreturned = False, bmain = MPost ds\<rparr>"

definition timedBatchProcessor :: "'m mux_ops \<Rightarrow> ('m, 'q, 'd) batcher \<Rightarrow> ('m, 'q, 'd) batcher option" where
  "timedBatchProcessor M s =
     (if isreturned s then None
      else case mx_await M (mux s) of
        None \<Rightarrow> None
      | Some (idx, m) \<Rightarrow> Some (
          if idx = 0 then
            (case slot0 s of
               Some elem \<Rightarrow>
                 let m = mx_fork M 0 m
                 in if \<not> mx_active M 1 m
                    then s\<lparr>mux := mx_fork M 1 m, batch := batch s @ [elem], timer_cancelled := False\<rparr>
                    else s\<lparr>mux := m, batch := batch s @ [elem]\<rparr>
             | None \<Rightarrow> s\<lparr>mux := m, timer_cancelled := True\<rparr>)
          else if idx = 1 then s\<lparr>mux := m, batches := batches s @ [batch s], batch := []\<rparr>
          else s\<lparr>mux := m, isreturned := True\<rparr>))"

text \<open>The pull of slot 0 and the timer of slot 1 complete.\<close>

definition pull_completes ::
    "'m mux_ops \<Rightarrow> ('q, 'd) mpsc_ops \<Rightarrow> ('m, 'q, 'd) batcher \<Rightarrow> ('m, 'q, 'd) batcher option" where
  "pull_completes M Q s =
     (if mx_pending M 0 (mux s)
      then map_option (\<lambda>(r, q). s\<lparr>slot0 := r, source := q, mux := mx_complete M 0 (mux s)\<rparr>)
             (mq_pull Q (source s))
      else None)"

definition timer_fires :: "'m mux_ops \<Rightarrow> ('m, 'q, 'd) batcher \<Rightarrow> ('m, 'q, 'd) batcher option" where
  "timer_fires M s =
     (if mx_pending M 1 (mux s) then Some (s\<lparr>mux := mx_complete M 1 (mux s)\<rparr>) else None)"

definition batch_main :: "('q, 'd) mpsc_ops \<Rightarrow> ('m, 'q, 'd) batcher \<Rightarrow> ('m, 'q, 'd) batcher option" where
  "batch_main Q s =
     (case bmain s of
        MPost (d # ds) \<Rightarrow> Some (s\<lparr>source := mq_post Q d (source s), bmain := MPost ds\<rparr>)
      | MPost [] \<Rightarrow> Some (s\<lparr>source := mq_close Q (source s), bmain := MAwait\<rparr>)
      | MAwait \<Rightarrow> if isreturned s then Some (s\<lparr>bmain := MReturned\<rparr>) else None
      | MReturned \<Rightarrow> None)"

datatype batch_agent = BatchMain | Processor | PullCompletes | TimerFires

fun batch_step ::
    "'m mux_ops \<Rightarrow> ('q, 'd) mpsc_ops \<Rightarrow> batch_agent \<Rightarrow> ('m, 'q, 'd) batcher \<Rightarrow>
     ('m, 'q, 'd) batcher option" where
  "batch_step M Q BatchMain s = batch_main Q s"
| "batch_step M Q Processor s = timedBatchProcessor M s"
| "batch_step M Q PullCompletes s = pull_completes M Q s"
| "batch_step M Q TimerFires s = timer_fires M s"

section \<open>The invariant\<close>

definition unposted :: "'d bmain \<Rightarrow> 'd list" where
  "unposted b = (case b of MPost ds \<Rightarrow> ds | _ \<Rightarrow> [])"

definition in_slot :: "slot \<Rightarrow> 'd option \<Rightarrow> 'd list" where
  "in_slot st r = (case (st, r) of (Ready, Some d) \<Rightarrow> [d] | _ \<Rightarrow> [])"

fun slot_work :: "slot \<Rightarrow> 'd option \<Rightarrow> nat" where
  "slot_work Idle r = 0"
| "slot_work Pending r = 2"
| "slot_work Ready None = 1"
| "slot_work Ready (Some d) = 5"

definition batch_inv ::
    "'m mux_ops \<Rightarrow> ('m \<Rightarrow> nat \<Rightarrow> slot) \<Rightarrow> ('q, 'd) mpsc_ops \<Rightarrow> ('q \<Rightarrow> 'd list) \<Rightarrow> ('q \<Rightarrow> bool) \<Rightarrow> 'd list \<Rightarrow>
     ('m, 'q, 'd) batcher \<Rightarrow> bool" where
  "batch_inv M slots Q elements shut inputs s \<longleftrightarrow>
     mux_laws M slots \<and> mpsc_laws Q elements shut \<and>
     concat (batches s) @ batch s @ in_slot (slots (mux s) 0) (slot0 s) @ elements (source s) @
       unposted (bmain s) = inputs \<and>
     [] \<notin> set (batches s) \<and>
     (batch s = [] \<longleftrightarrow> slots (mux s) 1 = Idle) \<and>
     (shut (source s) \<longleftrightarrow> (\<forall>ds. bmain s \<noteq> MPost ds)) \<and>
     (slots (mux s) 0 = Idle \<or> slots (mux s) 0 = Ready \<and> slot0 s = None \<longrightarrow>
        shut (source s) \<and> elements (source s) = []) \<and>
     (isreturned s \<longrightarrow> slots (mux s) 0 = Idle \<and> slots (mux s) 1 = Idle) \<and>
     (bmain s = MReturned \<longrightarrow> isreturned s)"

definition batch_work :: "('m \<Rightarrow> nat \<Rightarrow> slot) \<Rightarrow> ('q \<Rightarrow> 'd list) \<Rightarrow> ('m, 'q, 'd) batcher \<Rightarrow> nat" where
  "batch_work slots elements s =
     (case bmain s of MPost ds \<Rightarrow> 5 * length ds + 2 | MAwait \<Rightarrow> 1 | MReturned \<Rightarrow> 0) +
     4 * length (elements (source s)) +
     slot_work (slots (mux s) 0) (slot0 s) + slot_work (slots (mux s) 1) (None :: unit option) +
     of_bool (\<not> isreturned s)"

lemma in_slot_simps [simp]:
  "in_slot Idle r = []" "in_slot Pending r = []" "in_slot Ready None = []" "in_slot Ready (Some d) = [d]"
  by (simp_all add: in_slot_def)

lemma unposted_simps [simp]:
  "unposted (MPost ds) = ds" "unposted MAwait = []" "unposted MReturned = []"
  by (simp_all add: unposted_def)

lemma main_keeps_batch:
  assumes inv: "batch_inv M slots Q elements shut inputs s" and step: "batch_main Q s = Some t"
  shows "batch_inv M slots Q elements shut inputs t \<and>
    batch_work slots elements t < batch_work slots elements s"
proof -
  have Q: "mpsc_laws Q elements shut" using inv by (simp add: batch_inv_def)
  have opn: "\<not> shut (source s)" if "bmain s = MPost ds" for ds
    using inv that by (auto simp: batch_inv_def)
  show ?thesis
  proof (cases "bmain s")
    case (MPost ds)
    show ?thesis
    proof (cases ds)
      case Nil
      then have "t = s\<lparr>source := mq_close Q (source s), bmain := MAwait\<rparr>"
        using step MPost by (simp add: batch_main_def)
      then show ?thesis
        using inv MPost Nil mpsc_close [OF Q, of "source s"] by (simp add: batch_inv_def batch_work_def)
    next
      case (Cons e es)
      then have "t = s\<lparr>source := mq_post Q e (source s), bmain := MPost es\<rparr>"
        using step MPost by (simp add: batch_main_def)
      then show ?thesis
        using inv MPost Cons mpsc_post [OF Q opn [OF MPost], of e]
        by (auto simp: batch_inv_def batch_work_def)
    qed
  next
    case MAwait
    then show ?thesis
      using step inv by (auto simp: batch_main_def batch_inv_def batch_work_def split: if_splits)
  qed (use step in \<open>simp add: batch_main_def\<close>)
qed

lemma pull_keeps_batch:
  assumes inv: "batch_inv M slots Q elements shut inputs s" and step: "pull_completes M Q s = Some t"
  shows "batch_inv M slots Q elements shut inputs t \<and>
    batch_work slots elements t < batch_work slots elements s"
proof -
  have M: "mux_laws M slots" and Q: "mpsc_laws Q elements shut" using inv by (simp_all add: batch_inv_def)
  obtain r q where p: "slots (mux s) 0 = Pending" and q: "mq_pull Q (source s) = Some (r, q)"
    and t: "t = s\<lparr>slot0 := r, source := q, mux := mx_complete M 0 (mux s)\<rparr>"
    using step by (auto simp: pull_completes_def mux_pending [OF M] split: if_splits)
  have m: "slots (mx_complete M 0 (mux s)) = (slots (mux s))(0 := Ready)"
    using mux_complete [OF M _ p] by simp
  show ?thesis
  proof (cases r)
    case None
    then show ?thesis
      using inv p mpsc_pull_Closed [OF Q, of "source s" q] q by (auto simp: t batch_inv_def batch_work_def m)
  next
    case (Some d)
    then show ?thesis
      using inv p mpsc_pull_Some [OF Q, of "source s" d q] q by (auto simp: t batch_inv_def batch_work_def m)
  qed
qed

lemma timer_keeps_batch:
  assumes inv: "batch_inv M slots Q elements shut inputs s" and step: "timer_fires M s = Some t"
  shows "batch_inv M slots Q elements shut inputs t \<and>
    batch_work slots elements t < batch_work slots elements s"
proof -
  have M: "mux_laws M slots" using inv by (simp add: batch_inv_def)
  have p: "slots (mux s) 1 = Pending" and t: "t = s\<lparr>mux := mx_complete M 1 (mux s)\<rparr>"
    using step by (auto simp: timer_fires_def mux_pending [OF M] split: if_splits)
  have m: "slots (mx_complete M 1 (mux s)) = (slots (mux s))(1 := Ready)"
    using mux_complete [OF M _ p] by simp
  show ?thesis using inv p by (auto simp: t batch_inv_def batch_work_def m [simplified])
qed

lemma processor_keeps_batch:
  assumes inv: "batch_inv M slots Q elements shut inputs s" and step: "timedBatchProcessor M s = Some t"
  shows "batch_inv M slots Q elements shut inputs t \<and>
    batch_work slots elements t < batch_work slots elements s"
proof -
  have M: "mux_laws M slots" using inv by (simp add: batch_inv_def)
  obtain idx m where r: "\<not> isreturned s" and a: "mx_await M (mux s) = Some (idx, m)"
    using step by (auto simp: timedBatchProcessor_def split: if_splits option.splits)
  from M a show ?thesis
  proof (cases rule: mux_await_cases)
    case first
    show ?thesis
    proof (cases "slot0 s")
      case None
      then have "t = s\<lparr>mux := m, timer_cancelled := True\<rparr>"
        using step r a first(1) by (simp add: timedBatchProcessor_def)
      then show ?thesis using inv first None by (auto simp: batch_inv_def batch_work_def)
    next
      case (Some d)
      have f0: "slots (mx_fork M 0 m) = (slots (mux s))(0 := Pending)"
        using mux_fork [OF M, of 0 m] first(3) by simp
      show ?thesis
      proof (cases "slots (mux s) 1 = Idle")
        case True
        have f1: "slots (mx_fork M 1 (mx_fork M 0 m)) = (slots (mux s))(0 := Pending, 1 := Pending)"
          using mux_fork [OF M, of 1 "mx_fork M 0 m"] f0 True by simp
        have "t = s\<lparr>mux := mx_fork M 1 (mx_fork M 0 m), batch := batch s @ [d], timer_cancelled := False\<rparr>"
          using step r a first(1) Some True f0
          by (simp add: timedBatchProcessor_def mux_active [OF M])
        then show ?thesis using inv first Some True by (auto simp: batch_inv_def batch_work_def f1 [simplified])
      next
        case False
        have "t = s\<lparr>mux := mx_fork M 0 m, batch := batch s @ [d]\<rparr>"
          using step r a first(1) Some False f0
          by (simp add: timedBatchProcessor_def mux_active [OF M])
        then show ?thesis using inv first Some False by (auto simp: batch_inv_def batch_work_def f0)
      qed
    qed
  next
    case second
    have "t = s\<lparr>mux := m, batches := batches s @ [batch s], batch := []\<rparr>"
      using step r a second(1) by (simp add: timedBatchProcessor_def)
    then show ?thesis using inv second by (auto simp: batch_inv_def batch_work_def)
  next
    case ended
    have "t = s\<lparr>mux := m, isreturned := True\<rparr>"
      using step r a ended(1) mux_end [OF M] by (simp add: timedBatchProcessor_def)
    then show ?thesis using inv ended r by (auto simp: batch_inv_def batch_work_def)
  qed
qed

lemma batch_keeps:
  assumes "batch_inv M slots Q elements shut inputs s" and "batch_step M Q a s = Some t"
  shows "batch_inv M slots Q elements shut inputs t \<and>
    batch_work slots elements t < batch_work slots elements s"
proof (cases a)
  case BatchMain
  then show ?thesis using main_keeps_batch [OF assms(1)] assms(2) by simp
next
  case Processor
  then show ?thesis using processor_keeps_batch [OF assms(1)] assms(2) by simp
next
  case PullCompletes
  then show ?thesis using pull_keeps_batch [OF assms(1)] assms(2) by simp
next
  case TimerFires
  then show ?thesis using timer_keeps_batch [OF assms(1)] assms(2) by simp
qed

lemma batch_progress:
  assumes inv: "batch_inv M slots Q elements shut inputs s" and stuck: "stuck (batch_step M Q) s"
  shows "bmain s = MReturned"
proof -
  have M: "mux_laws M slots" and Q: "mpsc_laws Q elements shut" using inv by (simp_all add: batch_inv_def)
  have main: "batch_main Q s = None" and proc: "timedBatchProcessor M s = None"
    and pull: "pull_completes M Q s = None" and timer: "timer_fires M s = None"
    using stuckD [OF stuck, of BatchMain] stuckD [OF stuck, of Processor]
      stuckD [OF stuck, of PullCompletes] stuckD [OF stuck, of TimerFires] by simp_all
  have posted: "bmain s = MReturned \<or> bmain s = MAwait \<and> \<not> isreturned s"
    using main by (auto simp: batch_main_def split: bmain.splits list.splits if_splits)
  moreover have False if "bmain s = MAwait" "\<not> isreturned s"
  proof -
    have cl: "shut (source s)" using inv that(1) by (auto simp: batch_inv_def)
    have "mx_await M (mux s) = None"
      using proc that(2) by (auto simp: timedBatchProcessor_def split: option.splits)
    from mux_await_None [OF M this] show False
    proof
      assume "slots (mux s) 0 = Pending"
      then have "mq_pull Q (source s) = None" using pull by (simp add: pull_completes_def mux_pending [OF M])
      with mpsc_pull_None [OF Q this] cl show False by simp
    next
      assume "slots (mux s) 1 = Pending"
      then show False using timer by (simp add: timer_fires_def mux_pending [OF M])
    qed
  qed
  ultimately show ?thesis by blast
qed

interpretation batcher: terminating_system "batch_step M Q" "batch_inv M slots Q elements shut inputs"
    "batch_work slots elements" "\<lambda>s. bmain s = MReturned"
  for M slots Q elements shut inputs
  by unfold_locales (use batch_keeps batch_progress in blast)+

lemma batch_start_inv:
  assumes "mux_laws M slots" and "mpsc_laws Q elements shut"
  shows "batch_inv M slots Q elements shut ds (batch_start M Q ds) \<and>
    batch_work slots elements (batch_start M Q ds) = 5 * length ds + 5"
proof -
  have "slots (mx_fork M 0 (mx_make M)) = (\<lambda>_. Idle)(0 := Pending)"
    using mux_fork [OF assms(1), of 0 "mx_make M"] mux_make [OF assms(1)] by simp
  then show ?thesis
    using mpsc_make [OF assms(2)] assms
    by (simp add: batch_inv_def batch_work_def batch_start_def)
qed

text \<open>
  C33. \<open>timedBatchProcessor\<close>, whenever its timer fires and however its completions interleave: the
  program ends after at most \<open>5 n + 5\<close> steps, and then every element has been processed exactly once, in the
  order in which it was posted; no batch is empty.
\<close>

theorem batch_processor_exactly_once:
  assumes "mux_laws M slots" and "mpsc_laws Q elements shut"
    and run: "run_steps (batch_step M Q) ks (batch_start M Q ds) = Some s"
  shows "length ks \<le> 5 * length ds + 5 \<and> [] \<notin> set (batches s) \<and>
    (\<exists>rest. concat (batches s) @ batch s @ rest = ds) \<and>
    (stuck (batch_step M Q) s \<longrightarrow> bmain s = MReturned) \<and>
    (bmain s = MReturned \<longrightarrow> isreturned s \<and> concat (batches s) = ds)"
proof -
  note start = batch_start_inv [OF assms(1,2), of ds]
  have inv: "batch_inv M slots Q elements shut ds s"
    using batcher.run_inv [OF conjunct1 [OF start] run] .
  have "length ks \<le> 5 * length ds + 5"
    using batcher.run_bound [OF conjunct1 [OF start] run] start by linarith
  moreover have "stuck (batch_step M Q) s \<longrightarrow> bmain s = MReturned"
    using batch_progress [OF inv] by blast
  moreover have "bmain s = MReturned \<longrightarrow> isreturned s \<and> concat (batches s) = ds"
    using inv by (auto simp: batch_inv_def)
  moreover have "[] \<notin> set (batches s)" "\<exists>rest. concat (batches s) @ batch s @ rest = ds"
    using inv by (auto simp: batch_inv_def)
  ultimately show ?thesis by blast
qed

text \<open>
  \<open>process\<close> prints the size of its batch: at the end there is a line for each batch, at most one for each element,
  and the sizes add up to the number of elements.
\<close>

definition process_batch :: "'d list \<Rightarrow> string" where
  "process_batch elems = ''Processed a batch of size '' @ to_string (length elems)"

lemma length_le_concat: "[] \<notin> set bs \<Longrightarrow> length bs \<le> length (concat bs)"
proof (induction bs)
  case (Cons b bs)
  then have "0 < length b" "length bs \<le> length (concat bs)" by auto
  then have "Suc (length bs) \<le> length b + length (concat bs)" by linarith
  then show ?case by simp
qed simp

lemma processed_sizes:
  assumes "batch_inv M slots Q elements shut ds s" and "bmain s = MReturned"
  shows "sum_list (map length (batches s)) = length ds \<and> length (map process_batch (batches s)) \<le> length ds \<and>
    ''Processed a batch of size 0'' \<notin> set (map process_batch (batches s))"
proof -
  have b: "concat (batches s) = ds" "[] \<notin> set (batches s)" using assms by (auto simp: batch_inv_def)
  have zero: "to_string (length b) \<noteq> ''0''" if "b \<in> set (batches s)" for b
  proof -
    have "0 < length b" using that b(2) by auto
    moreover have "to_string 0 = ''0''" by (simp add: to_string.simps [of 0] char_of_def bit_Suc_0_iff)
    ultimately show ?thesis
      using to_string_digits [THEN conjunct2, of "length b"] to_string_digits [THEN conjunct2, of 0] by force
  qed
  have "process_batch b \<noteq> ''Processed a batch of size 0''" if "b \<in> set (batches s)" for b
    using zero [OF that] by (auto simp: process_batch_def)
  then have "''Processed a batch of size 0'' \<notin> set (map process_batch (batches s))" by force
  then show ?thesis using length_le_concat [OF b(2)] b(1) by (simp add: length_concat [symmetric])
qed

text \<open>The program of the file with its three elements, and a timer that fires after the first.\<close>

definition batch_schedule :: "batch_agent list" where
  "batch_schedule = [BatchMain, PullCompletes, Processor, TimerFires, BatchMain, Processor, PullCompletes,
     Processor, BatchMain, BatchMain, PullCompletes, Processor, PullCompletes, Processor, TimerFires,
     Processor, Processor, BatchMain]"

theorem batch_processor_exactly_once_witness:
  "\<exists>s. run_steps (batch_step slot_mux list_mpsc) batch_schedule (batch_start slot_mux list_mpsc [1 :: nat, 2, 3]) = Some s \<and>
     batches s = [[1], [2, 3]] \<and> concat (batches s) = [1, 2, 3]"
proof -
  obtain s where s: "run_steps (batch_step slot_mux list_mpsc) batch_schedule
      (batch_start slot_mux list_mpsc [1 :: nat, 2, 3]) = Some s" "bmain s = MReturned" "batches s = [[1], [2, 3]]"
    by (simp add: batch_schedule_def batch_start_def batch_main_def timedBatchProcessor_def
        pull_completes_def timer_fires_def slot_mux_def list_mpsc_def Let_def)
  then show ?thesis
    using batch_processor_exactly_once [OF slot_mux_laws list_mpsc_laws s(1)] by blast
qed

end
