(* ===== verification/Timeout.thy ===== *)
theory Timeout
  imports Mux
begin

text \<open>
  Racing an operation against a timeout: \<open>asio/mux_timeout.cpp\<close> with a \<open>mux_tuple\<close>. What the program logs, and the
  copy of its logging function in \<open>asio/select.cpp\<close>, which is the subject of the theory \<open>Select\<close>.
\<close>

section \<open>The log\<close>

text \<open>The printed lines without their time stamps. \<open>Exit 1\<close> stands for the call of \<open>exit(1)\<close>.\<close>

datatype event = Completed | Canceled | Unexpected int | TimeoutOccurred | CancellationSignaled |
  TimedOut | Blank | Exit nat

text \<open>\<open>log_error_code\<close>; the value of \<open>asio::error::operation_aborted\<close> belongs to the platform.\<close>

definition log_error_code :: "int \<Rightarrow> int \<Rightarrow> event list" where
  "log_error_code aborted ec =
     (if ec = 0 then [Completed] else if ec = aborted then [Canceled] else [Unexpected ec])"

definition select_log_error_code :: "int \<Rightarrow> int \<Rightarrow> event list" where
  "select_log_error_code aborted ec =
     (if ec = 0 then [Completed] else if ec = aborted then [Canceled] else [Unexpected ec])"

section \<open>\<open>mux_timeout.cpp\<close>\<close>

record 'm race =
  rmux :: 'm
  ec :: int
  cancelled :: bool       \<comment> \<open>\<open>mainOperationHandle.cancel()\<close> has been called\<close>
  iteration :: nat        \<comment> \<open>the \<open>i\<close> of the loop; 3 when the program has returned\<close>
  event_log :: "event list"

definition race_begin :: "'m mux_ops \<Rightarrow> nat \<Rightarrow> event list \<Rightarrow> 'm race" where
  "race_begin M i es =
     \<lparr>rmux = mx_fork M 1 (mx_fork M 0 (mx_make M)), ec = 0, cancelled = False, iteration = i,
      event_log = es\<rparr>"

definition race_main :: "'m mux_ops \<Rightarrow> int \<Rightarrow> 'm race \<Rightarrow> 'm race option" where
  "race_main M aborted s =
     (if iteration s < 3 then
        (case mx_await M (rmux s) of
           None \<Rightarrow> None
         | Some (readyIdx, m) \<Rightarrow> Some (
             if readyIdx = mx_end M then race_begin M (iteration s + 1) (event_log s @ [Blank])
             else if readyIdx = 0 then
               s\<lparr>rmux := m, event_log := event_log s @ log_error_code aborted (ec s)\<rparr>
             else if readyIdx = 1 then
               s\<lparr>rmux := m, event_log := event_log s @ [TimeoutOccurred, CancellationSignaled],
                 cancelled := True\<rparr>
             else s\<lparr>rmux := m, event_log := event_log s @ [Exit 1], iteration := 3\<rparr>))
      else None)"

text \<open>
  The operations complete when the schedule says so. A wait on a timer ends with success, or, once
  it has been cancelled, possibly with \<open>operation_aborted\<close>.
\<close>

datatype race_agent = RaceMain | MainOperation bool | TimeoutTask

fun race_step :: "'m mux_ops \<Rightarrow> int \<Rightarrow> race_agent \<Rightarrow> 'm race \<Rightarrow> 'm race option" where
  "race_step M aborted RaceMain s = race_main M aborted s"
| "race_step M aborted (MainOperation abort) s =
     (if iteration s < 3 \<and> mx_pending M 0 (rmux s) \<and> (abort \<longrightarrow> cancelled s)
      then Some (s\<lparr>ec := if abort then aborted else 0, rmux := mx_complete M 0 (rmux s)\<rparr>) else None)"
| "race_step M aborted TimeoutTask s =
     (if iteration s < 3 \<and> mx_pending M 1 (rmux s)
      then Some (s\<lparr>rmux := mx_complete M 1 (rmux s)\<rparr>) else None)"

subsection \<open>What one iteration logs\<close>

text \<open>The complete logs of an iteration, and what has been logged given the states of the slots.\<close>

definition outcomes :: "event list set" where
  "outcomes = {[Completed, TimeoutOccurred, CancellationSignaled],
     [TimeoutOccurred, CancellationSignaled, Completed], [TimeoutOccurred, CancellationSignaled, Canceled]}"

definition logged :: "slot \<Rightarrow> slot \<Rightarrow> event list \<Rightarrow> bool" where
  "logged a b es =
     (if a = Idle \<and> b = Idle then es \<in> outcomes
      else if a = Idle then es = [Completed]
      else if b = Idle then es = [TimeoutOccurred, CancellationSignaled]
      else es = [])"

definition race_logged :: "nat \<Rightarrow> slot \<Rightarrow> slot \<Rightarrow> event list \<Rightarrow> bool" where
  "race_logged n a b l \<longleftrightarrow> (\<exists>rs es. length rs = n \<and> set rs \<subseteq> outcomes \<and>
     l = concat (map (\<lambda>r. r @ [Blank]) rs) @ es \<and> logged a b es)"

lemma logged_ready: "logged Ready b = logged Pending b" "logged a Ready = logged a Pending"
  by (auto simp: logged_def fun_eq_iff)

lemma race_logged_ready:
  "race_logged n Ready b l = race_logged n Pending b l" "race_logged n a Ready l = race_logged n a Pending l"
  by (simp_all add: race_logged_def logged_ready)

lemma race_logged_snoc:
  assumes "race_logged n a b l" and "\<And>es. logged a b es \<Longrightarrow> logged a' b' (es @ x)"
  shows "race_logged n a' b' (l @ x)"
proof -
  obtain rs es where "length rs = n" "set rs \<subseteq> outcomes"
      "l = concat (map (\<lambda>r. r @ [Blank]) rs) @ es" "logged a b es"
    using assms(1) by (auto simp: race_logged_def)
  then have "length rs = n \<and> set rs \<subseteq> outcomes \<and>
      l @ x = concat (map (\<lambda>r. r @ [Blank]) rs) @ (es @ x) \<and> logged a' b' (es @ x)"
    using assms(2) by simp
  then show ?thesis unfolding race_logged_def by blast
qed

lemma race_logged_first:
  "race_logged n Ready b l \<Longrightarrow> e = Completed \<or> e = Canceled \<and> b = Idle \<Longrightarrow> race_logged n Idle b (l @ [e])"
  by (erule race_logged_snoc) (auto simp: logged_def outcomes_def split: if_splits)

lemma race_logged_second:
  "race_logged n a Ready l \<Longrightarrow> race_logged n a Idle (l @ [TimeoutOccurred, CancellationSignaled])"
  by (erule race_logged_snoc) (auto simp: logged_def outcomes_def split: if_splits)

lemma race_logged_end: "race_logged n Idle Idle l \<Longrightarrow> race_logged (Suc n) Pending Pending (l @ [Blank])"
proof -
  assume "race_logged n Idle Idle l"
  then obtain rs es where "length rs = n" "set rs \<subseteq> outcomes"
      "l = concat (map (\<lambda>r. r @ [Blank]) rs) @ es" "es \<in> outcomes"
    by (auto simp: race_logged_def logged_def)
  then have "length (rs @ [es]) = Suc n \<and> set (rs @ [es]) \<subseteq> outcomes \<and>
      l @ [Blank] = concat (map (\<lambda>r. r @ [Blank]) (rs @ [es])) @ [] \<and> logged Pending Pending []"
    by (simp add: logged_def)
  then show ?thesis unfolding race_logged_def by blast
qed

definition race_inv :: "'m mux_ops \<Rightarrow> ('m \<Rightarrow> nat \<Rightarrow> slot) \<Rightarrow> int \<Rightarrow> 'm race \<Rightarrow> bool" where
  "race_inv M slots aborted s \<longleftrightarrow>
     mux_laws M slots \<and> aborted \<noteq> 0 \<and> iteration s \<le> 3 \<and>
     (cancelled s \<longleftrightarrow> slots (rmux s) 1 = Idle) \<and>
     (iteration s = 3 \<longrightarrow> slots (rmux s) 0 = Pending \<and> slots (rmux s) 1 = Pending) \<and>
     (slots (rmux s) 0 = Ready \<longrightarrow> ec s = 0 \<or> ec s = aborted \<and> cancelled s) \<and>
     race_logged (iteration s) (slots (rmux s) 0) (slots (rmux s) 1) (event_log s)"

definition race_work :: "('m \<Rightarrow> nat \<Rightarrow> slot) \<Rightarrow> 'm race \<Rightarrow> nat" where
  "race_work slots s =
     5 * (3 - iteration s) + (if iteration s < 3 then
       (case slots (rmux s) 0 of Idle \<Rightarrow> 0 | Ready \<Rightarrow> 1 | Pending \<Rightarrow> 2) +
       (case slots (rmux s) 1 of Idle \<Rightarrow> 0 | Ready \<Rightarrow> 1 | Pending \<Rightarrow> 2) else 0)"

lemma race_begin_slots:
  assumes "mux_laws M slots"
  shows "slots (rmux (race_begin M i es)) = (\<lambda>_. Idle)(0 := Pending, 1 := Pending)"
proof -
  have "slots (mx_fork M 0 (mx_make M)) = (\<lambda>_. Idle)(0 := Pending)"
    using mux_fork [OF assms, of 0 "mx_make M"] mux_make [OF assms] by simp
  then show ?thesis
    using mux_fork [OF assms, of 1 "mx_fork M 0 (mx_make M)"] by (simp add: race_begin_def)
qed

lemma race_main_keeps:
  assumes inv: "race_inv M slots aborted s" and step: "race_main M aborted s = Some t"
  shows "race_inv M slots aborted t \<and> race_work slots t < race_work slots s"
proof -
  have M: "mux_laws M slots" using inv by (simp add: race_inv_def)
  have l: "race_logged (iteration s) (slots (rmux s) 0) (slots (rmux s) 1) (event_log s)"
    using inv by (simp add: race_inv_def)
  obtain idx m where i: "iteration s < 3" and a: "mx_await M (rmux s) = Some (idx, m)"
    using step by (auto simp: race_main_def split: if_splits option.splits)
  from M a show ?thesis
  proof (cases rule: mux_await_cases)
    case first
    have t: "t = s\<lparr>rmux := m, event_log := event_log s @ log_error_code aborted (ec s)\<rparr>"
      using step i a first(1) mux_end [OF M] by (simp add: race_main_def)
    obtain e where e: "log_error_code aborted (ec s) = [e]" "e = Completed \<or> e = Canceled \<and> slots (rmux s) 1 = Idle"
      using inv first(2) by (auto simp: race_inv_def log_error_code_def)
    show ?thesis
      using inv i first race_logged_first [OF _ e(2)] l e(1)
      by (auto simp: race_inv_def race_work_def t)
  next
    case second
    have t: "t = s\<lparr>rmux := m, event_log := event_log s @ [TimeoutOccurred, CancellationSignaled],
        cancelled := True\<rparr>"
      using step i a second(1) mux_end [OF M] by (simp add: race_main_def)
    show ?thesis
      using inv i second race_logged_second l by (auto simp: race_inv_def race_work_def t)
  next
    case ended
    have t: "t = race_begin M (iteration s + 1) (event_log s @ [Blank])"
      using step i a ended(1) by (simp add: race_main_def)
    have "race_logged (Suc (iteration s)) Pending Pending (event_log s @ [Blank])"
      using l ended race_logged_end by simp
    moreover have "iteration t = Suc (iteration s)" "\<not> cancelled t" "event_log t = event_log s @ [Blank]"
      by (simp_all add: t race_begin_def)
    ultimately show ?thesis
      using inv i race_begin_slots [OF M] ended
      by (auto simp: race_inv_def race_work_def t Suc_diff_Suc numeral_3_eq_3 less_Suc_eq)
  qed
qed

lemma race_keeps:
  assumes inv: "race_inv M slots aborted s" and step: "race_step M aborted a s = Some t"
  shows "race_inv M slots aborted t \<and> race_work slots t < race_work slots s"
proof (cases a)
  case RaceMain
  then show ?thesis using race_main_keeps [OF inv] step by simp
next
  case (MainOperation abort)
  have M: "mux_laws M slots" using inv by (simp add: race_inv_def)
  have i: "iteration s < 3" "slots (rmux s) 0 = Pending" "abort \<longrightarrow> cancelled s"
    and t: "t = s\<lparr>ec := if abort then aborted else 0, rmux := mx_complete M 0 (rmux s)\<rparr>"
    using step by (auto simp: MainOperation mux_pending [OF M] split: if_splits)
  have m: "slots (mx_complete M 0 (rmux s)) = (slots (rmux s))(0 := Ready)"
    using mux_complete [OF M _ i(2)] by simp
  show ?thesis using inv i by (auto simp: race_inv_def race_work_def t m race_logged_ready)
next
  case TimeoutTask
  have M: "mux_laws M slots" using inv by (simp add: race_inv_def)
  have i: "iteration s < 3" "slots (rmux s) 1 = Pending"
    and t: "t = s\<lparr>rmux := mx_complete M 1 (rmux s)\<rparr>"
    using step by (auto simp: TimeoutTask mux_pending [OF M] split: if_splits)
  have m: "slots (mx_complete M 1 (rmux s)) = (slots (rmux s))(1 := Ready)"
    using mux_complete [OF M _ i(2)] by simp
  show ?thesis using inv i by (auto simp: race_inv_def race_work_def t m [simplified] race_logged_ready)
qed

lemma race_progress:
  assumes inv: "race_inv M slots aborted s" and stuck: "stuck (race_step M aborted) s"
  shows "iteration s = 3"
proof (rule ccontr)
  assume "iteration s \<noteq> 3"
  then have i: "iteration s < 3" using inv by (simp add: race_inv_def)
  have M: "mux_laws M slots" using inv by (simp add: race_inv_def)
  have "mx_await M (rmux s) = None"
    using stuckD [OF stuck, of RaceMain] i by (auto simp: race_main_def split: option.splits)
  from mux_await_None [OF M this] show False
    using stuckD [OF stuck, of "MainOperation False"] stuckD [OF stuck, of TimeoutTask] i
    by (auto simp: mux_pending [OF M])
qed

interpretation race: terminating_system "race_step M aborted" "race_inv M slots aborted"
    "race_work slots" "\<lambda>s. iteration s = 3"
  for M slots aborted
  by unfold_locales (use race_keeps race_progress in blast)+

text \<open>
  C34. \<open>mux_timeout.cpp\<close>, in whatever order its operations complete: each of the three iterations reports
  both operations once, in one of three orders; a cancellation is only reported after it was signalled;
  the default branch and the unexpected error are never reached. The program always ends, within 19
  steps.
\<close>

theorem mux_timeout_outcomes:
  assumes "mux_laws M slots" and "aborted \<noteq> 0"
    and run: "run_steps (race_step M aborted) ks (race_begin M 0 []) = Some s"
  shows "length ks \<le> 19 \<and> (stuck (race_step M aborted) s \<longrightarrow> iteration s = 3) \<and>
    (iteration s = 3 \<longrightarrow> (\<exists>a b c. {a, b, c} \<subseteq> outcomes \<and>
       event_log s = a @ [Blank] @ b @ [Blank] @ c @ [Blank])) \<and>
    (\<forall>e\<in>set (event_log s). e \<noteq> Exit 1 \<and> (\<forall>x. e \<noteq> Unexpected x))"
proof -
  have logged: "race_logged 0 Pending Pending []"
    by (simp add: race_logged_def logged_def)
  have start: "race_inv M slots aborted (race_begin M 0 [])" "race_work slots (race_begin M 0 []) = 19"
    using assms(1,2) race_begin_slots [OF assms(1), of 0 "[]"] logged
    by (simp_all add: race_inv_def race_work_def) (simp_all add: race_begin_def)
  have inv: "race_inv M slots aborted s" using race.run_inv [OF start(1) run] .
  then obtain rs es where rs: "length rs = iteration s" "set rs \<subseteq> outcomes"
      "event_log s = concat (map (\<lambda>r. r @ [Blank]) rs) @ es"
      "logged (slots (rmux s) 0) (slots (rmux s) 1) es"
    by (auto simp: race_inv_def race_logged_def)
  have "length ks \<le> 19" using race.run_bound [OF start(1) run] start(2) by linarith
  moreover have "stuck (race_step M aborted) s \<longrightarrow> iteration s = 3" using race_progress [OF inv] by blast
  moreover have "\<exists>a b c. {a, b, c} \<subseteq> outcomes \<and> event_log s = a @ [Blank] @ b @ [Blank] @ c @ [Blank]"
    if three: "iteration s = 3"
  proof -
    obtain a b c where "rs = [a, b, c]"
      using trans [OF rs(1) three] by (auto simp: length_Suc_conv numeral_3_eq_3)
    moreover have "es = []" using rs(4) inv three by (simp add: race_inv_def logged_def)
    ultimately show ?thesis using rs(2,3) by auto
  qed
  moreover have "e \<noteq> Exit 1 \<and> (\<forall>x. e \<noteq> Unexpected x)" if "e \<in> set (event_log s)" for e
  proof -
    have "e \<noteq> Exit 1 \<and> (\<forall>x. e \<noteq> Unexpected x)" if "e \<in> set r" "r \<in> outcomes" for r
      using that by (auto simp: outcomes_def)
    moreover have "e \<noteq> Exit 1 \<and> (\<forall>x. e \<noteq> Unexpected x)" if "e \<in> set es"
      using that rs(4) by (auto simp: logged_def outcomes_def split: if_splits)
    moreover have "e = Blank \<or> e \<in> set es \<or> (\<exists>r\<in>outcomes. e \<in> set r)"
    proof -
      have "e \<in> set es \<or> (\<exists>r\<in>set rs. e \<in> set (r @ [Blank]))" using that by (auto simp: rs(3) split: if_splits)
      then show ?thesis using rs(2) by auto
    qed
    ultimately show ?thesis by blast
  qed
  ultimately show ?thesis by blast
qed

definition race_schedule :: "race_agent list" where
  "race_schedule = [MainOperation False, RaceMain, TimeoutTask, RaceMain, RaceMain] @
     concat (replicate 2 [TimeoutTask, RaceMain, MainOperation True, RaceMain, RaceMain])"

theorem mux_timeout_outcomes_witness:
  "\<exists>s a b c. run_steps (race_step slot_mux 125) race_schedule (race_begin slot_mux 0 []) = Some s \<and>
     event_log s = a @ [Blank] @ b @ [Blank] @ c @ [Blank] \<and> {a, b, c} \<subseteq> outcomes \<and>
     length (event_log s) = 12 \<and> (\<forall>e\<in>set (event_log s). e \<noteq> Exit 1)"
proof -
  obtain s where s: "run_steps (race_step slot_mux 125) race_schedule (race_begin slot_mux 0 []) = Some s"
      "iteration s = 3" "length (event_log s) = 12"
    by (simp add: race_schedule_def numeral_2_eq_2 race_main_def race_begin_def slot_mux_def
        log_error_code_def)
  have "(125 :: int) \<noteq> 0" by simp
  from mux_timeout_outcomes [OF slot_mux_laws this s(1)] show ?thesis using s by blast
qed

end
