(* ===== verification/Select.thy ===== *)
theory Select
  imports Timeout
begin

text \<open>
  \<open>asio/select.cpp\<close>: an operation and its timeout, both timers, awaited with \<open>tmc::select\<close>, three times. Real
  timers fire late and real threads take time, so which of the two wins depends on more than their durations.
\<close>

section \<open>\<open>tmc::select\<close>\<close>

text \<open>
  What the program relies on, of two operations: \<open>select\<close> takes the result of whichever one completes first and
  cancels the other; it resumes its caller when both have completed. \<open>hist\<close> are the completions in their order.
\<close>

record 's select_ops =
  sl_make :: 's
  sl_complete :: "nat \<Rightarrow> 's \<Rightarrow> 's \<times> bool"    \<comment> \<open>\<open>True\<close>: cancel the other operation\<close>
  sl_result :: "'s \<Rightarrow> nat option"            \<comment> \<open>the index of the result; \<open>None\<close>: the caller stays suspended\<close>

definition select_laws :: "'s select_ops \<Rightarrow> ('s \<Rightarrow> nat list) \<Rightarrow> bool" where
  "select_laws S hist \<longleftrightarrow> hist (sl_make S) = [] \<and>
     (\<forall>i x. i < 2 \<and> i \<notin> set (hist x) \<longrightarrow>
        (case sl_complete S i x of (y, cancel) \<Rightarrow> hist y = hist x @ [i] \<and> cancel = (hist x = []))) \<and>
     (\<forall>x. sl_result S x = (if length (hist x) = 2 then Some (hd (hist x)) else None))"

lemma select_make: "select_laws S hist \<Longrightarrow> hist (sl_make S) = []"
  by (simp add: select_laws_def)

lemma select_complete:
  "select_laws S hist \<Longrightarrow> sl_complete S i x = (y, cancel) \<Longrightarrow> i < 2 \<Longrightarrow> i \<notin> set (hist x) \<Longrightarrow>
   hist y = hist x @ [i] \<and> cancel = (hist x = [])"
  unfolding select_laws_def by fastforce

lemma select_result:
  "select_laws S hist \<Longrightarrow> sl_result S x = (if length (hist x) = 2 then Some (hd (hist x)) else None)"
  unfolding select_laws_def by blast

definition list_select :: "nat list select_ops" where
  "list_select = \<lparr>sl_make = [], sl_complete = (\<lambda>i x. (x @ [i], x = [])),
     sl_result = (\<lambda>x. if length x = 2 then Some (hd x) else None)\<rparr>"

lemma list_select_laws: "select_laws list_select (\<lambda>x. x)"
  by (simp add: select_laws_def list_select_def)

section \<open>The program\<close>

text \<open>\<open>std::array\<close> fills the elements without an initialiser with zero. Times are in milliseconds.\<close>

definition array_of :: "nat \<Rightarrow> nat list \<Rightarrow> nat list" where
  "array_of n inits = take n (inits @ replicate n 0)"

definition mainOpDurations :: "nat list" where
  "mainOpDurations = array_of 3 [50, 150]"

definition timeoutDuration :: nat where
  "timeoutDuration = 100"

text \<open>
  The statements of an iteration, each with the clock going on in between: the constructors of the two timers set
  their expiries, \<open>tmc::select\<close> starts both waits, and its result is looked at. Timer 0 is \<open>mainOperation\<close>,
  timer 1 is \<open>timeout\<close>.
\<close>

datatype spc = SMain | STimeout | SSelect | SResult | SReturned

record 's selecting =
  spc :: spc
  todo :: "nat list"             \<comment> \<open>the durations from that of this iteration on\<close>
  clock :: nat
  expiry :: "nat \<Rightarrow> nat"
  waiting :: "nat \<Rightarrow> bool"
  stopped :: "nat \<Rightarrow> bool"        \<comment> \<open>\<open>cancel()\<close> has been called on the timer\<close>
  ecs :: "nat \<Rightarrow> int"             \<comment> \<open>what the waits completed with\<close>
  sel :: 's
  select_log :: "event list"
  since :: nat                   \<comment> \<open>when the coroutine was last resumed or made a step\<close>
  ripe :: "nat \<Rightarrow> nat"            \<comment> \<open>from when on a wait can complete\<close>

definition select_start :: "'s select_ops \<Rightarrow> 's selecting" where
  "select_start S =
     \<lparr>spc = SMain, todo = mainOpDurations, clock = 0, expiry = (\<lambda>_. 0), waiting = (\<lambda>_. False),
      stopped = (\<lambda>_. False), ecs = (\<lambda>_. 0), sel = sl_make S, select_log = [], since = 0, ripe = (\<lambda>_. 0)\<rparr>"

definition select_main :: "'s select_ops \<Rightarrow> int \<Rightarrow> 's selecting \<Rightarrow> 's selecting option" where
  "select_main S aborted s =
     (case spc s of
        SMain \<Rightarrow>
          (case todo s of
             [] \<Rightarrow> Some (s\<lparr>spc := SReturned\<rparr>)
           | mainOpDuration # _ \<Rightarrow>
               Some (s\<lparr>spc := STimeout, expiry := (expiry s)(0 := clock s + mainOpDuration), since := clock s\<rparr>))
      | STimeout \<Rightarrow>
          Some (s\<lparr>spc := SSelect, expiry := (expiry s)(1 := clock s + timeoutDuration), since := clock s\<rparr>)
      | SSelect \<Rightarrow>
          Some (s\<lparr>spc := SResult, waiting := (\<lambda>i. i < 2), stopped := (\<lambda>_. False), sel := sl_make S,
                  since := clock s, ripe := (\<lambda>i. max (expiry s i) (clock s))\<rparr>)
      | SResult \<Rightarrow>
          (case sl_result S (sel s) of
             None \<Rightarrow> None
           | Some i \<Rightarrow> Some (
               if i = 0 then s\<lparr>spc := SMain, todo := tl (todo s), since := clock s,
                 select_log := select_log s @ select_log_error_code aborted (ecs s 0) @ [Blank]\<rparr>
               else if i = 1 then s\<lparr>spc := SMain, todo := tl (todo s), since := clock s,
                 select_log := select_log s @ [TimedOut, Blank]\<rparr>
               else s\<lparr>spc := SReturned, select_log := select_log s @ [Exit 1]\<rparr>))
      | SReturned \<Rightarrow> None)"

text \<open>
  A wait completes with success from its expiry on, or with \<open>operation_aborted\<close> once its timer has been cancelled;
  one that has expired before the cancellation may still complete with success.
\<close>

definition cancel_timer :: "nat \<Rightarrow> 's selecting \<Rightarrow> 's selecting" where
  "cancel_timer j s =
     (if waiting s j then s\<lparr>stopped := (stopped s)(j := True), ripe := (ripe s)(j := min (ripe s j) (clock s))\<rparr>
      else s)"

definition wait_completes :: "'s select_ops \<Rightarrow> int \<Rightarrow> nat \<Rightarrow> bool \<Rightarrow> 's selecting \<Rightarrow> 's selecting option" where
  "wait_completes S aborted i abort s =
     (if spc s = SResult \<and> i < 2 \<and> waiting s i \<and> (if abort then stopped s i else expiry s i \<le> clock s)
      then (case sl_complete S i (sel s) of
              (x, cancel) \<Rightarrow>
                let s' = s\<lparr>waiting := (waiting s)(i := False), ecs := (ecs s)(i := if abort then aborted else 0),
                           sel := x, since := clock s\<rparr>
                in Some (if cancel then cancel_timer (1 - i) s' else s'))
      else None)"

text \<open>
  The clock goes on while nothing is overdue: a coroutine that can run, and a wait that can complete, does so
  before the latency \<open>L\<close> of the machine has passed.
\<close>

definition deadlines :: "'s select_ops \<Rightarrow> 's selecting \<Rightarrow> nat list" where
  "deadlines S s =
     (if spc s \<noteq> SResult \<or> sl_result S (sel s) \<noteq> None then [since s]
      else map (ripe s) (filter (waiting s) [0, 1]))"

definition tick :: "'s select_ops \<Rightarrow> nat \<Rightarrow> 's selecting \<Rightarrow> 's selecting option" where
  "tick S L s =
     (if spc s \<noteq> SReturned \<and> list_all (\<lambda>d. clock s < d + L) (deadlines S s) then Some (s\<lparr>clock := clock s + 1\<rparr>)
      else None)"

datatype select_agent = SelectMain | Fires nat bool | Tick

fun select_step :: "'s select_ops \<Rightarrow> nat \<Rightarrow> int \<Rightarrow> select_agent \<Rightarrow> 's selecting \<Rightarrow> 's selecting option" where
  "select_step S L aborted SelectMain s = select_main S aborted s"
| "select_step S L aborted (Fires i abort) s = wait_completes S aborted i abort s"
| "select_step S L aborted Tick s = tick S L s"

section \<open>The invariant\<close>

text \<open>When an iteration of duration \<open>d\<close> has set its timers to \<open>x0\<close> and \<open>x1\<close>, and has got to \<open>c\<close> since.\<close>

definition timers_set :: "nat \<Rightarrow> nat \<Rightarrow> nat \<Rightarrow> nat \<Rightarrow> nat \<Rightarrow> bool" where
  "timers_set L d x0 x1 c \<longleftrightarrow> x0 + 100 \<le> x1 + d \<and> x1 + d \<le> x0 + 100 + L \<and> x1 \<le> c + 100 \<and> c + 100 \<le> x1 + L"

definition winner :: "nat \<Rightarrow> nat" where
  "winner d = (if d < 100 then 0 else 1)"

definition verdict :: "nat \<Rightarrow> event" where
  "verdict w = (if w = 0 then Completed else TimedOut)"

text \<open>The durations of the program are far enough from that of the timeout.\<close>

definition clear_cut :: "nat \<Rightarrow> bool" where
  "clear_cut d \<longleftrightarrow> d \<le> 50 \<or> d = 150"

fun select_phase :: "nat \<Rightarrow> ('s \<Rightarrow> nat list) \<Rightarrow> spc \<Rightarrow> 's selecting \<Rightarrow> bool" where
  "select_phase L hist SMain s = (since s \<le> clock s \<and> clock s \<le> since s + L)"
| "select_phase L hist STimeout s = (since s \<le> clock s \<and> clock s \<le> since s + L \<and> todo s \<noteq> [] \<and>
     expiry s 0 = since s + hd (todo s))"
| "select_phase L hist SSelect s = (since s \<le> clock s \<and> clock s \<le> since s + L \<and> todo s \<noteq> [] \<and>
     timers_set L (hd (todo s)) (expiry s 0) (expiry s 1) (since s) \<and> expiry s 1 = since s + 100)"
| "select_phase L hist SResult s = (since s \<le> clock s \<and> todo s \<noteq> [] \<and>
     (case hist (sel s) of
        [] \<Rightarrow> timers_set L (hd (todo s)) (expiry s 0) (expiry s 1) (since s) \<and>
          (\<forall>i<2. waiting s i \<and> \<not> stopped s i \<and> ripe s i = max (expiry s i) (since s) \<and> clock s \<le> ripe s i + L)
      | w # ws \<Rightarrow> w < 2 \<and> ecs s w = 0 \<and> (2 * L < 50 \<longrightarrow> w = winner (hd (todo s))) \<and> \<not> waiting s w \<and>
          (if ws = [] then waiting s (1 - w) \<and> stopped s (1 - w) \<and> ripe s (1 - w) \<le> clock s \<and>
             clock s \<le> ripe s (1 - w) + L
           else ws = [1 - w] \<and> \<not> waiting s (1 - w) \<and> clock s \<le> since s + L)))"
| "select_phase L hist SReturned s = (since s \<le> clock s \<and> todo s = [])"

definition select_logged :: "nat \<Rightarrow> nat list \<Rightarrow> event list \<Rightarrow> bool" where
  "select_logged L ds l \<longleftrightarrow> (\<exists>past ws. mainOpDurations = past @ ds \<and> length ws = length past \<and>
     l = concat (map (\<lambda>w. [verdict w, Blank]) ws) \<and> (2 * L < 50 \<longrightarrow> ws = map winner past))"

definition select_inv :: "'s select_ops \<Rightarrow> ('s \<Rightarrow> nat list) \<Rightarrow> nat \<Rightarrow> int \<Rightarrow> 's selecting \<Rightarrow> bool" where
  "select_inv S hist L aborted s \<longleftrightarrow> select_laws S hist \<and> select_phase L hist (spc s) s \<and>
     list_all clear_cut (todo s) \<and> select_logged L (todo s) (select_log s)"

definition steps_left :: "'s selecting \<Rightarrow> nat" where
  "steps_left s =
     (case spc s of
        SMain \<Rightarrow> 6 * length (todo s) + 1
      | STimeout \<Rightarrow> 6 * length (todo s)
      | SSelect \<Rightarrow> 6 * length (todo s) - 1
      | SResult \<Rightarrow> 6 * length (todo s) - 4 + of_bool (waiting s 0) + of_bool (waiting s 1)
      | SReturned \<Rightarrow> 0)"

definition select_work :: "'s select_ops \<Rightarrow> nat \<Rightarrow> 's selecting \<Rightarrow> nat" where
  "select_work S L s = (151 + L) * steps_left s + (hd (deadlines S s) + L - clock s)"

lemma select_invD:
  assumes "select_inv S hist L aborted s"
  shows "select_laws S hist" "select_phase L hist (spc s) s" "list_all clear_cut (todo s)"
    "select_logged L (todo s) (select_log s)"
  using assms by (simp_all add: select_inv_def)

lemma work_step:
  assumes "steps_left t < steps_left s" and "hd (deadlines S t) \<le> clock t + 150"
  shows "select_work S L t < select_work S L s"
proof -
  have "(151 + L) * Suc (steps_left t) \<le> (151 + L) * steps_left s" using assms(1) by (intro mult_le_mono2) simp
  then show ?thesis using assms(2) by (simp add: select_work_def)
qed

text \<open>Until the first wait has completed, the later one of the two expiries is at most 150 ms away.\<close>

lemma timers_set_soon:
  "timers_set L d x0 x1 c \<Longrightarrow> clear_cut d \<Longrightarrow> x0 \<le> c + 150 \<and> x1 \<le> c + 150"
  by (auto simp: timers_set_def clear_cut_def)

lemma deadline_soon:
  assumes inv: "select_inv S hist L aborted s"
  shows "hd (deadlines S s) \<le> clock s + 150"
proof (cases "spc s = SResult \<and> sl_result S (sel s) = None")
  case True
  note I = select_invD [OF inv]
  have ph: "select_phase L hist SResult s" using I(2) True by simp
  have len: "length (hist (sel s)) \<noteq> 2" using select_result [OF I(1), of "sel s"] True by (simp split: if_splits)
  show ?thesis
  proof (cases "hist (sel s)")
    case Nil
    obtain d ds where d: "todo s = d # ds" using ph by (cases "todo s") simp_all
    have set: "timers_set L d (expiry s 0) (expiry s 1) (since s)" "ripe s 0 = max (expiry s 0) (since s)"
        "waiting s 0" "since s \<le> clock s" using ph Nil d by simp_all
    have "clear_cut d" using I(3) d by simp
    then show ?thesis using timers_set_soon [OF set(1)] set(2-4) True by (simp add: deadlines_def)
  next
    case (Cons w ws)
    then have w: "w < 2" "waiting s (1 - w)" "\<not> waiting s w" "ripe s (1 - w) \<le> clock s" "ws = []"
      using ph len by (auto split: if_splits)
    then have "w = 0 \<or> w = 1" by auto
    then show ?thesis using w(2-4) True by (auto simp: deadlines_def)
  qed
next
  case False
  then have "deadlines S s = [since s]" by (auto simp: deadlines_def)
  then show ?thesis using select_invD(2) [OF inv] by (cases "spc s") simp_all
qed

lemma tick_keeps:
  assumes inv: "select_inv S hist L aborted s" and step: "tick S L s = Some t"
  shows "select_inv S hist L aborted t \<and> select_work S L t < select_work S L s"
proof -
  note I = select_invD [OF inv]
  have pc: "spc s \<noteq> SReturned" and due: "\<forall>d\<in>set (deadlines S s). clock s < d + L"
    and t: "t = s\<lparr>clock := clock s + 1\<rparr>" using step by (auto simp: tick_def list_all_iff split: if_splits)
  have same: "deadlines S t = deadlines S s" "steps_left t = steps_left s"
    by (simp_all add: deadlines_def steps_left_def t split: spc.split)
  have ne: "deadlines S s \<noteq> []"
  proof (cases "spc s = SResult \<and> sl_result S (sel s) = None")
    case True
    then have ph: "select_phase L hist SResult s" and "length (hist (sel s)) \<noteq> 2"
      using I(2) select_result [OF I(1), of "sel s"] by (auto split: if_splits)
    then have "waiting s 0 \<or> waiting s 1"
      by (cases "hist (sel s)") (auto simp: less_2_cases_iff split: if_splits)
    then show ?thesis by (auto simp: deadlines_def)
  qed (auto simp: deadlines_def)
  have phase: "select_phase L hist (spc t) t"
  proof (cases "spc s")
    case SResult
    have ph: "select_phase L hist SResult s" using I(2) SResult by simp
    show ?thesis
    proof (cases "length (hist (sel s)) = 2")
      case True
      then have "clock s < since s + L" using due select_result [OF I(1), of "sel s"] by (simp add: deadlines_def)
      then show ?thesis using ph True SResult by (auto simp: t split: list.splits if_splits)
    next
      case False
      then have "\<forall>i<2. waiting s i \<longrightarrow> clock s < ripe s i + L"
        using due SResult select_result [OF I(1), of "sel s"] by (auto simp: deadlines_def less_2_cases_iff)
      then show ?thesis using ph False SResult
        by (auto simp: t less_2_cases_iff split: list.splits if_splits)
    qed
  qed (use I(2) due pc in \<open>auto simp: deadlines_def t\<close>)
  have "hd (deadlines S s) \<in> set (deadlines S s)" using ne by simp
  then have "clock s < hd (deadlines S s) + L" using due by blast
  then have "select_work S L t < select_work S L s" by (simp add: select_work_def same) (simp add: t)
  moreover have "select_inv S hist L aborted t" using I phase by (simp add: select_inv_def t)
  ultimately show ?thesis by blast
qed

lemma select_logged_snoc:
  assumes "select_logged L (d # ds) l" and "2 * L < 50 \<longrightarrow> w = winner d"
  shows "select_logged L ds (l @ [verdict w, Blank])"
proof -
  obtain past ws where "mainOpDurations = past @ d # ds" "length ws = length past"
      "l = concat (map (\<lambda>w. [verdict w, Blank]) ws)" "2 * L < 50 \<longrightarrow> ws = map winner past"
    using assms(1) by (auto simp: select_logged_def)
  then show ?thesis unfolding select_logged_def
    by (intro exI [of _ "past @ [d]"] exI [of _ "ws @ [w]"]) (use assms(2) in simp)
qed

lemma result_logged:
  assumes "select_logged L (todo s) l" and "todo s \<noteq> []" and "2 * L < 50 \<longrightarrow> w = winner (hd (todo s))"
  shows "select_logged L (tl (todo s)) (l @ [verdict w, Blank])"
  using select_logged_snoc [of L "hd (todo s)" "tl (todo s)" l w] assms by simp

lemma select_main_keeps:
  assumes inv: "select_inv S hist L aborted s" and step: "select_main S aborted s = Some t"
  shows "select_inv S hist L aborted t \<and> steps_left t < steps_left s"
proof (cases "spc s")
  case SMain
  then show ?thesis using inv step
    by (cases "todo s") (auto simp: select_main_def select_inv_def steps_left_def)
next
  case STimeout
  then show ?thesis using inv step
    by (cases "todo s")
      (auto simp: select_main_def select_inv_def steps_left_def timers_set_def timeoutDuration_def)
next
  case SSelect
  then show ?thesis using inv step select_make [of S hist]
    by (cases "todo s") (auto simp: select_main_def select_inv_def steps_left_def timers_set_def)
next
  case SResult
  note I = select_invD [OF inv]
  have ph: "select_phase L hist SResult s" using I(2) SResult by simp
  obtain i where i: "sl_result S (sel s) = Some i" using step SResult by (auto simp: select_main_def split: option.splits)
  then obtain v where h: "hist (sel s) = [i, v]"
    using select_result [OF I(1), of "sel s"] by (auto simp: length_Suc_conv numeral_2_eq_2 split: if_splits)
  have w: "i < 2" "ecs s i = 0" "2 * L < 50 \<longrightarrow> i = winner (hd (todo s))" "todo s \<noteq> []"
    using ph h by auto
  have t: "t = s\<lparr>spc := SMain, todo := tl (todo s), since := clock s,
      select_log := select_log s @ [verdict i, Blank]\<rparr>"
    using step SResult i w(1,2)
    by (auto simp: select_main_def verdict_def select_log_error_code_def less_2_cases_iff)
  have "select_logged L (tl (todo s)) (select_log s @ [verdict i, Blank])"
    using result_logged [OF I(4) w(4,3)] .
  moreover have "list_all clear_cut (tl (todo s))" using I(3) by (cases "todo s") simp_all
  moreover have "steps_left t < steps_left s" using w(4) SResult by (cases "todo s") (simp_all add: steps_left_def t)
  ultimately show ?thesis using I(1) by (simp add: select_inv_def t)
next
  case SReturned
  then show ?thesis using step by (simp add: select_main_def)
qed

lemma first_in_time:
  assumes "timers_set L d (x 0) (x 1) c" and "clear_cut d" and "i < (2 :: nat)" and "x i \<le> now"
    and "now \<le> max (x (1 - i)) c + L" and "2 * L < 50"
  shows "i = winner d"
proof -
  have "i = 0 \<or> i = 1" using assms(3) by auto
  then show ?thesis using assms by (auto simp: timers_set_def clear_cut_def winner_def max_def split: if_splits)
qed

lemma fires_keeps:
  assumes inv: "select_inv S hist L aborted s" and step: "wait_completes S aborted i abort s = Some t"
  shows "select_inv S hist L aborted t \<and> steps_left t < steps_left s"
proof -
  note I = select_invD [OF inv]
  obtain y cancel where i: "spc s = SResult" "i < 2" "waiting s i" "if abort then stopped s i else expiry s i \<le> clock s"
    and y: "sl_complete S i (sel s) = (y, cancel)"
    using step by (auto simp: wait_completes_def split: if_splits prod.splits)
  define u where "u = s\<lparr>waiting := (waiting s)(i := False), ecs := (ecs s)(i := if abort then aborted else 0),
      sel := y, since := clock s\<rparr>"
  have t_def: "t = (if cancel then cancel_timer (1 - i) u else u)"
    using step i(1-3) unfolding wait_completes_def y u_def Let_def if_P [OF i(4)]
    by (auto split: if_splits)
  have ph: "select_phase L hist SResult s" using I(2) i(1) by simp
  have two: "i = 0 \<or> i = 1" using i(2) by auto
  show ?thesis
  proof (cases "hist (sel s)")
    case Nil
    obtain d ds where d: "todo s = d # ds" using ph by (cases "todo s") simp_all
    have set: "timers_set L d (expiry s 0) (expiry s 1) (since s)"
      "\<forall>i<2. waiting s i \<and> \<not> stopped s i \<and> ripe s i = max (expiry s i) (since s) \<and> clock s \<le> ripe s i + L"
      using ph unfolding select_phase.simps Nil d list.case list.sel by blast+
    have j: "1 - i < 2" using two by auto
    have fired: "\<not> abort" "expiry s i \<le> clock s" using set(2) i(2,4) by (auto split: if_splits)
    have hy: "hist y = [i]" and cancel: "cancel" using select_complete [OF I(1) y i(2)] Nil by simp_all
    have other: "waiting s (1 - i)" "ripe s (1 - i) = max (expiry s (1 - i)) (since s)" "clock s \<le> ripe s (1 - i) + L"
      using set(2) j by blast+
    have "i = winner d" if "2 * L < 50"
      using first_in_time [OF set(1) _ i(2) fired(2) _ that] other(2,3) I(3) d by simp
    moreover have "waiting t (1 - i)" "stopped t (1 - i)" "\<not> waiting t i" "ecs t i = 0" "sel t = y" "clock t = clock s"
      "ripe t (1 - i) = min (ripe s (1 - i)) (clock s)" "since t = clock s" "todo t = todo s" "spc t = SResult"
      "select_log t = select_log s"
      using step i fired cancel other(1) y two by (auto simp: wait_completes_def cancel_timer_def Let_def)
    moreover have "steps_left t < steps_left s"
      using calculation i(1,3) other(1) two d by (auto simp: steps_left_def)
    ultimately show ?thesis using I hy i(2) d other(3) by (simp add: select_inv_def)
  next
    case (Cons w ws)
    have w: "w < 2" "ecs s w = 0" "2 * L < 50 \<longrightarrow> w = winner (hd (todo s))" "\<not> waiting s w" "todo s \<noteq> []"
      and later: "if ws = [] then waiting s (1 - w) \<and> stopped s (1 - w) \<and> ripe s (1 - w) \<le> clock s \<and>
          clock s \<le> ripe s (1 - w) + L
        else ws = [1 - w] \<and> \<not> waiting s (1 - w) \<and> clock s \<le> since s + L"
      using ph unfolding select_phase.simps Cons list.case by blast+
    have iw: "i = 1 - w" "i \<noteq> w" using two i(3) w(1,4) by (auto simp: less_2_cases_iff)
    have ws: "ws = []" using later i(3) unfolding iw(1) by (cases "ws = []") simp_all
    have hy: "hist y = [w, 1 - w]" and cancel: "\<not> cancel"
      using select_complete [OF I(1) y i(2)] Cons ws iw by simp_all
    have t: "\<not> waiting t w" "\<not> waiting t (1 - w)" "ecs t w = 0" "sel t = y" "clock t = clock s" "since t = clock s"
      "todo t = todo s" "spc t = SResult" "select_log t = select_log s"
      using i(1) cancel w(2,4) iw(2) unfolding t_def iw(1) [symmetric] by (simp_all add: u_def)
    have parts: "i = 0 \<and> w = 1 \<or> i = 1 \<and> w = 0" using two iw(2) w(1) by auto
    have "steps_left t < steps_left s"
      using t(1,2,7,8) i(1,3) w(4,5) parts by (cases "todo s") (auto simp: steps_left_def)
    then show ?thesis using I hy t w by (simp add: select_inv_def)
  qed
qed

lemma select_keeps:
  assumes inv: "select_inv S hist L aborted s" and step: "select_step S L aborted a s = Some t"
  shows "select_inv S hist L aborted t \<and> select_work S L t < select_work S L s"
proof (cases a)
  case Tick
  then show ?thesis using tick_keeps [OF inv] step by simp
next
  case SelectMain
  then show ?thesis using select_main_keeps [OF inv] step deadline_soon work_step by fastforce
next
  case (Fires i abort)
  then show ?thesis using fires_keeps [OF inv] step deadline_soon work_step by fastforce
qed

text \<open>A wait that has not completed can do so at the latest when the clock may not go on.\<close>

lemma overdue_fires:
  assumes inv: "select_inv S hist L aborted s" and pc: "spc s = SResult" and i: "waiting s i" "i < 2"
    and late: "ripe s i + L \<le> clock s"
  shows "\<exists>abort. wait_completes S aborted i abort s \<noteq> None"
proof -
  have "stopped s i \<or> expiry s i \<le> clock s"
  proof (rule ccontr)
    assume no: "\<not> (stopped s i \<or> expiry s i \<le> clock s)"
    have ph: "select_phase L hist SResult s" using select_invD(2) [OF inv] pc by simp
    show False
    proof (cases "hist (sel s)")
      case Nil
      then have "ripe s i = max (expiry s i) (since s)" using ph i by simp
      then show False using no late by auto
    next
      case (Cons w ws)
      then have "\<not> waiting s w" "w < 2" "waiting s (1 - w) \<longrightarrow> stopped s (1 - w)"
        using ph by (auto split: if_splits)
      then show False using i no by (auto simp: less_2_cases_iff)
    qed
  qed
  then show ?thesis
  proof
    assume "stopped s i"
    then have "wait_completes S aborted i True s \<noteq> None"
      using pc i by (simp add: wait_completes_def Let_def split: prod.splits)
    then show ?thesis ..
  next
    assume "expiry s i \<le> clock s"
    then have "wait_completes S aborted i False s \<noteq> None"
      using pc i by (simp add: wait_completes_def Let_def split: prod.splits)
    then show ?thesis ..
  qed
qed

lemma select_progress:
  assumes inv: "select_inv S hist L aborted s" and stuck: "stuck (select_step S L aborted) s"
  shows "spc s = SReturned"
proof (rule ccontr)
  assume pc: "spc s \<noteq> SReturned"
  have main: "select_main S aborted s = None" using stuckD [OF stuck, of SelectMain] by simp
  then have result: "spc s = SResult" "sl_result S (sel s) = None"
    using pc by (auto simp: select_main_def split: spc.splits list.splits option.splits)
  have "tick S L s = None" using stuckD [OF stuck, of Tick] by simp
  then obtain d where d: "d \<in> set (deadlines S s)" "d + L \<le> clock s"
    using pc by (auto simp: tick_def list_all_iff not_less split: if_splits)
  have "\<exists>i\<in>{0, 1}. waiting s i \<and> d = ripe s i" using d(1) result by (auto simp: deadlines_def split: if_splits)
  then obtain i where i: "i < 2" "waiting s i" "ripe s i + L \<le> clock s"
  proof
    fix i assume "i \<in> {0, 1}" and "waiting s i \<and> d = ripe s i"
    then show thesis using that [of i] d(2) by (auto simp: numeral_2_eq_2)
  qed
  then obtain abort where "wait_completes S aborted i abort s \<noteq> None" using overdue_fires [OF inv result(1)] by blast
  then show False using stuckD [OF stuck, of "Fires i abort"] by simp
qed

interpretation selecting: terminating_system "select_step S L aborted" "select_inv S hist L aborted"
    "select_work S L" "\<lambda>s. spc s = SReturned"
  for S hist L aborted
  by unfold_locales (use select_keeps select_progress in blast)+

section \<open>The output\<close>

lemma select_begins:
  assumes "select_laws S hist"
  shows "select_inv S hist L aborted (select_start S)" "select_work S L (select_start S) = 19 * (151 + L) + L"
proof -
  have "select_logged L mainOpDurations []" by (simp add: select_logged_def)
  moreover have "list_all clear_cut mainOpDurations"
    by (simp add: mainOpDurations_def array_of_def numeral_3_eq_3 clear_cut_def)
  ultimately show "select_inv S hist L aborted (select_start S)"
    using assms by (simp add: select_inv_def select_start_def)
  show "select_work S L (select_start S) = 19 * (151 + L) + L"
    by (simp add: select_work_def steps_left_def deadlines_def select_start_def mainOpDurations_def array_of_def
        numeral_3_eq_3)
qed

text \<open>
  C35. \<open>select.cpp\<close>, with real timers: a wait may complete late, and the coroutine may stop between any two statements.
  Whatever the latency \<open>L\<close> (in ms) of the machine, every iteration prints one line, that the operation completed or
  that it timed out, never that it was cancelled, an unexpected error, or the default branch; the program ends. There is a
  third iteration although only two durations are written down. If the latency is below 25 ms, a quarter of the
  timeout, the first operation beats the timeout, the second one loses, and the third one, of no duration, wins.
\<close>

theorem select_output:
  assumes "select_laws S hist"
    and run: "run_steps (select_step S L aborted) ks (select_start S) = Some s"
  shows "length ks \<le> 19 * (151 + L) + L \<and> (stuck (select_step S L aborted) s \<longrightarrow> spc s = SReturned) \<and>
    set (select_log s) \<subseteq> {Completed, TimedOut, Blank} \<and>
    (spc s = SReturned \<longrightarrow> (\<exists>a b c. {a, b, c} \<subseteq> {Completed, TimedOut} \<and>
       select_log s = [a, Blank, b, Blank, c, Blank])) \<and>
    (spc s = SReturned \<and> L < 25 \<longrightarrow> select_log s = [Completed, Blank, TimedOut, Blank, Completed, Blank]) \<and>
    mainOpDurations = [50, 150, 0]"
proof -
  note start = select_begins [OF assms(1)]
  have inv: "select_inv S hist L aborted s" using selecting.run_inv [OF start(1) run] .
  note I = select_invD [OF inv]
  obtain past ws where l: "mainOpDurations = past @ todo s" "length ws = length past"
      "select_log s = concat (map (\<lambda>w. [verdict w, Blank]) ws)" "2 * L < 50 \<longrightarrow> ws = map winner past"
    using I(4) by (auto simp: select_logged_def)
  have durations: "mainOpDurations = [50, 150, 0]"
    by (simp add: mainOpDurations_def array_of_def numeral_3_eq_3)
  have "length ks \<le> 19 * (151 + L) + L" using selecting.run_bound [OF start(1) run] unfolding start(2) by linarith
  moreover have "stuck (select_step S L aborted) s \<longrightarrow> spc s = SReturned" using select_progress [OF inv] by blast
  moreover have "set (select_log s) \<subseteq> {Completed, TimedOut, Blank}" by (auto simp: l(3) verdict_def split: if_splits)
  moreover have "(\<exists>a b c. {a, b, c} \<subseteq> {Completed, TimedOut} \<and> select_log s = [a, Blank, b, Blank, c, Blank]) \<and>
      (L < 25 \<longrightarrow> select_log s = [Completed, Blank, TimedOut, Blank, Completed, Blank])" if "spc s = SReturned"
  proof
    have past: "past = [50, 150, 0]" using I(2) that l(1) durations by simp
    then obtain u v w where ws: "ws = [u, v, w]" using l(2) by (auto simp: length_Suc_conv)
    show "\<exists>a b c. {a, b, c} \<subseteq> {Completed, TimedOut} \<and> select_log s = [a, Blank, b, Blank, c, Blank]"
      by (intro exI [of _ "verdict u"] exI [of _ "verdict v"] exI [of _ "verdict w"]) (simp add: l(3) ws verdict_def)
    show "L < 25 \<longrightarrow> select_log s = [Completed, Blank, TimedOut, Blank, Completed, Blank]"
      using l(4) by (simp add: l(3) past winner_def verdict_def)
  qed
  ultimately show ?thesis using durations by blast
qed

definition waits :: "nat \<Rightarrow> select_agent list" where
  "waits n = replicate n Tick"

text \<open>
  A machine that fires its timers at once; and one with the latency 25, on which the second operation wins although it
  lasts longer than the timeout: 25 ms pass between the two constructors, and the timeout fires 25 ms late.
\<close>

definition prompt_run :: "select_agent list" where
  "prompt_run =
     [SelectMain, SelectMain, SelectMain] @ waits 50 @ [Fires 0 False, Fires 1 True, SelectMain] @
     [SelectMain, SelectMain, SelectMain] @ waits 100 @ [Fires 1 False, Fires 0 True, SelectMain] @
     [SelectMain, SelectMain, SelectMain, Fires 0 False, Fires 1 True, SelectMain, SelectMain]"

definition slow_run :: "select_agent list" where
  "slow_run =
     [SelectMain, SelectMain, SelectMain] @ waits 50 @ [Fires 0 False, Fires 1 True, SelectMain] @
     [SelectMain] @ waits 25 @ [SelectMain, SelectMain] @ waits 125 @ [Fires 0 False, Fires 1 False, SelectMain] @
     [SelectMain, SelectMain, SelectMain, Fires 0 False, Fires 1 True, SelectMain, SelectMain]"

text \<open>The runs are evaluated piece by piece: a wait is one step of the clock.\<close>

lemma run_waits:
  "spc s \<noteq> SReturned \<Longrightarrow> list_all (\<lambda>d. clock s + n \<le> d + L) (deadlines S s) \<Longrightarrow>
   run_steps (select_step S L aborted) (waits n @ ks) s =
     run_steps (select_step S L aborted) ks (s\<lparr>clock := clock s + n\<rparr>)"
proof (induction n arbitrary: s)
  case (Suc n)
  have "tick S L s = Some (s\<lparr>clock := clock s + 1\<rparr>)"
    using Suc.prems by (auto simp: tick_def list_all_iff)
  moreover have "deadlines S (s\<lparr>clock := clock s + 1\<rparr>) = deadlines S s" by (simp add: deadlines_def)
  ultimately show ?case
    using Suc.IH [of "s\<lparr>clock := clock s + 1\<rparr>"] Suc.prems by (simp add: waits_def list_all_iff)
qed (simp add: waits_def)

lemmas select_run_simps = run_waits select_main_def wait_completes_def cancel_timer_def deadlines_def select_start_def
  list_select_def mainOpDurations_def array_of_def timeoutDuration_def select_log_error_code_def

theorem select_output_witness:
  "(\<exists>s. run_steps (select_step list_select 0 125) prompt_run (select_start list_select) = Some s \<and>
     select_log s = [Completed, Blank, TimedOut, Blank, Completed, Blank]) \<and>
   (\<exists>s. run_steps (select_step list_select 25 125) slow_run (select_start list_select) = Some s \<and>
     select_log s = [Completed, Blank, Completed, Blank, Completed, Blank])"
proof
  obtain s where s: "run_steps (select_step list_select 0 125) prompt_run (select_start list_select) = Some s"
      "spc s = SReturned"
    by (simp add: prompt_run_def select_run_simps numeral_3_eq_3)
  show "\<exists>s. run_steps (select_step list_select 0 125) prompt_run (select_start list_select) = Some s \<and>
      select_log s = [Completed, Blank, TimedOut, Blank, Completed, Blank]"
    using select_output [OF list_select_laws s(1)] s by auto
  show "\<exists>s. run_steps (select_step list_select 25 125) slow_run (select_start list_select) = Some s \<and>
      select_log s = [Completed, Blank, Completed, Blank, Completed, Blank]"
    by (simp add: slow_run_def select_run_simps numeral_3_eq_3)
qed

end
