(* ===== verification/External_Spawn.thy ===== *)
theory External_Spawn
  imports Prelude Thread_Names
begin

text \<open>
  \<open>test_spawn_on_external_thread\<close> of \<open>examples/external/external_awaitable.cpp\<close>: a thread that is not
  of the executor spawns a task on the default executor while \<open>main\<close> waits on an atomic flag. The flag is a
  local variable of the function, so its life ends when the function returns; a use after that is
  recorded as \<open>dangling\<close>.
\<close>

section \<open>The program\<close>

datatype waiter = MPrint | MThread | MTest | MBlocked | MThreadJoin | MReturned

datatype spawner = TNone | TSpawn | TExited | TCrashed

text \<open>The child task; from its first line on it is on a thread of the executor.\<close>

datatype child = KNone | KQueued | KStore nat | KNotify nat | KEnd nat

record spawning =
  waiter :: waiter
  spawner :: spawner
  child :: child
  flag :: bool             \<comment> \<open>\<open>ready\<close>\<close>
  flag_alive :: bool
  dangling :: bool
  outlines :: "string list"

text \<open>
  \<open>ready.wait(false)\<close> returns when it finds the flag set, and otherwise blocks until a notification and
  tests again. The test and the decision to block are one atomic step.
\<close>

definition waiter_step :: "string \<Rightarrow> nat \<Rightarrow> spawning \<Rightarrow> spawning option" where
  "waiter_step tid prio s =
     (case waiter s of
        MPrint \<Rightarrow> Some (s\<lparr>waiter := MThread, outlines := outlines s @
          [''running on '' @ get_thread_name [] tid @ '' at priority '' @ to_string prio]\<rparr>)
      | MThread \<Rightarrow> Some (s\<lparr>waiter := MTest, spawner := TSpawn\<rparr>)
      | MTest \<Rightarrow> Some (s\<lparr>waiter := if flag s then MThreadJoin else MBlocked\<rparr>)
      | MBlocked \<Rightarrow> None
      | MThreadJoin \<Rightarrow>
          (if spawner s = TExited then Some (s\<lparr>waiter := MReturned, flag_alive := False\<rparr>) else None)
      | MReturned \<Rightarrow> None)"

text \<open>\<open>tmc::spawn(\<dots>).detach()\<close> goes to the default executor; without one the program crashes.\<close>

definition spawner_step :: "bool \<Rightarrow> spawning \<Rightarrow> spawning option" where
  "spawner_step default_set s =
     (if spawner s = TSpawn
      then Some (if default_set then s\<lparr>spawner := TExited, child := KQueued\<rparr> else s\<lparr>spawner := TCrashed\<rparr>)
      else None)"

definition use_flag :: "spawning \<Rightarrow> spawning" where
  "use_flag s = s\<lparr>dangling := dangling s \<or> \<not> flag_alive s\<rparr>"

definition child_step :: "string \<Rightarrow> nat \<Rightarrow> nat \<Rightarrow> nat \<Rightarrow> spawning \<Rightarrow> spawning option" where
  "child_step tid n prio k s =
     (case child s of
        KNone \<Rightarrow> None
      | KQueued \<Rightarrow>
          (if k < n then Some (s\<lparr>child := KStore k, outlines := outlines s @
             [''child task running on '' @ get_thread_name (cpu_thread_name k) tid @ '' at priority '' @ to_string prio]\<rparr>)
           else None)
      | KStore i \<Rightarrow> Some (use_flag (s\<lparr>flag := True, child := KNotify i\<rparr>))
      | KNotify i \<Rightarrow>
          Some (use_flag (s\<lparr>waiter := if waiter s = MBlocked then MTest else waiter s, child := KEnd i\<rparr>))
      | KEnd i \<Rightarrow> None)"

datatype spawning_agent = MainWaits | ExternalSpawns | OnCpuThread nat

fun spawning_step :: "string \<Rightarrow> nat \<Rightarrow> nat \<Rightarrow> bool \<Rightarrow> spawning_agent \<Rightarrow> spawning \<Rightarrow> spawning option" where
  "spawning_step tid n prio default_set MainWaits s = waiter_step tid prio s"
| "spawning_step tid n prio default_set ExternalSpawns s = spawner_step default_set s"
| "spawning_step tid n prio default_set (OnCpuThread k) s = child_step tid n prio k s"

definition spawning_start :: spawning where
  "spawning_start = \<lparr>waiter = MPrint, spawner = TNone, child = KNone, flag = False, flag_alive = True,
     dangling = False, outlines = []\<rparr>"

section \<open>The invariant\<close>

definition parent_line :: "string \<Rightarrow> nat \<Rightarrow> string" where
  "parent_line tid prio = ''running on external thread '' @ tid @ '' at priority '' @ to_string prio"

definition child_line :: "nat \<Rightarrow> nat \<Rightarrow> string" where
  "child_line prio k = ''child task running on '' @ cpu_thread_name k @ '' at priority '' @ to_string prio"

fun child_lines :: "nat \<Rightarrow> child \<Rightarrow> string list" where
  "child_lines prio (KStore k) = [child_line prio k]"
| "child_lines prio (KNotify k) = [child_line prio k]"
| "child_lines prio (KEnd k) = [child_line prio k]"
| "child_lines prio _ = []"

fun on_thread :: "nat \<Rightarrow> child \<Rightarrow> bool" where
  "on_thread n (KStore k) = (k < n)"
| "on_thread n (KNotify k) = (k < n)"
| "on_thread n (KEnd k) = (k < n)"
| "on_thread n _ = True"

fun notified :: "child \<Rightarrow> bool" where
  "notified (KEnd k) = True"
| "notified _ = False"

fun flag_stored :: "child \<Rightarrow> bool" where
  "flag_stored (KNotify k) = True"
| "flag_stored (KEnd k) = True"
| "flag_stored _ = False"

lemma notified_flag_stored: "notified c \<Longrightarrow> flag_stored c"
  by (cases c) simp_all

definition spawning_inv :: "string \<Rightarrow> nat \<Rightarrow> nat \<Rightarrow> spawning \<Rightarrow> bool" where
  "spawning_inv tid n prio s \<longleftrightarrow>
     0 < n \<and> spawner s \<noteq> TCrashed \<and> flag s = flag_stored (child s) \<and>
     (child s = KNone) = (spawner s \<noteq> TExited) \<and>
     (spawner s = TNone) = (waiter s \<in> {MPrint, MThread}) \<and>
     flag_alive s = (waiter s \<noteq> MReturned) \<and>
     (waiter s = MBlocked \<longrightarrow> \<not> notified (child s)) \<and>
     (waiter s \<in> {MThreadJoin, MReturned} \<longrightarrow> flag s) \<and>
     on_thread n (child s) \<and> (dangling s \<longrightarrow> waiter s = MReturned \<and> notified (child s)) \<and>
     outlines s = (if waiter s = MPrint then [] else [parent_line tid prio]) @ child_lines prio (child s)"

fun waiter_work :: "waiter \<Rightarrow> nat" where
  "waiter_work MPrint = 6"
| "waiter_work MThread = 5"
| "waiter_work MTest = 3"
| "waiter_work MBlocked = 2"
| "waiter_work MThreadJoin = 1"
| "waiter_work MReturned = 0"

fun spawner_work :: "spawner \<Rightarrow> nat" where
  "spawner_work TNone = 6"
| "spawner_work TSpawn = 6"
| "spawner_work _ = 0"

fun child_work :: "child \<Rightarrow> nat" where
  "child_work KNone = 0"
| "child_work KQueued = 5"
| "child_work (KStore k) = 4"
| "child_work (KNotify k) = 3"
| "child_work (KEnd k) = 0"

definition spawning_work :: "spawning \<Rightarrow> nat" where
  "spawning_work s = waiter_work (waiter s) + spawner_work (spawner s) + child_work (child s)"

definition spawning_final :: "string \<Rightarrow> nat \<Rightarrow> nat \<Rightarrow> spawning \<Rightarrow> bool" where
  "spawning_final tid n prio s \<longleftrightarrow> waiter s = MReturned \<and>
     (\<exists>k<n. child s = KEnd k \<and> outlines s = [parent_line tid prio, child_line prio k])"

lemma spawning_keeps:
  assumes inv: "spawning_inv tid n prio s" and step: "spawning_step tid n prio True a s = Some t"
  shows "spawning_inv tid n prio t \<and> spawning_work t < spawning_work s"
proof (cases a)
  case MainWaits
  then show ?thesis
    using inv step
    by (cases "waiter s")
      (auto simp: waiter_step_def spawning_inv_def spawning_work_def parent_line_def notified_flag_stored
        split: if_splits)
next
  case ExternalSpawns
  then show ?thesis
    using inv step by (auto simp: spawner_step_def spawning_inv_def spawning_work_def split: if_splits)
next
  case (OnCpuThread k)
  then show ?thesis
    using inv step
    by (cases "child s")
      (auto simp: child_step_def use_flag_def spawning_inv_def spawning_work_def child_line_def
        split: if_splits)
qed

lemma spawning_progress:
  assumes inv: "spawning_inv tid n prio s" and stuck: "stuck (spawning_step tid n prio True) s"
  shows "spawning_final tid n prio s"
proof -
  have m: "waiter_step tid prio s = None" using stuckD [OF stuck, of MainWaits] by simp
  have e: "spawner_step True s = None" using stuckD [OF stuck, of ExternalSpawns] by simp
  have c: "child_step tid n prio 0 s = None" using stuckD [OF stuck, of "OnCpuThread 0"] by simp
  have "spawner s \<noteq> TSpawn" using e by (auto simp: spawner_step_def)
  moreover have "waiter s \<notin> {MPrint, MThread, MTest}" using m by (auto simp: waiter_step_def)
  ultimately have ex: "spawner s = TExited" using inv by (cases "spawner s") (auto simp: spawning_inv_def)
  then obtain k where k: "child s = KEnd k"
    using inv c by (cases "child s") (auto simp: spawning_inv_def child_step_def)
  have "waiter s = MReturned"
    using m ex k inv by (cases "waiter s") (auto simp: waiter_step_def spawning_inv_def)
  then show ?thesis using inv k by (auto simp: spawning_final_def spawning_inv_def)
qed

interpretation spawning_run: terminating_system "spawning_step tid n prio True" "spawning_inv tid n prio"
    spawning_work "spawning_final tid n prio"
  for tid n prio
  by unfold_locales (auto dest: spawning_keeps spawning_progress)

lemma spawning_init: "0 < n \<Longrightarrow> spawning_inv tid n prio spawning_start"
  by (simp add: spawning_inv_def spawning_start_def)

text \<open>
  The schedule in which the flag is used after its life: \<open>main\<close> finds it set before it ever blocks,
  joins the thread and returns, and only then the child, which nobody waits for, notifies.
\<close>

definition dangling_schedule :: "spawning_agent list" where
  "dangling_schedule = [MainWaits, MainWaits, ExternalSpawns, OnCpuThread 0, OnCpuThread 0, MainWaits,
     MainWaits, OnCpuThread 0]"

lemma dangling_run:
  "0 < n \<Longrightarrow>
   \<exists>s. run_steps (spawning_step tid n prio True) dangling_schedule spawning_start = Some s \<and> dangling s"
  by (simp add: dangling_schedule_def spawning_start_def waiter_step_def spawner_step_def child_step_def
      use_flag_def)

text \<open>Without a default executor the external thread crashes in every run that gets to it.\<close>

lemma no_default_executor:
  "spawner s = TSpawn \<Longrightarrow> \<exists>t. spawning_step tid n prio False ExternalSpawns s = Some t \<and> spawner t = TCrashed"
  by (simp add: spawner_step_def)

text \<open>
  C40. \<open>test_spawn_on_external_thread\<close> of \<open>external_awaitable.cpp\<close>, on any number of executor threads:
  it ends within 12 steps, the wake-up of \<open>main\<close> is not lost, and by the time \<open>main\<close> can go on the
  child has run on an executor thread, which its line names, although it was spawned on another. But
  \<open>main\<close> waits for the flag and for the thread, not for the child: the child's \<open>notify_all\<close> can come after
  the function has returned and use its dead local variable (and no other use can).
\<close>

theorem spawn_on_external_thread:
  assumes "0 < n" and "run_steps (spawning_step tid n prio True) ks spawning_start = Some s"
  shows "length ks \<le> 12 \<and> (stuck (spawning_step tid n prio True) s \<longrightarrow> spawning_final tid n prio s) \<and>
    (waiter s \<in> {MThreadJoin, MReturned} \<longrightarrow>
       (\<exists>k<n. outlines s = [parent_line tid prio, child_line prio k])) \<and>
    (dangling s \<longrightarrow> waiter s = MReturned \<and> notified (child s)) \<and>
    (\<exists>ks' s'. run_steps (spawning_step tid n prio True) ks' spawning_start = Some s' \<and> dangling s')"
proof -
  note start = spawning_init [OF assms(1)]
  have inv: "spawning_inv tid n prio s" by (rule spawning_run.run_inv [OF start assms(2)])
  have "spawning_work spawning_start = 12" by (simp add: spawning_work_def spawning_start_def)
  then have "length ks \<le> 12" using spawning_run.run_bound [OF start assms(2)] by linarith
  moreover have "\<exists>k<n. outlines s = [parent_line tid prio, child_line prio k]"
    if "waiter s \<in> {MThreadJoin, MReturned}"
    using inv that by (cases "child s") (auto simp: spawning_inv_def)
  moreover have "dangling s \<longrightarrow> waiter s = MReturned \<and> notified (child s)"
    using inv by (simp add: spawning_inv_def)
  ultimately show ?thesis
    using spawning_progress [OF inv] dangling_run [OF assms(1)] by blast
qed

theorem spawn_on_external_thread_witness:
  "\<exists>s. run_steps (spawning_step ''140737'' 4 0 True)
     [MainWaits, MainWaits, MainWaits, ExternalSpawns, OnCpuThread 3, OnCpuThread 0, OnCpuThread 0, MainWaits]
     spawning_start = Some s \<and> outlines s = [parent_line ''140737'' 0, child_line 0 3]"
proof -
  obtain s where run: "run_steps (spawning_step ''140737'' 4 0 True)
     [MainWaits, MainWaits, MainWaits, ExternalSpawns, OnCpuThread 3, OnCpuThread 0, OnCpuThread 0, MainWaits]
     spawning_start = Some s" and "waiter s = MThreadJoin" and "outlines s ! 1 = child_line 0 3"
    by (simp add: spawning_start_def waiter_step_def spawner_step_def child_step_def use_flag_def child_line_def)
  moreover have "0 < (4 :: nat)" by simp
  ultimately obtain k where "outlines s = [parent_line ''140737'' 0, child_line 0 k]"
    using spawn_on_external_thread [OF _ run] by blast
  then show ?thesis using run \<open>outlines s ! 1 = child_line 0 3\<close> by simp
qed

end
