(* ===== verification/Delay.thy ===== *)
theory Delay
  imports Thread_Names
begin

text \<open>
  The program \<open>examples/asio/delay.cpp\<close>: a coroutine that waits on timers and moves between
  \<open>asio_executor()\<close> and \<open>cpu_executor()\<close> with \<open>resume_on\<close>. Parameters are the outcome of each wait
  (an error message, or none) and the slot of the thread that resumes the coroutine after it.
\<close>

section \<open>The program\<close>

text \<open>
  What it prints and returns; \<open>n\<close> iterations are left. Wait \<open>2 i\<close> is the first of iteration \<open>i\<close> and
  resumes on a thread of \<open>asio_executor()\<close>, wait \<open>2 i + 1\<close> the second.
\<close>

fun delay_loop :: "(nat \<Rightarrow> string option) \<Rightarrow> (nat \<Rightarrow> nat) \<Rightarrow> nat \<Rightarrow> nat \<Rightarrow> string list \<times> int" where
  "delay_loop errs slot 0 i = ([], 0)"
| "delay_loop errs slot (Suc n) i =
     (case errs (2 * i) of
        Some msg \<Rightarrow> ([''error: '' @ msg], - 1)
      | None \<Rightarrow>
          (case errs (2 * i + 1) of
             Some msg \<Rightarrow> ([asio_thread_name (slot (2 * i)), ''error2: '' @ msg], - 1)
           | None \<Rightarrow>
               (case delay_loop errs slot n (Suc i) of
                  (out, r) \<Rightarrow>
                    (asio_thread_name (slot (2 * i)) # cpu_thread_name (slot (2 * i + 1)) # out, r))))"

definition delay_main :: "(nat \<Rightarrow> string option) \<Rightarrow> (nat \<Rightarrow> nat) \<Rightarrow> nat \<Rightarrow> string list \<times> int" where
  "delay_main errs slot first_slot =
     (case delay_loop errs slot 8 0 of (out, r) \<Rightarrow> (cpu_thread_name first_slot # out, r))"

section \<open>What it prints\<close>

text \<open>The line after wait \<open>k\<close>, and the line of an error in it.\<close>

definition hop_line :: "(nat \<Rightarrow> nat) \<Rightarrow> nat \<Rightarrow> string" where
  "hop_line slot k = (if even k then asio_thread_name (slot k) else cpu_thread_name (slot k))"

definition error_line :: "nat \<Rightarrow> string \<Rightarrow> string" where
  "error_line k msg = (if even k then ''error: '' else ''error2: '') @ msg"

lemma delay_loop_ok:
  "(\<And>k. 2 * i \<le> k \<Longrightarrow> k < 2 * i + 2 * n \<Longrightarrow> errs k = None) \<Longrightarrow>
   delay_loop errs slot n i = (map (hop_line slot) [2 * i..<2 * i + 2 * n], 0)"
proof (induction n arbitrary: i)
  case (Suc n)
  have "delay_loop errs slot n (Suc i) = (map (hop_line slot) [2 * Suc i..<2 * Suc i + 2 * n], 0)"
    by (rule Suc.IH) (use Suc.prems in simp)
  moreover have "[2 * i..<2 * i + 2 * Suc n] = 2 * i # (2 * i + 1) # [2 * Suc i..<2 * Suc i + 2 * n]"
    by (simp add: upt_conv_Cons)
  ultimately show ?case using Suc.prems by (simp add: hop_line_def)
qed simp

lemma delay_loop_error:
  "2 * i \<le> k \<Longrightarrow> k < 2 * i + 2 * n \<Longrightarrow> errs k = Some msg \<Longrightarrow>
   (\<And>j. 2 * i \<le> j \<Longrightarrow> j < k \<Longrightarrow> errs j = None) \<Longrightarrow>
   delay_loop errs slot n i = (map (hop_line slot) [2 * i..<k] @ [error_line k msg], - 1)"
proof (induction n arbitrary: i)
  case (Suc n)
  have "k = 2 * i \<or> k = 2 * i + 1 \<or> 2 * Suc i \<le> k" using Suc.prems(1) by auto
  then consider "k = 2 * i" | "k = 2 * i + 1" | "2 * Suc i \<le> k" by blast
  then show ?case
  proof cases
    case 1
    then show ?thesis using Suc.prems(3) by (simp add: error_line_def)
  next
    case 2
    then show ?thesis
      using Suc.prems(3) Suc.prems(4) [of "2 * i"] by (simp add: error_line_def hop_line_def)
  next
    case 3
    have "delay_loop errs slot n (Suc i) = (map (hop_line slot) [2 * Suc i..<k] @ [error_line k msg], - 1)"
      by (rule Suc.IH) (use Suc.prems 3 in simp_all)
    moreover have "[2 * i..<k] = 2 * i # (2 * i + 1) # [2 * Suc i..<k]"
      using 3 by (simp add: upt_conv_Cons)
    ultimately show ?thesis
      using Suc.prems(4) [of "2 * i"] Suc.prems(4) [of "2 * i + 1"] 3 by (simp add: hop_line_def)
  qed
qed simp

text \<open>
  Every line tells the executor of the thread: i/o threads after the first wait of an iteration, cpu
  threads after the second. The first error ends the program with \<open>-1\<close>, after the lines up to it.
\<close>

lemma delay_main_ok:
  "(\<And>k. k < 16 \<Longrightarrow> errs k = None) \<Longrightarrow>
   delay_main errs slot s0 = (cpu_thread_name s0 # map (hop_line slot) [0..<16], 0)"
  using delay_loop_ok [of 0 8 errs slot] by (simp add: delay_main_def)

lemma delay_main_error:
  "k < 16 \<Longrightarrow> errs k = Some msg \<Longrightarrow> (\<And>j. j < k \<Longrightarrow> errs j = None) \<Longrightarrow>
   delay_main errs slot s0 =
     (cpu_thread_name s0 # map (hop_line slot) [0..<k] @ [error_line k msg], - 1)"
  using delay_loop_error [of 0 k 8 errs msg slot] by (simp add: delay_main_def)

end
