(* ===== verification/Priorities.thy ===== *)
theory Priorities
  imports Prelude Format
begin

text \<open>
  The program \<open>examples/asio/prio.cpp\<close>: ten thousand tasks enter and exit executors and braids and check
  after each move where they are and with which priority. \<open>tmc::enter\<close> and \<open>exit()\<close> are the library's:
  what it documents (and the head of the file repeats) is that \<open>exit()\<close> restores the executor and the
  priority of the matching \<open>enter\<close>, which moves the task and leaves its priority alone.
\<close>

section \<open>The library\<close>

datatype where_at = CpuExecutor | CpuBraid | AsioExecutor | AsioBraid

record context_of_task =
  current_executor :: where_at
  current_priority :: nat

record 's scope_ops =
  sc_enter :: "where_at \<Rightarrow> context_of_task \<Rightarrow> 's \<times> context_of_task"
  sc_exit :: "'s \<Rightarrow> context_of_task \<Rightarrow> context_of_task"

definition scope_laws :: "'s scope_ops \<Rightarrow> bool" where
  "scope_laws S \<longleftrightarrow>
     (\<forall>e c d. case sc_enter S e c of
        (s, c') \<Rightarrow> current_executor c' = e \<and> current_priority c' = current_priority c \<and> sc_exit S s d = c)"

lemma scope_enter:
  assumes "scope_laws S" and "sc_enter S e c = (s, c')"
  shows "c' = \<lparr>current_executor = e, current_priority = current_priority c\<rparr>" and "sc_exit S s d = c"
proof -
  have "case sc_enter S e c of (s, c') \<Rightarrow>
      current_executor c' = e \<and> current_priority c' = current_priority c \<and> sc_exit S s d = c"
    using assms(1) [unfolded scope_laws_def, rule_format, of e c d] .
  then show "c' = \<lparr>current_executor = e, current_priority = current_priority c\<rparr>" "sc_exit S s d = c"
    using assms(2) by (cases c'; simp)+
qed

definition saved_scope :: "context_of_task scope_ops" where
  "saved_scope = \<lparr>sc_enter = (\<lambda>e c. (c, c\<lparr>current_executor := e\<rparr>)), sc_exit = (\<lambda>s c. s)\<rparr>"

lemma saved_scope_laws: "scope_laws saved_scope"
  by (simp add: scope_laws_def saved_scope_def)

section \<open>The tasks\<close>

definition check_exec_prio :: "where_at \<Rightarrow> nat \<Rightarrow> context_of_task \<Rightarrow> string list" where
  "check_exec_prio ExpectedExecutor ExpectedPriority c =
     (if current_executor c \<noteq> ExpectedExecutor then [''FAIL | expected executor did not match''] else []) @
     (if current_priority c \<noteq> ExpectedPriority
      then [''FAIL | expected priority '' @ to_string ExpectedPriority @ '' but got priority '' @
        to_string (current_priority c)]
      else [])"

text \<open>\<open>Exit\<close> calls \<open>exit()\<close> of the scope that was entered last and not yet exited.\<close>

datatype action = ChangePriority nat | Check where_at | Enter where_at | Exit

definition jump_around :: "nat \<Rightarrow> action list" where
  "jump_around ExpectedPriority =
     [ChangePriority ExpectedPriority, Check CpuExecutor,
      Enter CpuBraid, Check CpuBraid, Exit, Check CpuExecutor,
      Enter AsioExecutor, Check AsioExecutor,
      Enter AsioBraid, Check AsioBraid, Exit, Check AsioExecutor,
      Exit, Check CpuExecutor]"

text \<open>A task: what is left of its body, its context, the scopes it is in and its priority argument.\<close>

record 's jumper =
  todo_actions :: "action list"
  task_context :: context_of_task
  scopes :: "'s list"
  expected :: nat

definition act :: "'s scope_ops \<Rightarrow> 's jumper \<Rightarrow> ('s jumper \<times> string list) option" where
  "act S t =
     (case todo_actions t of
        [] \<Rightarrow> None
      | ChangePriority p # as \<Rightarrow>
          Some (t\<lparr>todo_actions := as, task_context := (task_context t)\<lparr>current_priority := p\<rparr>\<rparr>, [])
      | Check e # as \<Rightarrow>
          Some (t\<lparr>todo_actions := as\<rparr>, check_exec_prio e (expected t) (task_context t))
      | Enter e # as \<Rightarrow>
          (case sc_enter S e (task_context t) of
             (s, c) \<Rightarrow> Some (t\<lparr>todo_actions := as, task_context := c, scopes := s # scopes t\<rparr>, []))
      | Exit # as \<Rightarrow>
          (case scopes t of
             [] \<Rightarrow> None
           | s # ss \<Rightarrow>
               Some (t\<lparr>todo_actions := as, task_context := sc_exit S s (task_context t), scopes := ss\<rparr>, [])))"

text \<open>All tasks of \<open>main\<close>, interleaved; the second component is what has been printed.\<close>

definition prio_step ::
    "'s scope_ops \<Rightarrow> nat \<Rightarrow> 's jumper list \<times> string list \<Rightarrow> ('s jumper list \<times> string list) option" where
  "prio_step S i = (\<lambda>(ts, out).
     if i < length ts then
       (case act S (ts ! i) of None \<Rightarrow> None | Some (t, ls) \<Rightarrow> Some (ts[i := t], out @ ls))
     else None)"

definition prio_main :: "nat \<Rightarrow> nat list \<Rightarrow> 's jumper list \<times> string list" where
  "prio_main prio0 prios =
     (map (\<lambda>p. \<lparr>todo_actions = jump_around p,
        task_context = \<lparr>current_executor = CpuExecutor, current_priority = prio0\<rparr>, scopes = [], expected = p\<rparr>) prios,
      check_exec_prio CpuExecutor prio0 \<lparr>current_executor = CpuExecutor, current_priority = prio0\<rparr>)"

section \<open>No check fails\<close>

text \<open>A task that prints nothing if it runs to its end alone.\<close>

fun passes :: "'s scope_ops \<Rightarrow> action list \<Rightarrow> context_of_task \<Rightarrow> 's list \<Rightarrow> nat \<Rightarrow> bool" where
  "passes S [] c ss p = True"
| "passes S (ChangePriority q # as) c ss p = passes S as (c\<lparr>current_priority := q\<rparr>) ss p"
| "passes S (Check e # as) c ss p = (check_exec_prio e p c = [] \<and> passes S as c ss p)"
| "passes S (Enter e # as) c ss p = (case sc_enter S e c of (s, c') \<Rightarrow> passes S as c' (s # ss) p)"
| "passes S (Exit # as) c ss p = (case ss of [] \<Rightarrow> False | s # ss' \<Rightarrow> passes S as (sc_exit S s c) ss' p)"

definition prio_inv :: "'s scope_ops \<Rightarrow> 's jumper list \<times> string list \<Rightarrow> bool" where
  "prio_inv S x \<longleftrightarrow> snd x = [] \<and>
     (\<forall>t\<in>set (fst x). passes S (todo_actions t) (task_context t) (scopes t) (expected t))"

definition prio_work :: "'s jumper list \<times> string list \<Rightarrow> nat" where
  "prio_work x = sum_list (map (\<lambda>t. length (todo_actions t)) (fst x))"

lemma act_passes:
  assumes "passes S (todo_actions t) (task_context t) (scopes t) (expected t)" and "act S t = Some (t', ls)"
  shows "passes S (todo_actions t') (task_context t') (scopes t') (expected t') \<and> ls = [] \<and>
    length (todo_actions t) = Suc (length (todo_actions t'))"
  using assms by (auto simp: act_def split: list.splits action.splits prod.splits)

lemma act_possible:
  assumes "passes S (todo_actions t) (task_context t) (scopes t) (expected t)" and "act S t = None"
  shows "todo_actions t = []"
  using assms by (auto simp: act_def split: list.splits action.splits prod.splits)

lemma prio_keeps:
  assumes inv: "prio_inv S x" and step: "prio_step S i x = Some y"
  shows "prio_inv S y \<and> prio_work y < prio_work x"
proof -
  obtain ts out t ls where x: "x = (ts, out)" and i: "i < length ts" and t: "act S (ts ! i) = Some (t, ls)"
    and y: "y = (ts[i := t], out @ ls)"
    using step by (cases x) (auto simp: prio_step_def split: if_splits option.splits)
  have "passes S (todo_actions (ts ! i)) (task_context (ts ! i)) (scopes (ts ! i)) (expected (ts ! i))"
    using inv i x by (simp add: prio_inv_def)
  note p = act_passes [OF this t]
  then show ?thesis
    using inv x y sum_map_update [OF i, of "\<lambda>t. length (todo_actions t)" t]
    by (auto simp: prio_inv_def prio_work_def dest!: set_update_le)
qed

definition prio_final :: "'s jumper list \<times> string list \<Rightarrow> bool" where
  "prio_final x \<longleftrightarrow> snd x = [] \<and> (\<forall>t\<in>set (fst x). todo_actions t = [])"

lemma prio_progress:
  assumes inv: "prio_inv S x" and stuck: "stuck (prio_step S) x"
  shows "prio_final x"
proof -
  have "todo_actions t = []" if t: "t \<in> set (fst x)" for t
  proof -
    obtain i where i: "i < length (fst x)" "t = fst x ! i" using t by (metis in_set_conv_nth)
    then have "act S t = None"
      using stuckD [OF stuck, of i] by (cases x) (auto simp: prio_step_def split: option.splits)
    then show ?thesis using inv t act_possible unfolding prio_inv_def by blast
  qed
  then show ?thesis using inv by (simp add: prio_final_def prio_inv_def)
qed

interpretation prio_run: terminating_system "prio_step S" "prio_inv S" prio_work prio_final for S
  by unfold_locales (auto dest: prio_keeps prio_progress)

lemma jump_around_passes:
  assumes S: "scope_laws S"
  shows "passes S (jump_around p) \<lparr>current_executor = CpuExecutor, current_priority = q\<rparr> [] p"
proof -
  define spot where "spot e = \<lparr>current_executor = e, current_priority = p\<rparr>" for e
  have spot [simp]: "current_executor (spot e) = e" "current_priority (spot e) = p" for e
    by (simp_all add: spot_def)
  have enters: "\<exists>s. sc_enter S e (spot e') = (s, spot e) \<and> (\<forall>d. sc_exit S s d = spot e')" for e e'
  proof -
    obtain s c' where "sc_enter S e (spot e') = (s, c')" by fastforce
    then show ?thesis using scope_enter [OF S, of e "spot e'" s c'] by (simp add: spot_def)
  qed
  obtain s1 s2 s3 where s: "sc_enter S CpuBraid (spot CpuExecutor) = (s1, spot CpuBraid)"
    "\<And>d. sc_exit S s1 d = spot CpuExecutor"
    "sc_enter S AsioExecutor (spot CpuExecutor) = (s2, spot AsioExecutor)" "\<And>d. sc_exit S s2 d = spot CpuExecutor"
    "sc_enter S AsioBraid (spot AsioExecutor) = (s3, spot AsioBraid)" "\<And>d. sc_exit S s3 d = spot AsioExecutor"
    using enters by meson
  have "\<lparr>current_executor = CpuExecutor, current_priority = q\<rparr>\<lparr>current_priority := p\<rparr> = spot CpuExecutor"
    by (simp add: spot_def)
  note upd = this
  show ?thesis
    unfolding jump_around_def passes.simps upd
    by (simp add: check_exec_prio_def s del: context_of_task.update_convs)
qed

text \<open>
  For any priorities, any scheduling and any library that keeps its promise the program prints no
  \<open>FAIL\<close>, and ends after the fourteen steps of each task.
\<close>

lemma prio_no_fail:
  fixes S :: "'s scope_ops"
  assumes "scope_laws S" and "run_steps (prio_step S) ks (prio_main prio0 prios) = Some x"
  shows "snd x = [] \<and> length ks \<le> 14 * length prios \<and>
    (stuck (prio_step S) x \<longrightarrow> (\<forall>t\<in>set (fst x). todo_actions t = []))"
proof -
  have start: "prio_inv S (prio_main prio0 prios)"
    using jump_around_passes [OF assms(1)] by (auto simp: prio_inv_def prio_main_def check_exec_prio_def)
  have "prio_work (prio_main prio0 prios :: 's jumper list \<times> string list) = 14 * length prios"
    by (simp add: prio_work_def prio_main_def comp_def jump_around_def sum_list_triv)
  then have "length ks \<le> 14 * length prios" using prio_run.run_bound [OF start assms(2)] by linarith
  moreover note inv = prio_run.run_inv [OF start assms(2)]
  ultimately show ?thesis using prio_progress [OF inv] by (auto simp: prio_inv_def prio_final_def)
qed

end
