(* ===== verification/Alignment.thy ===== *)
theory Alignment
  imports Prelude Format
begin

text \<open>
  The program \<open>examples/alignment.cpp\<close>: many coroutines whose frames hold an object that must be aligned
  to 64 bytes, which some compilers do not respect. The parameter is what the compiler and the allocator
  do: the address of the object in the frame of each coroutine.
\<close>

section \<open>The program\<close>

definition ALIGNMENT :: nat where
  "ALIGNMENT = 64"

definition check_alignment :: "nat \<Rightarrow> string list" where
  "check_alignment ptr =
     (let low_bits = ptr mod ALIGNMENT in
      if low_bits \<noteq> 0
      then [''FAIL: Expected align '' @ to_string ALIGNMENT @ '' but got align '' @ to_string low_bits]
      else [])"

text \<open>
  \<open>run_one\<close> up to \<open>co_await tmc::yield()\<close> and after it, with its local variables; \<open>char\<close> is signed.
\<close>

record aligned_struct =
  avalue :: int
  avalue2 :: int

datatype one = OneNew | OneYielded int aligned_struct | OneEnd

record alignment =
  ones :: "one list"
  r1 :: "int list"                  \<comment> \<open>\<open>unaligned_struct\<close> has one member\<close>
  r2 :: "aligned_struct list"
  collected :: bool                 \<comment> \<open>\<open>run\<close> has gone through the results\<close>
  console :: "string list"

definition to_char :: "nat \<Rightarrow> int" where
  "to_char x = (if x mod 256 < 128 then int (x mod 256) else int (x mod 256) - 256)"

definition run_one :: "(nat \<Rightarrow> nat) \<Rightarrow> nat \<Rightarrow> alignment \<Rightarrow> alignment option" where
  "run_one addr i s =
     (if i < length (ones s) then
        (case ones s ! i of
           OneNew \<Rightarrow>
             Some (s\<lparr>ones := (ones s)[i := OneYielded (to_char i) \<lparr>avalue = int i + 1, avalue2 = 0\<rparr>],
                     console := console s @ check_alignment (addr i)\<rparr>)
         | OneYielded u a \<Rightarrow>
             Some (s\<lparr>ones := (ones s)[i := OneEnd], r1 := (r1 s)[i := u],
                     r2 := (r2 s)[i := a\<lparr>avalue2 := int i + 2\<rparr>],
                     console := console s @ check_alignment (addr i)\<rparr>)
         | OneEnd \<Rightarrow> None)
      else None)"

text \<open>\<open>run\<close> after \<open>co_await tmc::spawn_many(tasks)\<close>.\<close>

definition run_collect :: "alignment \<Rightarrow> alignment option" where
  "run_collect s =
     (if \<not> collected s \<and> list_all (\<lambda>t. t = OneEnd) (ones s) then
        Some (s\<lparr>collected := True,
                console := console s @ concat (map (\<lambda>a. if avalue a = 0 then [''fail''] else []) (r2 s))\<rparr>)
      else None)"

datatype alignment_agent = One nat | Collect

fun alignment_step :: "(nat \<Rightarrow> nat) \<Rightarrow> alignment_agent \<Rightarrow> alignment \<Rightarrow> alignment option" where
  "alignment_step addr (One i) s = run_one addr i s"
| "alignment_step addr Collect s = run_collect s"

definition alignment_start :: "nat \<Rightarrow> alignment" where
  "alignment_start Count =
     \<lparr>ones = replicate Count OneNew, r1 = replicate Count 0,
      r2 = replicate Count \<lparr>avalue = 0, avalue2 = 0\<rparr>, collected = False, console = []\<rparr>"

section \<open>What it prints\<close>

fun checks_left :: "one \<Rightarrow> nat" where
  "checks_left OneNew = 2"
| "checks_left (OneYielded u a) = 1"
| "checks_left OneEnd = 0"

fun one_ok :: "nat \<Rightarrow> one \<Rightarrow> int \<Rightarrow> aligned_struct \<Rightarrow> bool" where
  "one_ok i (OneYielded u a) x y = (u = to_char i \<and> avalue a = int i + 1)"
| "one_ok i OneEnd x y = (x = to_char i \<and> y = \<lparr>avalue = int i + 1, avalue2 = int i + 2\<rparr>)"
| "one_ok i OneNew x y = True"

definition misaligned :: "(nat \<Rightarrow> nat) \<Rightarrow> nat \<Rightarrow> nat" where
  "misaligned addr i = (if addr i mod 64 = 0 then 0 else 1)"

definition alignment_inv :: "(nat \<Rightarrow> nat) \<Rightarrow> nat \<Rightarrow> alignment \<Rightarrow> bool" where
  "alignment_inv addr n s \<longleftrightarrow>
     length (ones s) = n \<and> length (r1 s) = n \<and> length (r2 s) = n \<and>
     (\<forall>i<n. one_ok i (ones s ! i) (r1 s ! i) (r2 s ! i)) \<and>
     (collected s \<longrightarrow> list_all (\<lambda>t. t = OneEnd) (ones s)) \<and>
     length (console s) + (\<Sum>i<n. misaligned addr i * checks_left (ones s ! i)) =
       (\<Sum>i<n. 2 * misaligned addr i)"

definition alignment_work :: "alignment \<Rightarrow> nat" where
  "alignment_work s = sum_list (map checks_left (ones s)) + of_bool (\<not> collected s)"

definition alignment_final :: "(nat \<Rightarrow> nat) \<Rightarrow> nat \<Rightarrow> alignment \<Rightarrow> bool" where
  "alignment_final addr n s \<longleftrightarrow> collected s \<and> r1 s = map to_char [0..<n] \<and>
     r2 s = map (\<lambda>i. \<lparr>avalue = int i + 1, avalue2 = int i + 2\<rparr>) [0..<n] \<and>
     length (console s) = (\<Sum>i<n. 2 * misaligned addr i)"

lemma check_length: "length (check_alignment (addr i)) = misaligned addr i"
  by (simp add: check_alignment_def misaligned_def ALIGNMENT_def Let_def)

lemma checks_sum_update:
  fixes n :: nat
  assumes "length ts = n" and "i < n" and "checks_left (ts ! i) = Suc (checks_left t)"
  shows "(\<Sum>j<n. misaligned addr j * checks_left (ts[i := t] ! j)) + misaligned addr i =
    (\<Sum>j<n. misaligned addr j * checks_left (ts ! j))"
proof -
  have "(\<Sum>j\<in>{..<n} - {i}. misaligned addr j * checks_left (ts[i := t] ! j)) =
      (\<Sum>j\<in>{..<n} - {i}. misaligned addr j * checks_left (ts ! j))"
    by (intro sum.cong) auto
  then show ?thesis
    using assms by (simp add: sum.remove [of _ i] algebra_simps)
qed

lemma run_one_keeps:
  assumes inv: "alignment_inv addr n s" and step: "run_one addr i s = Some t"
  shows "alignment_inv addr n t \<and> alignment_work t < alignment_work s"
proof -
  have i: "i < n" "length (ones s) = n"
    using inv step by (auto simp: alignment_inv_def run_one_def split: if_splits)
  have old: "length (r1 s) = n" "length (r2 s) = n" "one_ok i (ones s ! i) (r1 s ! i) (r2 s ! i)"
    using inv i by (auto simp: alignment_inv_def)
  obtain o' where left: "checks_left (ones s ! i) = Suc (checks_left o')" and "ones t = (ones s)[i := o']"
    and "console t = console s @ check_alignment (addr i)" and "collected t = collected s"
    and len: "length (r1 t) = n" "length (r2 t) = n"
    and ok: "one_ok i o' (r1 t ! i) (r2 t ! i)"
    and same: "\<And>j. j \<noteq> i \<Longrightarrow> r1 t ! j = r1 s ! j \<and> r2 t ! j = r2 s ! j"
  proof (cases "ones s ! i")
    case OneNew
    show ?thesis
      by (rule that [of "OneYielded (to_char i) \<lparr>avalue = int i + 1, avalue2 = 0\<rparr>"])
        (use OneNew step old i in \<open>auto simp: run_one_def\<close>)
  next
    case (OneYielded u a)
    show ?thesis
      by (rule that [of OneEnd]) (use OneYielded step old i in \<open>auto simp: run_one_def\<close>)
  next
    case OneEnd
    then show ?thesis using step i by (simp add: run_one_def)
  qed
  then have t: "ones t = (ones s)[i := o']" "console t = console s @ check_alignment (addr i)"
    "collected t = collected s" by simp_all
  have nc: "\<not> collected s"
    using inv left i by (auto simp: alignment_inv_def list_all_length)
  have "one_ok j (ones t ! j) (r1 t ! j) (r2 t ! j)" if "j < n" for j
    using inv that ok same i t(1) by (cases "j = i") (auto simp: alignment_inv_def)
  then have "alignment_inv addr n t"
    using inv t len nc checks_sum_update [OF i(2) i(1) left, of addr] i
    by (simp add: alignment_inv_def check_length)
  moreover have "alignment_work t < alignment_work s"
    using sum_map_update [of i "ones s" checks_left o'] i left by (simp add: alignment_work_def t)
  ultimately show ?thesis ..
qed

lemma collect_keeps:
  assumes inv: "alignment_inv addr n s" and step: "run_collect s = Some t"
  shows "alignment_inv addr n t \<and> alignment_work t < alignment_work s"
proof -
  have all: "list_all (\<lambda>t. t = OneEnd) (ones s)" "\<not> collected s"
    and t: "t = s\<lparr>collected := True,
      console := console s @ concat (map (\<lambda>a. if avalue a = 0 then [''fail''] else []) (r2 s))\<rparr>"
    using step by (auto simp: run_collect_def split: if_splits)
  have "avalue a \<noteq> 0" if a: "a \<in> set (r2 s)" for a
  proof -
    obtain i where i: "i < length (r2 s)" "a = r2 s ! i" using a by (metis in_set_conv_nth)
    then have "ones s ! i = OneEnd" "one_ok i (ones s ! i) (r1 s ! i) (r2 s ! i)"
      using inv all by (auto simp: alignment_inv_def list_all_length)
    then show ?thesis using i by simp
  qed
  then have none: "concat (map (\<lambda>a. if avalue a = 0 then [''fail''] else []) (r2 s)) = []" by simp
  show ?thesis
    using inv all unfolding t none by (simp add: alignment_inv_def alignment_work_def)
qed

lemma alignment_keeps:
  "alignment_inv addr n s \<Longrightarrow> alignment_step addr a s = Some t \<Longrightarrow>
   alignment_inv addr n t \<and> alignment_work t < alignment_work s"
  by (cases a) (auto dest: run_one_keeps collect_keeps)

lemma alignment_progress:
  assumes inv: "alignment_inv addr n s" and stuck: "stuck (alignment_step addr) s"
  shows "alignment_final addr n s"
proof -
  have "ones s ! i = OneEnd" if "i < length (ones s)" for i
    using stuckD [OF stuck, of "One i"] that by (auto simp: run_one_def split: one.splits)
  then have all: "list_all (\<lambda>t. t = OneEnd) (ones s)" by (simp add: list_all_length)
  then have c: "collected s"
    using stuckD [OF stuck, of Collect] by (auto simp: run_collect_def split: if_splits)
  have each: "r1 s ! i = to_char i \<and> r2 s ! i = \<lparr>avalue = int i + 1, avalue2 = int i + 2\<rparr>" if "i < n" for i
  proof -
    have "one_ok i (ones s ! i) (r1 s ! i) (r2 s ! i)" "ones s ! i = OneEnd"
      using inv all that by (auto simp: alignment_inv_def list_all_length)
    then show ?thesis by simp
  qed
  have zero: "(\<Sum>i<n. misaligned addr i * checks_left (ones s ! i)) = 0"
    using all inv by (auto simp: alignment_inv_def list_all_length)
  have "length (console s) = (\<Sum>i<n. 2 * misaligned addr i)"
    using inv unfolding alignment_inv_def zero by linarith
  then show ?thesis
    using inv c each unfolding alignment_inv_def alignment_final_def
    by (auto intro!: nth_equalityI)
qed

interpretation alignment_run: terminating_system "alignment_step addr" "alignment_inv addr n"
    alignment_work "alignment_final addr n"
  for addr n
  by unfold_locales (auto dest: alignment_keeps alignment_progress)

text \<open>
  The program ends, with the values of the right coroutine in each slot; it prints two \<open>FAIL\<close> lines for
  each misaligned frame, so nothing at all when the compiler keeps its promise, and never \<open>fail\<close>.
\<close>

lemma alignment_output:
  assumes "run_steps (alignment_step addr) ks (alignment_start n) = Some s"
  shows "length ks \<le> 2 * n + 1 \<and> (stuck (alignment_step addr) s \<longrightarrow> alignment_final addr n s) \<and>
    ((\<forall>i<n. addr i mod 64 = 0) \<longrightarrow> console s = [])"
proof -
  have start: "alignment_inv addr n (alignment_start n)"
    by (simp add: alignment_inv_def alignment_start_def mult.commute)
  have "alignment_work (alignment_start n) = 2 * n + 1"
    by (simp add: alignment_work_def alignment_start_def sum_list_replicate)
  then have "length ks \<le> 2 * n + 1" using alignment_run.run_bound [OF start assms] by linarith
  moreover note inv = alignment_run.run_inv [OF start assms]
  moreover have "console s = []" if "\<forall>i<n. addr i mod 64 = 0"
    using inv that by (simp add: alignment_inv_def misaligned_def)
  ultimately show ?thesis using alignment_progress [OF inv] by blast
qed

end
