(* ===== verification/Bench_Report.thy ===== *)
theory Bench_Report
  imports Chan_Bench Queue_Bench Roundtrip_Bench
begin

text \<open>
  What the benchmarks \<open>chan_bench.cpp\<close>, \<open>queue_bench.cpp\<close> and \<open>exec_st_roundtrip_bench.cpp\<close> print about
  their sweeps: the order of the configurations, and numbers that are computed in \<open>double\<close> from measured
  durations (the parameters), with the distance of the printed rate from the true quotient.
\<close>

section \<open>Numbers\<close>

definition tab :: string where
  "tab = [CHR 0x09]"

text \<open>\<open>%.2f\<close> of a non-negative \<open>double\<close>.\<close>

definition fixed2 :: "rat \<Rightarrow> string" where
  "fixed2 q =
     (let n = nat (round_half_even (q * 100)) in
      to_string (n div 100) @ ''.'' @ to_string (n mod 100 div 10) @ to_string (n mod 10))"

text \<open>
  A number of microseconds as milliseconds, and the elements per second. A duration of 0 makes the
  conversion of an infinite quotient undefined (\<open>None\<close>).
\<close>

definition bench_durMs :: "nat \<Rightarrow> rat" where
  "bench_durMs execDur = double_round (double_round (of_nat execDur) / 1000)"

definition bench_elementsPerSec :: "nat \<Rightarrow> nat \<Rightarrow> nat option" where
  "bench_elementsPerSec NELEMS execDur =
     (if execDur = 0 then None
      else Some (nat (trunc (double_round
        (double_round (of_nat NELEMS * 1000) / bench_durMs execDur)))))"

section \<open>The lines\<close>

definition result_line :: "(nat \<Rightarrow> string option) \<Rightarrow> nat \<Rightarrow> nat \<Rightarrow> nat \<Rightarrow> nat \<Rightarrow> string option" where
  "result_line fmt NELEMS prodCount consCount execDur =
     Option.bind (bench_elementsPerSec NELEMS execDur) (\<lambda>elementsPerSec.
       map_option (\<lambda>s. to_string prodCount @ '' prod'' @ tab @ to_string consCount @ '' cons'' @ tab @ '' '' @
           fixed2 (bench_durMs execDur) @ '' ms'' @ tab @ s @ '' elements/sec'')
         (fmt elementsPerSec))"

text \<open>The lines of the checks that fail, which come before it.\<close>

fun fail_line :: "nat \<Rightarrow> 'w::len word fail \<Rightarrow> string" where
  "fail_line NELEMS (WrongCount n) =
     ''FAIL: Expected '' @ to_string NELEMS @ '' elements but consumed '' @ to_string (unat n) @ '' elements''"
| "fail_line NELEMS (WrongSum e s) =
     ''FAIL: Expected '' @ to_string (unat e) @ '' sum but got '' @ to_string (unat s) @ '' sum''"

text \<open>
  \<open>main\<close> of \<open>chan_bench.cpp\<close>: the loops over the consumers and, inside, the producers. \<open>fails\<close> are the
  checks of a configuration that fail (\<open>bench_report\<close>; none, by the theorem of that theory).
\<close>

definition chan_bench_configs :: "(nat \<times> nat) list" where
  "chan_bench_configs = concat (map (\<lambda>consCount. map (\<lambda>prodCount. (prodCount, consCount)) [1..<11]) [1..<11])"

definition chan_bench_header :: "nat \<Rightarrow> string option" where
  "chan_bench_header thread_count =
     map_option (\<lambda>s. ''chan_bench: '' @ to_string thread_count @ '' threads | '' @ s @ '' elements'')
       (formatWithCommas 10000000)"

definition overall_line :: "nat \<Rightarrow> string" where
  "overall_line overallDur =
     ''overall: '' @ fixed2 (double_round (double_round (of_nat overallDur) / 1000000)) @ '' sec''"

definition chan_bench_main ::
    "nat \<Rightarrow> (nat \<Rightarrow> nat \<Rightarrow> 'w::len word fail list) \<Rightarrow> (nat \<Rightarrow> nat \<Rightarrow> nat) \<Rightarrow> nat \<Rightarrow> string list option" where
  "chan_bench_main thread_count fails execDur overallDur =
     Option.bind (chan_bench_header thread_count) (\<lambda>header.
       map_option (\<lambda>lss. [header] @ concat lss @ [overall_line overallDur])
         (those (map (\<lambda>(p, c). map_option (\<lambda>l. map (fail_line 10000000) (fails p c) @ [l])
             (result_line formatWithCommas 10000000 p c (execDur p c))) chan_bench_configs)))"

text \<open>\<open>main\<close> of \<open>queue_bench.cpp\<close>, with one producer and one consumer.\<close>

definition queue_bench_header :: "string option" where
  "queue_bench_header =
     map_option (\<lambda>s. ''qu_mpsc SPSC bench: '' @ s @ '' elements'') (queue_bench_formatWithCommas 10000000)"

definition queue_bench_main :: "'w::len word fail list \<Rightarrow> nat \<Rightarrow> nat list \<Rightarrow> string list option" where
  "queue_bench_main fails execDur durations =
     Option.bind queue_bench_header (\<lambda>header.
       map_option (\<lambda>l.
           [header] @ map (fail_line 10000000) fails @
           [l, ''producer max: '' @ fixed2 (bench_durMs (maxProducerDuration durations)) @ '' ms''])
         (result_line queue_bench_formatWithCommas 10000000 1 1 execDur))"

text \<open>
  \<open>main\<close> of \<open>exec_st_roundtrip_bench.cpp\<close>: a table with a row for every number of producers and a column
  for every executor, of which \<open>run_bench\<close> prints a cell, and the totals. \<open>dur j p\<close> is the duration in
  milliseconds of executor \<open>j\<close> with \<open>p\<close> producers.
\<close>

definition roundtrip_cell :: "nat \<Rightarrow> string option" where
  "roundtrip_cell durMs = map_option (\<lambda>(s, _). '' '' @ s @ tab @ ''|'') (run_bench_report 1000000 durMs)"

definition roundtrip_row :: "(nat \<Rightarrow> nat \<Rightarrow> nat) \<Rightarrow> nat \<Rightarrow> string option" where
  "roundtrip_row dur prodCount =
     map_option (\<lambda>cells. ''| '' @ to_string prodCount @ '' prod'' @ tab @ ''|'' @ concat cells)
       (those (map (\<lambda>j. roundtrip_cell (dur j prodCount)) [0..<5]))"

definition roundtrip_totals :: "nat list \<Rightarrow> string" where
  "roundtrip_totals totals =
     concat (map (\<lambda>t. '' '' @ fixed2 (double_round (double_round (of_nat t) / 1000)) @ '' sec  '') totals)"

definition roundtrip_header :: "string list option" where
  "roundtrip_header =
     map_option (\<lambda>elements.
           [''ex_st_roundtrip_bench: sweep 1 to '' @ to_string 64 @ '' producers | '' @ elements @
              '' elements | output units: tasks/sec'',
            ''| prods  '' @ tab @ ''| ex_cpu(1)'' @ tab @ ''| ex_cpu_st'' @ tab @ ''| ex_braid'' @ tab @
              ''| ex_asio'' @ tab @ ''| tmc::mutex'' @ tab @ ''|'',
            ''| ------------- | ------------- | ------------- | ------------- | ------------- | ------------- |''])
       (roundtrip_bench_formatWithCommas 1000000)"

definition roundtrip_main :: "(nat \<Rightarrow> nat \<Rightarrow> nat) \<Rightarrow> string list option" where
  "roundtrip_main dur =
     Option.bind roundtrip_header (\<lambda>header.
       map_option (\<lambda>rows. header @ rows @ ['''', ''totals:'', roundtrip_totals (sweep_totals dur 64)])
         (those (map (roundtrip_row dur) [1..<65])))"

lemmas output_defs = chan_bench_main_def chan_bench_header_def queue_bench_main_def queue_bench_header_def
  roundtrip_main_def roundtrip_header_def

section \<open>The sweep visits every configuration once\<close>

lemma chan_bench_configs_all: "set chan_bench_configs = {1..10} \<times> {1..10}"
proof -
  have "(p, c) \<in> set chan_bench_configs \<longleftrightarrow> p \<in> {1..10} \<and> c \<in> {1..10}" for p c
    unfolding chan_bench_configs_def by (simp add: image_iff) auto
  then show ?thesis by auto
qed

lemma distinct_sweep:
  "distinct cs \<Longrightarrow> distinct ps \<Longrightarrow> distinct (concat (map (\<lambda>c. map (\<lambda>p. (p, c)) ps) cs))"
  by (induction cs) (auto simp: distinct_map inj_on_def)

lemma chan_bench_configs_once: "distinct chan_bench_configs" "length chan_bench_configs = 100"
  unfolding chan_bench_configs_def by (rule distinct_sweep; simp) (simp add: length_concat comp_def sum_list_triv)

lemma those_some: "(\<And>x. x \<in> set xs \<Longrightarrow> f x \<noteq> None) \<Longrightarrow> \<exists>ys. those (map f xs) = Some ys \<and> length ys = length xs"
proof (induction xs)
  case (Cons x xs)
  then obtain y ys where "f x = Some y" "those (map f xs) = Some ys" "length ys = length xs" by fastforce
  then show ?case by simp
qed simp

lemma those_each: "those (map f xs) = Some ys \<Longrightarrow> y \<in> set ys \<Longrightarrow> \<exists>x\<in>set xs. f x = Some y"
proof (induction xs arbitrary: ys)
  case (Cons x xs)
  then obtain z zs where "f x = Some z" "those (map f xs) = Some zs" "ys = z # zs" by (auto split: option.splits)
  then show ?case using Cons.IH [of zs] Cons.prems(2) by auto
qed simp

lemma result_line_some:
  "0 < execDur \<Longrightarrow> result_line formatWithCommas n p c execDur \<noteq> None \<and>
   result_line queue_bench_formatWithCommas n p c execDur \<noteq> None"
  by (simp add: result_line_def bench_elementsPerSec_def format_defs)

lemma bench_mains_print:
  fixes none :: "'w::len word fail list"
  assumes "\<And>p c. 0 < execDur p c"
  shows "\<exists>out. chan_bench_main threads (\<lambda>p c. [] :: 'w word fail list) execDur overall = Some out \<and> length out = 102"
    and "queue_bench_main none (execDur 1 1) durations \<noteq> None"
proof -
  define line where "line = (\<lambda>(p, c). map_option (\<lambda>l. map (fail_line 10000000) ([] :: 'w word fail list) @ [l])
    (result_line formatWithCommas 10000000 p c (execDur p c)))"
  have "line x \<noteq> None" for x
    using result_line_some [OF assms, of 10000000 "fst x" "snd x"] by (cases x) (auto simp: line_def)
  then obtain lss where lss: "those (map line chan_bench_configs) = Some lss" "length lss = 100"
    using those_some [of chan_bench_configs line] chan_bench_configs_once(2) by auto
  have "length (concat lss) = length lss"
  proof -
    have "length ls = 1" if mem: "ls \<in> set lss" for ls
    proof -
      obtain p c where "line (p, c) = Some ls" using those_each [OF lss(1) mem] by (metis surj_pair)
      then show ?thesis by (auto simp: line_def)
    qed
    then have "map length lss = map (\<lambda>_. 1) lss" by (intro map_cong) simp_all
    then show ?thesis by (simp add: length_concat sum_list_triv del: map_eq_conv)
  qed
  then show "\<exists>out. chan_bench_main threads (\<lambda>p c. [] :: 'w word fail list) execDur overall = Some out \<and> length out = 102"
    using lss by (simp add: output_defs format_defs line_def)
  show "queue_bench_main none (execDur 1 1) durations \<noteq> None"
    using result_line_some [OF assms, of 10000000 1 1 1 1] by (auto simp: output_defs format_defs)
qed

lemma roundtrip_main_prints:
  assumes "\<And>j p. 0 < dur j p \<and> dur j p < 2 ^ 53"
  shows "\<exists>out. roundtrip_main dur = Some out \<and> length out = 70"
proof -
  have "roundtrip_cell (dur j p) \<noteq> None" for j p
    using assms [of j p] by (simp add: roundtrip_cell_def run_bench_report_value)
  then have "roundtrip_row dur p \<noteq> None" for p
    using those_some [of "[0..<5]" "\<lambda>j. roundtrip_cell (dur j p)"] by (auto simp: roundtrip_row_def)
  then obtain rows where "those (map (roundtrip_row dur) [1..<65]) = Some rows" "length rows = 64"
    using those_some [of "[1..<65]" "roundtrip_row dur"] by auto
  then show ?thesis by (simp add: output_defs format_defs)
qed

section \<open>The printed rate\<close>

text \<open>Two roundings, of the divisor and of the quotient, move a quotient by a relative error of at most \<open>4 e\<close>.\<close>

lemma two_roundings:
  fixes x d n r e :: rat
  assumes "0 < x" and "0 \<le> n" and "0 < e" and "e \<le> 1/4"
    and d: "\<bar>d - x\<bar> \<le> x * e" and r: "\<bar>r - n / d\<bar> \<le> n / d * e"
  shows "\<bar>r - n / x\<bar> \<le> n / x * (4 * e)"
proof -
  define t where "t = d / x"
  have dx: "d = t * x" using assms(1) by (simp add: t_def)
  have "x * (1 - e) \<le> d" "d \<le> x * (1 + e)" using d by (auto simp: abs_le_iff algebra_simps)
  then have t: "1 - e \<le> t" "t \<le> 1 + e"
    using assms(1) by (simp_all add: t_def divide_le_eq le_divide_eq mult.commute)
  then have "0 < t" using assms(4) by linarith
  define q where "q = n / x"
  have q: "0 \<le> q" "n / d = q / t" using assms(1,2) by (simp_all add: q_def dx)
  have inv: "1 / t \<le> 1 + 2 * e" "1 - e \<le> 1 / t"
  proof -
    have "1 \<le> (1 + 2 * e) * (1 - e)"
    proof -
      have "0 \<le> e * (1 - 2 * e)" using assms(3,4) by (intro mult_nonneg_nonneg) auto
      then show ?thesis by (simp add: algebra_simps)
    qed
    also have "\<dots> \<le> (1 + 2 * e) * t" using t(1) assms(3) by (intro mult_left_mono) auto
    finally show "1 / t \<le> 1 + 2 * e" using \<open>0 < t\<close> by (simp add: divide_le_eq)
    have "(1 - e) * t \<le> (1 - e) * (1 + e)" using t(2) assms(4) by (intro mult_left_mono) auto
    also have "\<dots> \<le> 1" by (simp add: algebra_simps)
    finally show "1 - e \<le> 1 / t" using \<open>0 < t\<close> by (simp add: le_divide_eq)
  qed
  have "q / t \<le> q * (1 + 2 * e)" "q * (1 - e) \<le> q / t"
    using mult_left_mono [OF inv(1) q(1)] mult_left_mono [OF inv(2) q(1)] by simp_all
  moreover have "\<bar>r - q / t\<bar> \<le> q / t * e" using r q(2) by simp
  moreover have "q / t * e \<le> q * (1 + 2 * e) * e"
    using calculation(1) assms(3) by (intro mult_right_mono) auto
  moreover have "q * (1 + 2 * e) * e \<le> q * (2 * e)"
  proof -
    have "(1 + 2 * e) * e \<le> 2 * e" using assms(3,4) by (intro mult_right_mono) auto
    then show ?thesis using mult_left_mono [OF _ q(1)] by (simp add: mult.assoc)
  qed
  ultimately have "\<bar>r - q\<bar> \<le> q * (4 * e)"
    unfolding abs_le_iff by (simp add: algebra_simps)
  then show ?thesis by (simp add: q_def)
qed

lemma bench_elementsPerSec_close:
  assumes "NELEMS * 1000 < 2 ^ 53" and "0 < execDur" and "execDur < 2 ^ 53"
  shows "\<exists>n. bench_elementsPerSec NELEMS execDur = Some n \<and>
    \<bar>of_nat n - of_nat NELEMS * 1000000 / of_nat execDur\<bar> \<le>
      1 + of_nat NELEMS * 1000000 / of_nat execDur * (4 / 2 ^ 53 :: rat)"
proof -
  define x d r :: rat where "x = of_nat execDur / 1000" and "d = bench_durMs execDur"
    and "r = double_round (of_nat (NELEMS * 1000) / d)"
  have x: "0 < x" using assms(2) by (simp add: x_def)
  have d: "\<bar>d - x\<bar> \<le> x * (1 / 2 ^ 53)"
    using fp_round_error [of 53 x] x double_nat_exact [OF assms(3)]
    by (simp add: d_def bench_durMs_def x_def double_round_def)
  moreover have "x * (1 / 2 ^ 53) < x" using x by simp
  ultimately have dpos: "0 < d" unfolding abs_le_iff by linarith
  have r: "\<bar>r - of_nat (NELEMS * 1000) / d\<bar> \<le> of_nat (NELEMS * 1000) / d * (1 / 2 ^ 53)"
    using fp_round_error [of 53 "of_nat (NELEMS * 1000) / d"] dpos by (simp add: r_def double_round_def)
  define q :: rat where "q = of_nat NELEMS * 1000000 / of_nat execDur"
  have q: "of_nat (NELEMS * 1000) / x = q" by (simp add: x_def q_def)
  have "\<bar>r - of_nat (NELEMS * 1000) / x\<bar> \<le> of_nat (NELEMS * 1000) / x * (4 * (1 / 2 ^ 53))"
    by (rule two_roundings [OF x _ _ _ d r]) simp_all
  then have close: "\<bar>r - q\<bar> \<le> q * (4 / 2 ^ 53)" unfolding q by simp
  have "0 \<le> r"
  proof -
    have "0 \<le> of_nat (NELEMS * 1000) / d" using dpos by simp
    moreover have "of_nat (NELEMS * 1000) / d * (1 / 2 ^ 53) \<le> of_nat (NELEMS * 1000) / d" using dpos by (intro mult_left_le) simp_all
    ultimately show ?thesis using r unfolding abs_le_iff by linarith
  qed
  then have near: "\<bar>of_nat (nat (trunc r)) - r\<bar> \<le> 1"
    unfolding trunc_def by (simp add: abs_le_iff) linarith
  have "bench_elementsPerSec NELEMS execDur = Some (nat (trunc r))"
    using assms(2) double_nat_exact [OF assms(1)] by (simp add: bench_elementsPerSec_def r_def d_def)
  moreover have "\<bar>of_nat (nat (trunc r)) - q\<bar> \<le> 1 + q * (4 / 2 ^ 53)"
    using near close by linarith
  ultimately show ?thesis unfolding q_def by blast
qed

text \<open>For the ten million elements of the benchmarks the printed rate is off by less than 1.01.\<close>

lemma bench_rate:
  assumes "0 < execDur" and "execDur < 2 ^ 53"
  shows "\<exists>n. bench_elementsPerSec 10000000 execDur = Some n \<and>
    \<bar>of_nat n - 10000000000000 / of_nat execDur\<bar> \<le> (101 / 100 :: rat)"
proof -
  obtain n where n: "bench_elementsPerSec 10000000 execDur = Some n"
    and "\<bar>of_nat n - 10000000 * 1000000 / of_nat execDur\<bar> \<le>
      1 + 10000000 * 1000000 / of_nat execDur * (4 / 2 ^ 53 :: rat)"
    using bench_elementsPerSec_close [of 10000000 execDur] assms by auto
  moreover have "10000000 * 1000000 / of_nat execDur * (4 / 2 ^ 53 :: rat) \<le> 10000000 * 1000000 * (4 / 2 ^ 53)"
    using assms(1) by (intro mult_right_mono) (simp_all add: divide_le_eq)
  ultimately show ?thesis by (intro exI [of _ n]) simp
qed

end
