(* ===== verification/Topo_Print.thy ===== *)
theory Topo_Print
  imports Hybrid
begin

text \<open>
  The program \<open>examples/hwloc/topo.cpp\<close>: what it prints about the topology that the library reports,
  which is the parameter.
\<close>

section \<open>The program\<close>

datatype group_kind = Uses cpu_kind | EFFICIENCY2

record core_group =
  group_index :: nat
  numa_index :: nat
  group_kind :: group_kind
  smt_level :: nat
  core_indexes :: "nat list"

record machine =
  numa_count :: nat
  core_count :: nat
  pu_count :: nat
  is_hybrid :: bool
  cpu_kind_counts :: "nat list"
  core_groups :: "core_group list"

definition kind_name :: "group_kind \<Rightarrow> string" where
  "kind_name k =
     (if k = Uses PERFORMANCE then ''PERFORMANCE'' else if k = Uses EFFICIENCY1 then ''EFFICIENCY1'' else ''EFFICIENCY2'')"

definition group_lines :: "core_group \<Rightarrow> string list" where
  "group_lines g =
     [''Group '' @ to_string (group_index g) @ '':'',
      ''  NUMA index            : '' @ to_string (numa_index g),
      ''  CPU kind              : '' @ kind_name (group_kind g),
      ''  SMT level             : '' @ to_string (smt_level g),
      ''  physical core indexes : '' @ concat (map (\<lambda>idx. to_string idx @ '' '') (core_indexes g))]"

text \<open>\<open>cpu_kind_counts[0]\<close> of an empty vector is undefined (\<open>None\<close>); the other two reads are guarded.\<close>

definition kind_lines :: "nat list \<Rightarrow> string list option" where
  "kind_lines counts =
     (case counts of
        [] \<Rightarrow> None
      | c # _ \<Rightarrow> Some
          ([''# of CPU kinds          : '' @ to_string (length counts),
            ''# of PERFORMANCE cores  : '' @ to_string c] @
           (if 1 < length counts then [''# of EFFICIENCY1 cores  : '' @ to_string (counts ! 1)] else []) @
           (if 2 < length counts then [''# of EFFICIENCY2 cores  : '' @ to_string (counts ! 2)] else [])))"

definition topo_main :: "machine \<Rightarrow> string list option" where
  "topo_main topo =
     map_option (\<lambda>kls.
         [''# of NUMA nodes         : '' @ to_string (numa_count topo),
          ''# of physical processors: '' @ to_string (core_count topo),
          ''# of logical processors : '' @ to_string (pu_count topo), '''',
          ''Hybrid architecture?    : '' @ (if is_hybrid topo then ''true'' else ''false'')] @ kls @
         ['''', ''# of core groups        : '' @ to_string (length (core_groups topo))] @
         concat (map group_lines (core_groups topo)))
       (kind_lines (cpu_kind_counts topo))"

section \<open>What it prints\<close>

text \<open>
  One line for each kind up to the third, five for each group: kinds beyond the third are counted in the
  first line and have none of their own.
\<close>

lemma topo_main_lines:
  assumes "cpu_kind_counts topo \<noteq> []"
  shows "\<exists>ls. topo_main topo = Some ls \<and>
    length ls = 8 + min 3 (length (cpu_kind_counts topo)) + 5 * length (core_groups topo)"
proof -
  obtain c cs where c: "cpu_kind_counts topo = c # cs" using assms by (cases "cpu_kind_counts topo") auto
  have "length (concat (map group_lines gs)) = 5 * length gs" for gs
    by (induction gs) (simp_all add: group_lines_def)
  then show ?thesis
    by (cases cs; cases "tl cs") (auto simp: topo_main_def kind_lines_def c min_def)
qed

lemma topo_main_undefined: "topo_main topo = None \<longleftrightarrow> cpu_kind_counts topo = []"
  by (simp add: topo_main_def kind_lines_def split: list.split)

lemma kind_name_inj: "kind_name k = kind_name l \<longleftrightarrow> k = l"
proof -
  have all: "k = Uses PERFORMANCE \<or> k = Uses EFFICIENCY1 \<or> k = EFFICIENCY2" for k :: group_kind
    by (metis cpu_kind.exhaust group_kind.exhaust)
  show ?thesis using all [of k] all [of l] by (elim disjE) (simp_all add: kind_name_def)
qed

end
