(* ===== verification/Timer_Mem.thy ===== *)
theory Timer_Mem
  imports Hwloc_Servers
begin

text \<open>
  The program \<open>examples/asio/timer_mem_bench.cpp\<close>: many tasks that wait on timers, written in two ways:
  waiting on a vector of timers, or on tasks that each hold a timer. A timer expires at any time after its
  wait has begun (\<open>Expire\<close>). \<open>reserve\<close> of more elements than a vector can hold throws (\<open>None\<close>).
\<close>

section \<open>The program\<close>

datatype sleeper = Idle | Sleeping | Awake

record sleepers =
  timers :: "sleeper list"
  begun :: nat                  \<comment> \<open>the waits that \<open>spawn_many\<close> has begun\<close>
  returned :: "int option"

definition sleepers_make :: "nat \<Rightarrow> nat \<Rightarrow> sleepers option" where
  "sleepers_make max_size Count =
     (if Count \<le> max_size then Some \<lparr>timers = replicate Count Idle, begun = 0, returned = None\<rparr> else None)"

datatype sleeper_agent = Begin nat | Expire nat | Resume_Main

text \<open>\<open>wait_on_timers\<close>: \<open>spawn_many\<close> begins the waits itself, one after the other.\<close>

definition begin_wait :: "nat \<Rightarrow> sleepers \<Rightarrow> sleepers option" where
  "begin_wait i s =
     (if i = begun s \<and> i < length (timers s)
      then Some (s\<lparr>timers := (timers s)[i := Sleeping], begun := Suc i\<rparr>) else None)"

text \<open>\<open>wait_on_tasks\<close>: it posts the tasks, which then begin their waits in any order.\<close>

definition begin_task :: "nat \<Rightarrow> sleepers \<Rightarrow> sleepers option" where
  "begin_task i s =
     (if i < length (timers s) \<and> timers s ! i = Idle
      then Some (s\<lparr>timers := (timers s)[i := Sleeping], begun := Suc (begun s)\<rparr>) else None)"

definition expire :: "nat \<Rightarrow> sleepers \<Rightarrow> sleepers option" where
  "expire i s =
     (if i < length (timers s) \<and> timers s ! i = Sleeping
      then Some (s\<lparr>timers := (timers s)[i := Awake]\<rparr>) else None)"

definition resume_main :: "sleepers \<Rightarrow> sleepers option" where
  "resume_main s =
     (if returned s = None \<and> list_all (\<lambda>t. t = Awake) (timers s) then Some (s\<lparr>returned := Some 0\<rparr>) else None)"

fun wait_on :: "(nat \<Rightarrow> sleepers \<Rightarrow> sleepers option) \<Rightarrow> sleeper_agent \<Rightarrow> sleepers \<Rightarrow> sleepers option" where
  "wait_on bgn (Begin i) s = bgn i s"
| "wait_on bgn (Expire i) s = expire i s"
| "wait_on bgn Resume_Main s = resume_main s"

definition wait_on_timers :: "sleeper_agent \<Rightarrow> sleepers \<Rightarrow> sleepers option" where
  "wait_on_timers = wait_on begin_wait"

definition wait_on_tasks :: "sleeper_agent \<Rightarrow> sleepers \<Rightarrow> sleepers option" where
  "wait_on_tasks = wait_on begin_task"

text \<open>
  \<open>main\<close>: a debug build fixes the number of tasks, a release build reads it from the command line, of
  which \<open>argv\<close> holds the arguments after the name. \<open>size_t\<close> has the bits of \<open>'w\<close>.
\<close>

datatype timer_program = Usage string | Run "sleepers option"

definition timer_mem_main :: "bool \<Rightarrow> ('w::len word \<Rightarrow> sleepers option) \<Rightarrow> string list \<Rightarrow> timer_program" where
  "timer_mem_main ndebug waiting argv =
     (if \<not> ndebug then Run (waiting 30)
      else case argv of
        [arg] \<Rightarrow> Run (waiting (word_of_int (atoi arg)))
      | _ \<Rightarrow> Usage ''Usage: asio_timer_mem_bench <number of tasks>'')"

section \<open>Both ways wait for all of the timers\<close>

definition timers_inv :: "nat \<Rightarrow> sleepers \<Rightarrow> bool" where
  "timers_inv n s \<longleftrightarrow> length (timers s) = n \<and> begun s \<le> n \<and>
     (\<forall>i<n. timers s ! i = Idle \<longleftrightarrow> begun s \<le> i) \<and>
     (returned s \<noteq> None \<longrightarrow> list_all (\<lambda>t. t = Awake) (timers s))"

definition tasks_inv :: "nat \<Rightarrow> sleepers \<Rightarrow> bool" where
  "tasks_inv n s \<longleftrightarrow> length (timers s) = n \<and>
     (returned s \<noteq> None \<longrightarrow> list_all (\<lambda>t. t = Awake) (timers s))"

fun nap_work :: "sleeper \<Rightarrow> nat" where
  "nap_work Idle = 2"
| "nap_work Sleeping = 1"
| "nap_work Awake = 0"

definition sleepers_work :: "sleepers \<Rightarrow> nat" where
  "sleepers_work s = sum_list (map nap_work (timers s)) + of_bool (returned s = None)"

definition all_awake :: "sleepers \<Rightarrow> bool" where
  "all_awake s \<longleftrightarrow> list_all (\<lambda>t. t = Awake) (timers s) \<and> returned s \<noteq> None"

lemmas sleepers_defs = begin_wait_def begin_task_def expire_def resume_main_def

lemma nap_work_update:
  "i < length ts \<Longrightarrow> nap_work (ts ! i) = Suc (nap_work t) \<Longrightarrow>
   sum_list (map nap_work (ts[i := t])) < sum_list (map nap_work ts)"
  using sum_map_update [of i ts nap_work t] by simp

lemma not_yet_returned:
  "returned s \<noteq> None \<longrightarrow> list_all (\<lambda>t. t = Awake) (timers s) \<Longrightarrow> i < length (timers s) \<Longrightarrow>
   timers s ! i \<noteq> Awake \<Longrightarrow> returned s = None"
  by (auto simp: list_all_length)

lemma timers_keep:
  assumes inv: "timers_inv n s" and step: "wait_on_timers k s = Some t"
  shows "timers_inv n t \<and> sleepers_work t < sleepers_work s"
proof (cases k)
  case (Begin i)
  then have i: "i = begun s" "i < length (timers s)"
    and t: "t = s\<lparr>timers := (timers s)[i := Sleeping], begun := Suc i\<rparr>"
    using step by (auto simp: wait_on_timers_def begin_wait_def split: if_splits)
  have idle: "timers s ! i = Idle" "length (timers s) = n" using inv i by (auto simp: timers_inv_def)
  have "returned s = None" by (rule not_yet_returned [of s i]) (use inv i idle in \<open>auto simp: timers_inv_def\<close>)
  moreover have "\<forall>j<n. timers t ! j = Idle \<longleftrightarrow> begun t \<le> j"
    using inv i idle by (auto simp: t timers_inv_def nth_list_update)
  ultimately show ?thesis
    using inv i idle nap_work_update [of i "timers s" Sleeping]
    by (auto simp: timers_inv_def sleepers_work_def t)
next
  case (Expire i)
  then have i: "i < length (timers s)" "timers s ! i = Sleeping" and t: "t = s\<lparr>timers := (timers s)[i := Awake]\<rparr>"
    using step by (auto simp: wait_on_timers_def expire_def split: if_splits)
  have "returned s = None" using inv i not_yet_returned [of s i] by (simp add: timers_inv_def)
  moreover have "\<forall>j<n. timers t ! j = Idle \<longleftrightarrow> begun t \<le> j"
    using inv i by (auto simp: t timers_inv_def nth_list_update)
  ultimately show ?thesis
    using inv i nap_work_update [of i "timers s" Awake]
    by (auto simp: timers_inv_def sleepers_work_def t)
next
  case Resume_Main
  then show ?thesis
    using inv step by (auto simp: wait_on_timers_def resume_main_def timers_inv_def sleepers_work_def split: if_splits)
qed

lemma tasks_keep:
  assumes inv: "tasks_inv n s" and step: "wait_on_tasks k s = Some t"
  shows "tasks_inv n t \<and> sleepers_work t < sleepers_work s"
proof (cases k)
  case (Begin i)
  then have i: "i < length (timers s)" "timers s ! i = Idle"
    and t: "t = s\<lparr>timers := (timers s)[i := Sleeping], begun := Suc (begun s)\<rparr>"
    using step by (auto simp: wait_on_tasks_def begin_task_def split: if_splits)
  then have "returned s = None" using inv not_yet_returned [of s i] by (simp add: tasks_inv_def)
  then show ?thesis
    using inv i nap_work_update [of i "timers s" Sleeping] by (auto simp: tasks_inv_def sleepers_work_def t)
next
  case (Expire i)
  then have i: "i < length (timers s)" "timers s ! i = Sleeping" and t: "t = s\<lparr>timers := (timers s)[i := Awake]\<rparr>"
    using step by (auto simp: wait_on_tasks_def expire_def split: if_splits)
  then have "returned s = None" using inv not_yet_returned [of s i] by (simp add: tasks_inv_def)
  then show ?thesis
    using inv i nap_work_update [of i "timers s" Awake] by (auto simp: tasks_inv_def sleepers_work_def t)
next
  case Resume_Main
  then show ?thesis
    using inv step by (auto simp: wait_on_tasks_def resume_main_def tasks_inv_def sleepers_work_def split: if_splits)
qed

lemma sleepers_stuck:
  assumes "\<And>i. i < length (timers s) \<Longrightarrow> timers s ! i \<noteq> Idle" and "stuck (wait_on bgn) s"
  shows "all_awake s"
proof -
  have "timers s ! i = Awake" if "i < length (timers s)" for i
    using stuckD [OF assms(2), of "Expire i"] assms(1) [OF that] that
    by (cases "timers s ! i") (auto simp: expire_def)
  then have "list_all (\<lambda>t. t = Awake) (timers s)" by (simp add: list_all_length)
  then show ?thesis
    using stuckD [OF assms(2), of Resume_Main] by (cases "returned s") (auto simp: resume_main_def all_awake_def)
qed

lemma timers_progress:
  assumes inv: "timers_inv n s" and stuck: "stuck wait_on_timers s"
  shows "all_awake s"
proof (rule sleepers_stuck [OF _ stuck [unfolded wait_on_timers_def]])
  have "\<not> begun s < n"
    using stuckD [OF stuck, of "Begin (begun s)"] inv by (auto simp: wait_on_timers_def begin_wait_def timers_inv_def)
  then show "timers s ! i \<noteq> Idle" if "i < length (timers s)" for i using inv that by (auto simp: timers_inv_def)
qed

lemma tasks_progress:
  assumes stuck: "stuck wait_on_tasks s"
  shows "all_awake s"
proof (rule sleepers_stuck [OF _ stuck [unfolded wait_on_tasks_def]])
  show "timers s ! i \<noteq> Idle" if "i < length (timers s)" for i
    using stuckD [OF stuck, of "Begin i"] that by (auto simp: wait_on_tasks_def begin_task_def)
qed

interpretation timers_run: terminating_system wait_on_timers "timers_inv n" sleepers_work all_awake
  for n
  by unfold_locales (auto dest: timers_keep timers_progress)

interpretation tasks_run: terminating_system wait_on_tasks "tasks_inv n" sleepers_work all_awake
  for n
  by unfold_locales (auto dest: tasks_keep tasks_progress)

text \<open>
  Either way the program ends after at most \<open>2 n + 1\<close> steps, has returned \<open>0\<close> only when every timer has
  expired, and can always be brought to that point.
\<close>

lemma sleepers_wait_for_all:
  assumes "sleepers_make max_size n = Some s0"
    and "run_steps wait_on_timers ks s0 = Some s \<or> run_steps wait_on_tasks ks s0 = Some s"
  shows "length ks \<le> 2 * n + 1 \<and> (returned s \<noteq> None \<longrightarrow> all_awake s \<and> length (timers s) = n)"
proof -
  have s0: "s0 = \<lparr>timers = replicate n Idle, begun = 0, returned = None\<rparr>"
    using assms(1) by (auto simp: sleepers_make_def split: if_splits)
  have w: "sleepers_work s0 = 2 * n + 1" by (simp add: s0 sleepers_work_def sum_list_replicate)
  have i: "timers_inv n s0" "tasks_inv n s0" by (auto simp: s0 timers_inv_def tasks_inv_def)
  from assms(2) show ?thesis
  proof
    assume run: "run_steps wait_on_timers ks s0 = Some s"
    then show ?thesis
      using timers_run.run_bound [OF i(1) run] timers_run.run_inv [OF i(1) run] w
      by (auto simp: timers_inv_def all_awake_def)
  next
    assume run: "run_steps wait_on_tasks ks s0 = Some s"
    then show ?thesis
      using tasks_run.run_bound [OF i(2) run] tasks_run.run_inv [OF i(2) run] w
      by (auto simp: tasks_inv_def all_awake_def)
  qed
qed

lemma sleepers_return:
  assumes "sleepers_make max_size n = Some s0"
  shows "\<exists>ks s. run_steps wait_on_timers ks s0 = Some s \<and> returned s \<noteq> None"
    and "\<exists>ks s. run_steps wait_on_tasks ks s0 = Some s \<and> returned s \<noteq> None"
proof -
  have s0: "s0 = \<lparr>timers = replicate n Idle, begun = 0, returned = None\<rparr>"
    using assms by (auto simp: sleepers_make_def split: if_splits)
  have i: "timers_inv n s0" "tasks_inv n s0" by (auto simp: s0 timers_inv_def tasks_inv_def)
  show "\<exists>ks s. run_steps wait_on_timers ks s0 = Some s \<and> returned s \<noteq> None"
    using timers_run.reaches_stuck [OF i(1)] timers_run.maximal_final [OF i(1)] by (metis all_awake_def)
  show "\<exists>ks s. run_steps wait_on_tasks ks s0 = Some s \<and> returned s \<noteq> None"
    using tasks_run.reaches_stuck [OF i(2)] tasks_run.maximal_final [OF i(2)] by (metis all_awake_def)
qed

text \<open>A negative argument wraps to a number of tasks that no vector can hold: the exception ends the program.\<close>

lemma negative_count:
  assumes "max_size < 2 ^ (LENGTH('w) - 1)" and "- (2 ^ (LENGTH('w) - 1)) \<le> atoi arg" and "atoi arg < 0"
  shows "timer_mem_main True (\<lambda>n :: 'w::len word. sleepers_make max_size (unat n)) [arg] = Run None"
proof -
  define h :: int where "h = 2 ^ (LENGTH('w) - Suc 0)"
  have p: "2 ^ LENGTH('w) = 2 * h" "0 < h"
    unfolding h_def by (metis len_gt_0 power_Suc Suc_diff_1 One_nat_def) simp
  have "(atoi arg + 2 ^ LENGTH('w)) mod 2 ^ LENGTH('w) = atoi arg + 2 ^ LENGTH('w)"
    by (rule mod_pos_pos_trivial) (use assms(2,3) p in \<open>simp_all add: h_def [symmetric]\<close>)
  then have "uint (word_of_int (atoi arg) :: 'w word) = atoi arg + 2 ^ LENGTH('w)"
    by (simp add: uint_word_of_int)
  then have "h \<le> int (unat (word_of_int (atoi arg) :: 'w word))"
    using assms(2) p by (simp add: h_def [symmetric])
  moreover have "int max_size < h" using assms(1) by (simp add: h_def)
  ultimately have "max_size < unat (word_of_int (atoi arg) :: 'w word)" by linarith
  then show ?thesis by (simp add: timer_mem_main_def sleepers_make_def)
qed

end
