(* ===== verification/Program_Output.thy ===== *)
theory Program_Output
  imports Skynet Pipeline_App Pipeline_Fifo_App Bench_Report Hwloc_Servers
begin

text \<open>
  The \<open>main\<close> functions of \<open>fib.cpp\<close>, \<open>skynet.cpp\<close> and the two pipeline programs: their command lines and
  everything they print, given the results that \<open>Skynet\<close>, \<open>Pipeline_App\<close> and \<open>Pipeline_Fifo_App\<close> compute.
  Measured durations are arguments.
\<close>

section \<open>Fibonacci\<close>

definition top_fib :: "('w::len word \<Rightarrow> 'w word) \<Rightarrow> 'w word \<Rightarrow> string" where
  "top_fib fibv n = to_string (unat (fibv n))"

definition NRUNS :: nat where
  "NRUNS = 1"

text \<open>
  What it prints and returns. A debug build fixes \<open>n\<close>, a release build reads it from the command line, of which
  \<open>argv\<close> holds the arguments after the name.
\<close>

definition fib_main :: "bool \<Rightarrow> ('w::len word \<Rightarrow> 'w word) \<Rightarrow> nat \<Rightarrow> string list \<Rightarrow> string list \<times> int" where
  "fib_main ndebug fibv totalTimeUs argv =
     (let body = (\<lambda>n. (map (\<lambda>_. top_fib fibv n) [0..<NRUNS] @ [to_string (totalTimeUs div NRUNS) @ '' us''], 0)) in
      if \<not> ndebug then body 30
      else case argv of
        [arg] \<Rightarrow> body (word_of_int (atoi arg))
      | _ \<Rightarrow> ([''Usage: fib <n-th fibonacci number requested>''], - 1))"

section \<open>Skynet\<close>

text \<open>The lines of \<open>loop_skynet\<close>; the durations are those of its five outer iterations.\<close>

fun skynet_lines :: "'w::len word line list \<Rightarrow> nat list \<Rightarrow> string list" where
  "skynet_lines (WrongResult c # ls) ds = to_string (unat c) # skynet_lines ls ds"
| "skynet_lines (Iterations n # ls) (execDur # ds) =
     (to_string n @ '' skynet iterations in '' @ to_string execDur @ '' us'') # skynet_lines ls ds"
| "skynet_lines _ _ = []"

definition skynet_main :: "(nat \<Rightarrow> nat \<Rightarrow> 'w::len word) \<Rightarrow> nat list \<Rightarrow> string list \<times> int" where
  "skynet_main counts durations =
     (''Running skynet benchmark x1000...'' # skynet_lines (loop_skynet counts) durations, 0)"

section \<open>The pipelines\<close>

text \<open>\<open>%f\<close> of a non-negative \<open>double\<close>: six decimals.\<close>

definition fixed6 :: "rat \<Rightarrow> string" where
  "fixed6 q =
     (let n = nat (round_half_even (q * 1000000)) in
      to_string (n div 1000000) @ ''.'' @ concat (map (\<lambda>k. to_string (n div 10 ^ k mod 10)) [5, 4, 3, 2, 1, 0]))"

definition pipeline_banner :: "nat \<Rightarrow> string" where
  "pipeline_banner NELEMS = ''testing '' @ to_string NELEMS @ '' items through 5-stage pipeline...''"

definition pipeline_report :: "'w::len word \<times> 'w word \<Rightarrow> nat \<Rightarrow> nat \<Rightarrow> string list option" where
  "pipeline_report = (\<lambda>(acc, cnt) constructTime processTime.
     map_option (\<lambda>s.
         [pipeline_banner 1000000, ''element sum: '' @ to_string (unat acc), ''element count: '' @ to_string (unat cnt),
          ''construct time: '' @ fixed6 (double_round (of_nat constructTime)) @ '' ms'',
          ''process time: '' @ fixed6 (double_round (of_nat processTime)) @ '' ms'',
          s @ '' elements/sec''])
       (formatElementsPerSec processTime))"

definition fifo_report :: "'w::len word \<times> 'w word \<Rightarrow> nat \<Rightarrow> nat \<Rightarrow> string list option" where
  "fifo_report = (\<lambda>(acc, cnt) constructTime processTime.
     map_option (\<lambda>s.
         [pipeline_banner 1000000, ''element sum: '' @ to_string (unat acc), ''element count: '' @ to_string (unat cnt),
          ''construct time: '' @ fixed6 (double_round (of_nat constructTime)) @ '' ms'',
          ''process time: '' @ fixed6 (double_round (of_nat processTime)) @ '' ms'',
          s @ '' elements/sec''])
       (fifo_formatElementsPerSec processTime))"

section \<open>What they print\<close>

text \<open>
  On 64 bits, \<open>fib n\<close> prints the decimal digits of the \<open>n\<close>-th Fibonacci number for every \<open>n\<close> up to 93, whatever
  order its coroutines ran in (\<open>fib.call_result\<close> gives their result).
\<close>

lemma fib_main_prints:
  fixes fibv :: "64 word \<Rightarrow> 64 word"
  assumes "\<And>m. \<exists>paths. run_steps (frame_step fib_body fib_combine) paths (Call m) = Some (Ret (fibv m))"
    and "n \<le> 93"
  shows "fib_main True fibv us [to_string n] = ([to_string (fibonacci n), to_string us @ '' us''], 0)"
proof -
  have v: "fibv m = of_nat (fibonacci (unat m))" for m
  proof -
    obtain paths where run: "run_steps (frame_step fib_body fib_combine) paths (Call m) = Some (Ret (fibv m))"
      using assms(1) by blast
    have "stuck (frame_step fib_body fib_combine) (Ret (fibv m))"
      unfolding stuck_def
    proof
      show "frame_step fib_body fib_combine k (Ret (fibv m)) = None" for k by (cases k) simp_all
    qed
    then show ?thesis using fib.call_result [OF _ run] by simp
  qed
  have "n < 2 ^ 64" using assms(2) by simp
  moreover have "fibonacci n < 2 ^ 64" using fibonacci_mono [OF assms(2)] by (simp add: fibonacci_93)
  ultimately have "unat (fibv (of_nat n)) = fibonacci n"
    by (simp add: v unsigned_of_nat take_bit_nat_eq_self)
  then show ?thesis by (simp add: fib_main_def top_fib_def NRUNS_def atoi_to_string)
qed

text \<open>The result of five times a thousand correct runs is five timing lines.\<close>

lemma skynet_lines_silent:
  "skynet_lines (replicate (length ds) (Iterations n) :: 'w::len word line list) ds =
     map (\<lambda>us. to_string n @ '' skynet iterations in '' @ to_string us @ '' us'') ds"
  by (induction ds) simp_all

lemma skynet_main_prints:
  assumes "length durations = 5"
  shows "skynet_main (\<lambda>_ _. EXPECTED_RESULT :: 'w::len word) durations =
     (''Running skynet benchmark x1000...'' #
        map (\<lambda>us. to_string 1000 @ '' skynet iterations in '' @ to_string us @ '' us'') durations, 0)"
  using skynet_lines_silent [of durations 1000, where ?'w = 'w] assms
  by (simp only: skynet_main_def loop_skynet_silent)

text \<open>
  With the sum and the count of \<open>pipeline_cpp_output\<close> the programs print what their comments announce. The two
  print the same.
\<close>

lemma fixed6_nat: "fixed6 (of_nat n) = to_string n @ ''.000000''"
proof -
  have "round_half_even (of_nat n * 1000000) = int n * 1000000"
    using round_half_even_int [of "int n * 1000000"] by simp
  then have n: "nat (round_half_even (of_nat n * 1000000)) = n * 1000000" by (simp add: nat_mult_distrib)
  have z: "n * 1000000 div 10 ^ k mod 10 = 0" if k: "k < 6" for k
  proof -
    have d: "(10 :: nat) ^ k * 10 ^ (5 - k) = 10 ^ 5" using k by (simp flip: power_add)
    have "n * 1000000 = 10 ^ k * (n * 10 ^ (5 - k) * 10)"
      by (simp add: mult.left_commute [of "10 ^ k"] mult.assoc [symmetric] d)
    then have "n * 1000000 div 10 ^ k = n * 10 ^ (5 - k) * 10" by (simp only:) simp
    then show ?thesis by (simp only: mod_mult_self2_is_0)
  qed
  show ?thesis using z [of 0] z [of 1] z [of 2] z [of 3] z [of 4] z [of 5] by (simp add: fixed6_def n Let_def to_string.simps [of 0] char_of_def bit_0)
qed

lemma size_t_values:
  assumes "20 \<le> LENGTH('w::len)"
  shows "unat (999998 :: 'w word) = 999998" and "unat (1000000 :: 'w word) = 1000000"
proof -
  have "(2 :: nat) ^ 20 \<le> 2 ^ LENGTH('w)" using assms by (intro power_increasing) simp_all
  then have "(1000000 :: nat) < 2 ^ LENGTH('w)" by simp
  then show "unat (999998 :: 'w word) = 999998" "unat (1000000 :: 'w word) = 1000000"
    by (simp_all add: take_bit_nat_eq_self)
qed

lemma pipeline_report_value:
  assumes "0 < processTime" and "processTime < 2 ^ 53" and "constructTime < 2 ^ 53" and "20 \<le> LENGTH('w::len)"
  shows "pipeline_report (999998 :: 'w word, 1000000) constructTime processTime = Some
      [''testing '' @ to_string 1000000 @ '' items through 5-stage pipeline...'',
       ''element sum: '' @ to_string 999998, ''element count: '' @ to_string 1000000,
       ''construct time: '' @ to_string constructTime @ ''.000000 ms'',
       ''process time: '' @ to_string processTime @ ''.000000 ms'',
       with_commas (to_string (1000000 * 1000 div processTime)) @ '' elements/sec'']"
proof -
  have "elementsPerSec 1000000 processTime = Some (1000000 * 1000 div processTime)"
    using assms(1,2) by (intro elementsPerSec_exact) auto
  then have "formatElementsPerSec processTime = Some (with_commas (to_string (1000000 * 1000 div processTime)))"
    by (simp add: formatElementsPerSec_def Let_def comma_loop_with_commas)
  then show ?thesis
    unfolding pipeline_report_def prod.case size_t_values [OF assms(4)]
    using assms(2,3) by (simp add: double_nat_exact fixed6_nat pipeline_banner_def)
qed

lemma fifo_report_same: "fifo_report x constructTime processTime = pipeline_report x constructTime processTime"
  by (simp add: fifo_report_def pipeline_report_def formatElementsPerSec_def fifo_formatElementsPerSec_def split: prod.split)

end
