(* ===== verification/Listening.thy ===== *)
theory Listening
  imports Hwloc_Servers
begin

text \<open>
  The set-up of the acceptors in \<open>hwloc/asio_thread_per_core.cpp\<close> and \<open>hwloc/asio_server_per_cache.cpp\<close>,
  with its errors: several workers bind to the same port, which the kernel allows only to sockets that have
  asked for it. The kernel is a parameter. The constructor with which \<open>http_server.cpp\<close> and \<open>http_skynet.cpp\<close> get their
  acceptors and the copies of the accept loop are here as well.
\<close>

section \<open>The kernel\<close>

text \<open>
  The operations on sockets. \<open>setsockopt\<close> reports errors, but its callers ignore the result; a failing
  \<open>bind\<close> or \<open>listen\<close> (\<open>None\<close>) makes Asio throw.
\<close>

record 'k kernel_ops =
  kn_socket :: "'k \<Rightarrow> nat \<times> 'k"
  kn_setsockopt :: "nat \<Rightarrow> 32 word \<Rightarrow> 'k \<Rightarrow> 'k"
  kn_bind :: "nat \<Rightarrow> nat \<Rightarrow> 'k \<Rightarrow> 'k option"
  kn_listen :: "nat \<Rightarrow> 'k \<Rightarrow> 'k option"
  kn_close :: "nat \<Rightarrow> 'k \<Rightarrow> 'k"

text \<open>
  A socket has a flag (it may share its port) and the port it is bound to. The flag is set by the one
  option \<open>reuseport\<close>; other numbers leave it alone. A port can be bound when every socket that is bound
  to it, and the new one, share.
\<close>

type_synonym sockets = "nat \<rightharpoonup> bool \<times> nat option"

definition may_bind :: "sockets \<Rightarrow> nat \<Rightarrow> nat \<Rightarrow> bool" where
  "may_bind m fd p \<longleftrightarrow> (\<forall>h r. m h = Some (r, Some p) \<longrightarrow> r \<and> (\<exists>q. m fd = Some (True, q)))"

definition kernel_laws :: "'k kernel_ops \<Rightarrow> ('k \<Rightarrow> sockets) \<Rightarrow> 32 word \<Rightarrow> bool" where
  "kernel_laws K socks reuseport \<longleftrightarrow>
     (\<forall>k. case kn_socket K k of (fd, k') \<Rightarrow> socks k fd = None \<and> socks k' = (socks k)(fd \<mapsto> (False, None))) \<and>
     (\<forall>k fd opt r q. socks k fd = Some (r, q) \<longrightarrow>
        socks (kn_setsockopt K fd opt k) = (socks k)(fd \<mapsto> (r \<or> opt = reuseport, q))) \<and>
     (\<forall>k fd p r. socks k fd = Some (r, None) \<longrightarrow>
        (case kn_bind K fd p k of
           None \<Rightarrow> \<not> may_bind (socks k) fd p
         | Some k' \<Rightarrow> may_bind (socks k) fd p \<and> socks k' = (socks k)(fd \<mapsto> (r, Some p)))) \<and>
     (\<forall>k fd r p. socks k fd = Some (r, Some p) \<longrightarrow> (\<exists>k'. kn_listen K fd k = Some k' \<and> socks k' = socks k)) \<and>
     (\<forall>k fd. socks (kn_close K fd k) = (socks k)(fd := None))"

lemma kernel_socket:
  "kernel_laws K socks P \<Longrightarrow> kn_socket K k = (fd, k') \<Longrightarrow>
   socks k fd = None \<and> socks k' = (socks k)(fd \<mapsto> (False, None))"
  unfolding kernel_laws_def by (auto dest!: spec [of _ k])

lemma kernel_setsockopt:
  "kernel_laws K socks P \<Longrightarrow> socks k fd = Some (r, q) \<Longrightarrow>
   socks (kn_setsockopt K fd opt k) = (socks k)(fd \<mapsto> (r \<or> opt = P, q))"
  unfolding kernel_laws_def by blast

lemma kernel_bind:
  assumes "kernel_laws K socks P" and "socks k fd = Some (r, None)"
  shows "kn_bind K fd p k = None \<Longrightarrow> \<not> may_bind (socks k) fd p"
    and "kn_bind K fd p k = Some k' \<Longrightarrow> may_bind (socks k) fd p \<and> socks k' = (socks k)(fd \<mapsto> (r, Some p))"
proof -
  have law: "case kn_bind K fd p k of
      None \<Rightarrow> \<not> may_bind (socks k) fd p
    | Some k' \<Rightarrow> may_bind (socks k) fd p \<and> socks k' = (socks k)(fd \<mapsto> (r, Some p))"
    using assms unfolding kernel_laws_def by blast
  then show "kn_bind K fd p k = None \<Longrightarrow> \<not> may_bind (socks k) fd p" by simp
  from law show "kn_bind K fd p k = Some k' \<Longrightarrow> may_bind (socks k) fd p \<and> socks k' = (socks k)(fd \<mapsto> (r, Some p))"
    by simp
qed

lemma kernel_listen:
  "kernel_laws K socks P \<Longrightarrow> socks k fd = Some (r, Some p) \<Longrightarrow>
   \<exists>k'. kn_listen K fd k = Some k' \<and> socks k' = socks k"
  unfolding kernel_laws_def by blast

lemma kernel_close: "kernel_laws K socks P \<Longrightarrow> socks (kn_close K fd k) = (socks k)(fd := None)"
  unfolding kernel_laws_def by blast

text \<open>A kernel: the number of descriptors handed out, and the sockets.\<close>

definition table_kernel :: "32 word \<Rightarrow> (nat \<times> sockets) kernel_ops" where
  "table_kernel reuseport =
     \<lparr>kn_socket = (\<lambda>(n, m). (n, (Suc n, m(n \<mapsto> (False, None))))),
      kn_setsockopt = (\<lambda>fd opt (n, m). (n, case m fd of
          Some (r, q) \<Rightarrow> m(fd \<mapsto> (r \<or> opt = reuseport, q)) | None \<Rightarrow> m)),
      kn_bind = (\<lambda>fd p (n, m).
        (case m fd of
           None \<Rightarrow> None
         | Some (r, q) \<Rightarrow>
             if list_all (\<lambda>h. case m h of Some (r', Some p') \<Rightarrow> p' = p \<longrightarrow> r' \<and> r | _ \<Rightarrow> True) [0..<n]
             then Some (n, m(fd \<mapsto> (r, Some p))) else None)),
      kn_listen = (\<lambda>fd s. Some s),
      kn_close = (\<lambda>fd (n, m). (n, m(fd := None)))\<rparr>"

definition table_sockets :: "nat \<times> sockets \<Rightarrow> sockets" where
  "table_sockets = (\<lambda>(n, m) h. if h < n then m h else None)"

lemma table_bind:
  assumes "table_sockets (n, m) fd = Some (r, None)"
  shows "list_all (\<lambda>h. case m h of Some (r', Some p') \<Rightarrow> p' = p \<longrightarrow> r' \<and> r | _ \<Rightarrow> True) [0..<n] =
    may_bind (table_sockets (n, m)) fd p"
  using assms by (auto simp: table_sockets_def may_bind_def list_all_iff split: option.splits if_splits)

lemma table_kernel_laws: "kernel_laws (table_kernel P) table_sockets P"
proof -
  have "case kn_bind (table_kernel P) fd p k of
      None \<Rightarrow> \<not> may_bind (table_sockets k) fd p
    | Some k' \<Rightarrow> may_bind (table_sockets k) fd p \<and> table_sockets k' = (table_sockets k)(fd \<mapsto> (r, Some p))"
    if fd: "table_sockets k fd = Some (r, None)" for k fd p r
  proof -
    obtain n m where k: "k = (n, m)" by (cases k)
    have m: "fd < n" "m fd = Some (r, None)" using fd by (auto simp: k table_sockets_def split: if_splits)
    show ?thesis
      using table_bind [of n m fd r p] fd m by (auto simp: k table_kernel_def table_sockets_def fun_eq_iff)
  qed
  then show ?thesis
    unfolding kernel_laws_def
    by (auto simp: table_kernel_def table_sockets_def fun_eq_iff split: if_splits)
qed

section \<open>The set-up\<close>

datatype setup_error = BindFailed | ListenFailed

text \<open>
  \<open>accept\<close> up to its loop: \<open>open\<close>, \<open>setsockopt\<close> with its result ignored, \<open>bind\<close> and \<open>listen\<close>. When one of
  them throws the acceptor is destroyed, which closes its socket.
\<close>

definition thread_per_core_setup ::
    "'k kernel_ops \<Rightarrow> 32 word \<Rightarrow> nat \<Rightarrow> 'k \<Rightarrow> (setup_error + nat) \<times> 'k" where
  "thread_per_core_setup K reuse port k =
     (let (fd, k) = kn_socket K k; k = kn_setsockopt K fd reuse k in
      case kn_bind K fd port k of
        None \<Rightarrow> (Inl BindFailed, kn_close K fd k)
      | Some k \<Rightarrow>
          (case kn_listen K fd k of
             None \<Rightarrow> (Inl ListenFailed, kn_close K fd k)
           | Some k \<Rightarrow> (Inr fd, k)))"

definition per_cache_setup ::
    "'k kernel_ops \<Rightarrow> 32 word \<Rightarrow> nat \<Rightarrow> 'k \<Rightarrow> (setup_error + nat) \<times> 'k" where
  "per_cache_setup K reuse port k =
     (let (fd, k) = kn_socket K k; k = kn_setsockopt K fd reuse k in
      case kn_bind K fd port k of
        None \<Rightarrow> (Inl BindFailed, kn_close K fd k)
      | Some k \<Rightarrow>
          (case kn_listen K fd k of
             None \<Rightarrow> (Inl ListenFailed, kn_close K fd k)
           | Some k \<Rightarrow> (Inr fd, k)))"

text \<open>
  The acceptor of \<open>http_server.cpp\<close> and \<open>http_skynet.cpp\<close> is constructed with its endpoint. This constructor of Asio
  opens a socket, sets the one option \<open>SO_REUSEADDR\<close>, binds and listens, and throws when the last two fail.
\<close>

definition acceptor_setup :: "'k kernel_ops \<Rightarrow> 32 word \<Rightarrow> nat \<Rightarrow> 'k \<Rightarrow> (setup_error + nat) \<times> 'k" where
  "acceptor_setup K SO_REUSEADDR Port k =
     (let (fd, k) = kn_socket K k; k = kn_setsockopt K fd SO_REUSEADDR k in
      case kn_bind K fd Port k of
        None \<Rightarrow> (Inl BindFailed, kn_close K fd k)
      | Some k \<Rightarrow>
          (case kn_listen K fd k of
             None \<Rightarrow> (Inl ListenFailed, kn_close K fd k)
           | Some k \<Rightarrow> (Inr fd, k)))"

text \<open>\<open>accept\<close> reaches its loop only with an acceptor; otherwise it ends with the exception.\<close>

definition accept_body :: "'k kernel_ops \<Rightarrow> 32 word \<Rightarrow> nat \<Rightarrow> 'k \<Rightarrow> (setup_error + 'j listener) \<times> 'k" where
  "accept_body K SO_REUSEADDR Port k =
     (case acceptor_setup K SO_REUSEADDR Port k of
        (Inl e, k) \<Rightarrow> (Inl e, k)
      | (Inr fd, k) \<Rightarrow> (Inr (accept_start Port), k))"

text \<open>The workers of a process, or of several, one after the other.\<close>

fun set_up_workers ::
    "('k \<Rightarrow> (setup_error + nat) \<times> 'k) \<Rightarrow> nat \<Rightarrow> 'k \<Rightarrow> (setup_error + nat) list \<times> 'k" where
  "set_up_workers prepare 0 k = ([], k)"
| "set_up_workers prepare (Suc n) k =
     (let (r, k) = prepare k; (rs, k) = set_up_workers prepare n k in (r # rs, k))"

section \<open>The accept loops\<close>

text \<open>The copies of the accept loop in \<open>http_skynet.cpp\<close> and the two servers of \<open>hwloc/\<close>.\<close>

definition skynet_accept_step :: "io \<Rightarrow> 'j listener \<Rightarrow> 'j listener option" where
  "skynet_accept_step io l =
     (case apc l of
        AAccept \<Rightarrow>
          (case io of
             Success \<Rightarrow> Some (l\<lparr>conns := conns l @ [accepted]\<rparr>)
           | Failure n \<Rightarrow> Some (l\<lparr>apc := AJoin\<rparr>)
           | _ \<Rightarrow> None)
      | AJoin \<Rightarrow>
          (if list_all (\<lambda>c. hpc c = HReturned) (conns l) then Some (l\<lparr>apc := AReturned\<rparr>) else None)
      | AReturned \<Rightarrow> None)"

definition thread_per_core_accept_step :: "io \<Rightarrow> 'j listener \<Rightarrow> 'j listener option" where
  "thread_per_core_accept_step io l =
     (case apc l of
        AAccept \<Rightarrow>
          (case io of
             Success \<Rightarrow> Some (l\<lparr>conns := conns l @ [accepted]\<rparr>)
           | Failure n \<Rightarrow> Some (l\<lparr>apc := AJoin\<rparr>)
           | _ \<Rightarrow> None)
      | AJoin \<Rightarrow>
          (if list_all (\<lambda>c. hpc c = HReturned) (conns l) then Some (l\<lparr>apc := AReturned\<rparr>) else None)
      | AReturned \<Rightarrow> None)"

definition per_cache_accept_step :: "io \<Rightarrow> 'j listener \<Rightarrow> 'j listener option" where
  "per_cache_accept_step io l =
     (case apc l of
        AAccept \<Rightarrow>
          (case io of
             Success \<Rightarrow> Some (l\<lparr>conns := conns l @ [accepted]\<rparr>)
           | Failure n \<Rightarrow> Some (l\<lparr>apc := AJoin\<rparr>)
           | _ \<Rightarrow> None)
      | AJoin \<Rightarrow>
          (if list_all (\<lambda>c. hpc c = HReturned) (conns l) then Some (l\<lparr>apc := AReturned\<rparr>) else None)
      | AReturned \<Rightarrow> None)"

text \<open>They are the loop that the theorems about the servers use.\<close>

lemma copied_accept_loops:
  "skynet_accept_step = accept_step" "thread_per_core_accept_step = accept_step"
  "per_cache_accept_step = accept_step"
  by (simp_all add: fun_eq_iff skynet_accept_step_def thread_per_core_accept_step_def
      per_cache_accept_step_def accept_step_def)

lemma copied_setups: "per_cache_setup = thread_per_core_setup"
  by (simp add: fun_eq_iff per_cache_setup_def thread_per_core_setup_def)

section \<open>Sharing the port\<close>

text \<open>The sockets bound to a port, all of them sharing it or one that does not.\<close>

definition all_share :: "sockets \<Rightarrow> nat \<Rightarrow> bool" where
  "all_share m p \<longleftrightarrow> (\<forall>h r. m h = Some (r, Some p) \<longrightarrow> r)"

definition held_exclusively :: "sockets \<Rightarrow> nat \<Rightarrow> bool" where
  "held_exclusively m p \<longleftrightarrow> (\<exists>h. m h = Some (False, Some p))"

lemma setup_shares:
  assumes K: "kernel_laws K socks P" and share: "all_share (socks k) port"
    and su: "thread_per_core_setup K P port k = (r, k')"
  shows "\<not> isl r \<and> all_share (socks k') port"
proof -
  obtain fd k1 where s: "kn_socket K k = (fd, k1)" by (cases "kn_socket K k")
  note new = kernel_socket [OF K s]
  define k2 where "k2 = kn_setsockopt K fd P k1"
  have k2: "socks k2 = (socks k)(fd \<mapsto> (True, None))"
    using kernel_setsockopt [OF K, of k1 fd False None P] new by (simp add: k2_def)
  have fd: "socks k2 fd = Some (True, None)" by (simp add: k2)
  have may: "may_bind (socks k2) fd port"
    using share by (auto simp: may_bind_def all_share_def k2 split: if_splits)
  obtain k3 where b: "kn_bind K fd port k2 = Some k3"
    using kernel_bind(1) [OF K fd] may by (cases "kn_bind K fd port k2") auto
  have k3: "socks k3 = (socks k)(fd \<mapsto> (True, Some port))"
    using kernel_bind(2) [OF K fd b] by (simp add: k2 fun_eq_iff)
  obtain k4 where l: "kn_listen K fd k3 = Some k4" "socks k4 = socks k3"
    using kernel_listen [OF K, of k3 fd True port] k3 by auto
  have "(r, k') = (Inr fd, k4)"
    using su by (simp add: thread_per_core_setup_def s k2_def [symmetric] b l(1))
  then show ?thesis using share by (auto simp: l(2) k3 all_share_def)
qed

lemma setup_first:
  assumes K: "kernel_laws K socks P" and free: "\<And>h r. socks k h \<noteq> Some (r, Some port)" and "reuse \<noteq> P"
    and su: "thread_per_core_setup K reuse port k = (r, k')"
  shows "\<not> isl r \<and> held_exclusively (socks k') port"
proof -
  obtain fd k1 where s: "kn_socket K k = (fd, k1)" by (cases "kn_socket K k")
  note new = kernel_socket [OF K s]
  define k2 where "k2 = kn_setsockopt K fd reuse k1"
  have k2: "socks k2 = (socks k)(fd \<mapsto> (False, None))"
    using kernel_setsockopt [OF K, of k1 fd False None reuse] new assms(3) by (simp add: k2_def)
  have fd: "socks k2 fd = Some (False, None)" by (simp add: k2)
  have may: "may_bind (socks k2) fd port"
    using free by (auto simp: may_bind_def k2 split: if_splits)
  obtain k3 where b: "kn_bind K fd port k2 = Some k3"
    using kernel_bind(1) [OF K fd] may by (cases "kn_bind K fd port k2") auto
  have k3: "socks k3 = (socks k)(fd \<mapsto> (False, Some port))"
    using kernel_bind(2) [OF K fd b] by (simp add: k2 fun_eq_iff)
  obtain k4 where l: "kn_listen K fd k3 = Some k4" "socks k4 = socks k3"
    using kernel_listen [OF K, of k3 fd False port] k3 by auto
  have "(r, k') = (Inr fd, k4)"
    using su by (simp add: thread_per_core_setup_def s k2_def [symmetric] b l(1))
  then show ?thesis by (auto simp: l(2) k3 held_exclusively_def)
qed

lemma setup_refused:
  assumes K: "kernel_laws K socks P" and ex: "held_exclusively (socks k) port"
    and su: "thread_per_core_setup K reuse port k = (r, k')"
  shows "r = Inl BindFailed \<and> held_exclusively (socks k') port"
proof -
  obtain fd k1 where s: "kn_socket K k = (fd, k1)" by (cases "kn_socket K k")
  note new = kernel_socket [OF K s]
  define k2 where "k2 = kn_setsockopt K fd reuse k1"
  obtain x where k2: "socks k2 = (socks k)(fd \<mapsto> (x, None))"
    using kernel_setsockopt [OF K, of k1 fd False None reuse] new by (simp add: k2_def)
  obtain h where h: "socks k h = Some (False, Some port)" using ex by (auto simp: held_exclusively_def)
  then have "h \<noteq> fd" using new by auto
  then have "\<not> may_bind (socks k2) fd port" using h by (auto simp: may_bind_def k2)
  moreover have fd: "socks k2 fd = Some (x, None)" by (simp add: k2)
  ultimately have b: "kn_bind K fd port k2 = None"
    using kernel_bind(2) [OF K fd] by (cases "kn_bind K fd port k2") auto
  have "(r, k') = (Inl BindFailed, kn_close K fd k2)"
    using su by (simp add: thread_per_core_setup_def s k2_def [symmetric] b)
  then show ?thesis using h \<open>h \<noteq> fd\<close> by (auto simp: kernel_close [OF K] k2 held_exclusively_def)
qed

text \<open>
  A server of \<open>asio/\<close> starts on a free port, and as \<open>SO_REUSEADDR\<close> does not share ports, any further server on that
  port, of the same kind or of another, ends with the exception of \<open>bind\<close>.
\<close>

lemma acceptor_setup_copy: "acceptor_setup K reuse port k = thread_per_core_setup K reuse port k"
  by (simp add: acceptor_setup_def thread_per_core_setup_def)

lemma accept_body_cases:
  assumes K: "kernel_laws K socks P" and "SO_REUSEADDR \<noteq> P"
    and su: "accept_body K SO_REUSEADDR port k = (r, k')"
  shows "(\<And>h r. socks k h \<noteq> Some (r, Some port)) \<Longrightarrow> r = Inr (accept_start port) \<and> held_exclusively (socks k') port"
    and "held_exclusively (socks k) port \<Longrightarrow> r = Inl BindFailed \<and> held_exclusively (socks k') port"
proof -
  obtain a k1 where s: "thread_per_core_setup K SO_REUSEADDR port k = (a, k1)"
    by (cases "thread_per_core_setup K SO_REUSEADDR port k")
  then have r: "k' = k1" "r = (case a of Inl e \<Rightarrow> Inl e | Inr fd \<Rightarrow> Inr (accept_start port))"
    using su by (auto simp: accept_body_def acceptor_setup_copy split: sum.splits)
  show "r = Inr (accept_start port) \<and> held_exclusively (socks k') port"
    if "\<And>h r. socks k h \<noteq> Some (r, Some port)"
    using setup_first [OF K that assms(2) s] r by (auto split: sum.splits)
  show "r = Inl BindFailed \<and> held_exclusively (socks k') port" if "held_exclusively (socks k) port"
    using setup_refused [OF K that s] r by simp
qed

lemma workers_all:
  assumes K: "kernel_laws K socks P" and "all_share (socks k) port"
  shows "map isl (fst (set_up_workers (thread_per_core_setup K P port) n k)) = replicate n False"
  using assms(2)
proof (induction n arbitrary: k)
  case (Suc n)
  obtain r k' where s: "thread_per_core_setup K P port k = (r, k')" by (cases "thread_per_core_setup K P port k")
  show ?case
    using setup_shares [OF K Suc.prems s] Suc.IH [of k'] s by (simp add: case_prod_beta)
qed simp

lemma workers_refused:
  assumes K: "kernel_laws K socks P" and "held_exclusively (socks k) port"
  shows "fst (set_up_workers (thread_per_core_setup K reuse port) n k) = replicate n (Inl BindFailed)"
  using assms(2)
proof (induction n arbitrary: k)
  case (Suc n)
  obtain r k' where s: "thread_per_core_setup K reuse port k = (r, k')"
    by (cases "thread_per_core_setup K reuse port k")
  show ?case
    using setup_refused [OF K Suc.prems s] Suc.IH [of k'] s by (simp add: case_prod_beta)
qed simp

text \<open>
  C21. Workers that bind to one port, as threads of one process or as processes of the prefork scripts: all of them
  get their acceptor when the number that the code passes to \<open>setsockopt\<close>, the disjunction of two option
  numbers, is the one option that lets sockets share a port. Otherwise the failing \<open>setsockopt\<close> goes unnoticed and only the first worker starts: \<open>accept\<close> throws
  in all the others. The first case is that of Linux (2 and 15), the second that of BSD systems (4 and 512).
\<close>

theorem workers_share_port:
  assumes "kernel_laws K socks SO_REUSEPORT" and free: "\<And>h r. socks k h \<noteq> Some (r, Some port)"
    and "prepare \<in> {thread_per_core_setup K, per_cache_setup K}"
  shows "map isl (fst (set_up_workers (prepare (reuse_option False SO_REUSEADDR SO_REUSEPORT) port) n k)) =
      (if or SO_REUSEADDR SO_REUSEPORT = SO_REUSEPORT then replicate n False
       else map (\<lambda>i. 0 < i) [0..<n]) \<and>
    (\<forall>e \<in> set (fst (set_up_workers (prepare (reuse_option False SO_REUSEADDR SO_REUSEPORT) port) n k)).
       \<forall>x. e = Inl x \<longrightarrow> x = BindFailed) \<and>
    or 2 15 = (15 :: 32 word) \<and> or 4 512 \<noteq> (512 :: 32 word)"
proof -
  have prep: "prepare = thread_per_core_setup K" using assms(3) copied_setups by (metis empty_iff insert_iff)
  let ?o = "reuse_option False SO_REUSEADDR SO_REUSEPORT"
  let ?rs = "fst (set_up_workers (thread_per_core_setup K ?o port) n k)"
  have o: "?o = or SO_REUSEADDR SO_REUSEPORT" by (simp add: reuse_option_def)
  have "map isl ?rs = (if or SO_REUSEADDR SO_REUSEPORT = SO_REUSEPORT then replicate n False
       else map (\<lambda>i. 0 < i) [0..<n]) \<and> (\<forall>e\<in>set ?rs. \<forall>x. e = Inl x \<longrightarrow> x = BindFailed)"
  proof (cases "or SO_REUSEADDR SO_REUSEPORT = SO_REUSEPORT")
    case True
    have "all_share (socks k) port" using free by (auto simp: all_share_def)
    then have all: "map isl ?rs = replicate n False"
      using workers_all [OF assms(1), of k port n] by (simp add: o True)
    have "\<not> isl e" if "e \<in> set ?rs" for e
    proof -
      have "isl e \<in> set (map isl ?rs)" using that by simp
      then show ?thesis unfolding all by simp
    qed
    then show ?thesis using all True by fastforce
  next
    case False
    show ?thesis
    proof (cases n)
      case (Suc m)
      obtain r k' where s: "thread_per_core_setup K ?o port k = (r, k')"
        by (cases "thread_per_core_setup K ?o port k")
      have first: "\<not> isl r" "held_exclusively (socks k') port"
        using setup_first [OF assms(1) free _ s] False o by auto
      have rs: "?rs = r # replicate m (Inl BindFailed)"
        using workers_refused [OF assms(1) first(2), of ?o m] s by (simp add: Suc case_prod_beta)
      have "map isl ?rs = map (\<lambda>i. 0 < i) [0..<n]"
        unfolding rs using first(1) by (simp add: Suc map_upt_Suc map_replicate_const del: upt_Suc)
      then show ?thesis using False first(1) rs by auto
    qed (use False in simp)
  qed
  then show ?thesis by (simp add: prep)
qed

theorem workers_share_port_witness:
  "map isl (fst (set_up_workers (per_cache_setup (table_kernel 512) (reuse_option False 4 512) 55550) 3 (0, Map.empty))) =
     [False, True, True]"
proof -
  have free: "table_sockets (0, Map.empty) h \<noteq> Some (r, Some 55550)" for h r by (simp add: table_sockets_def)
  have "per_cache_setup (table_kernel 512) \<in> {thread_per_core_setup (table_kernel 512), per_cache_setup (table_kernel 512)}"
    by simp
  from workers_share_port [OF table_kernel_laws free this, of 4 3] show ?thesis by (simp add: upt_rec)
qed

end
