(* ===== verification/Callback_Traits.thy ===== *)
theory Callback_Traits
  imports Callback "HOL-Library.Multiset"
begin

text \<open>
  The compile-time part of \<open>external/callback_awaitable.hpp\<close>: which result type \<open>await_callback\<close> deduces
  from the signature of a callback and how the result is stored; and the customizer with all its setters.
\<close>

section \<open>Deducing the result type\<close>

datatype cty = VoidPtr | FloatTy | IntTy | MoveOnlyTy

text \<open>The type \<open>Result(Args...)\<close> of a callback, and what \<open>func_params\<close> takes it apart into.\<close>

datatype func_type = Func "cty option" "cty list"

fun func_result :: "func_type \<Rightarrow> cty option" where
  "func_result (Func result args) = result"

fun func_params :: "func_type \<Rightarrow> cty list" where
  "func_params (Func result args) = args"

text \<open>
  \<open>await_callback\<close> matches them against \<open>void*, ResultArgs...\<close>; any other signature does not compile
  (\<open>None\<close>).
\<close>

definition await_callback :: "func_type \<Rightarrow> cty list option" where
  "await_callback CallbackFunc =
     (case func_params CallbackFunc of VoidPtr # ResultArgs \<Rightarrow> Some ResultArgs | _ \<Rightarrow> None)"

text \<open>A tuple is stored directly when it can be constructed by default, and in an \<open>optional\<close> otherwise.\<close>

datatype result_stored = InPlace "cty list" | InOptional "cty list"

definition is_default_constructible :: "cty list \<Rightarrow> bool" where
  "is_default_constructible = list_all (\<lambda>t. t \<noteq> MoveOnlyTy)"

definition result_storage :: "cty list \<Rightarrow> result_stored" where
  "result_storage ts = (if is_default_constructible ts then InPlace ts else InOptional ts)"

text \<open>
  The two branches of \<open>callback\<close>: an assignment of the tuple through \<open>result_ptr\<close>, or \<open>emplace\<close>. Each
  compiles for one kind of storage only.
\<close>

definition callback_stores :: "cty list \<Rightarrow> result_stored \<Rightarrow> cty list option" where
  "callback_stores ts st =
     (if is_default_constructible ts then (case st of InPlace us \<Rightarrow> Some us | InOptional us \<Rightarrow> None)
      else (case st of InOptional us \<Rightarrow> Some us | InPlace us \<Rightarrow> None))"

text \<open>What the awaiting task gets: directly from \<open>await_resume\<close>, or through \<open>spawn_tuple\<close>.\<close>

definition awaited_directly :: "cty list \<Rightarrow> cty list" where
  "awaited_directly ts = (case result_storage ts of InPlace us \<Rightarrow> us | InOptional us \<Rightarrow> us)"

definition awaited_in_tuple :: "cty list \<Rightarrow> result_stored" where
  "awaited_in_tuple ts = result_storage ts"

section \<open>The signatures of the program\<close>

fun cvalue_type :: "cvalue \<Rightarrow> cty" where
  "cvalue_type (CFloat x) = FloatTy"
| "cvalue_type (CInt i) = IntTy"
| "cvalue_type (CMoveOnly i) = MoveOnlyTy"

definition callback_params :: "(func_type \<times> cvalue list) list" where
  "callback_params =
     [(Func None [VoidPtr], simulated_async_fn_void),
      (Func None [VoidPtr, FloatTy, FloatTy], simulated_async_fn 1),
      (Func None [VoidPtr, IntTy], simulated_async_fn2 4 6),
      (Func None [VoidPtr, MoveOnlyTy], simulated_async_fn_move_only 1)]"

text \<open>
  For every function of the program the deduced types are those of the values that it passes to its
  callback, and \<open>callback\<close> can store them; in the tuple the first result is in place, while the move-only one
  is in an \<open>optional\<close> that \<open>main\<close> has to dereference, as it does.
\<close>

lemma callback_types:
  "list_all (\<lambda>(params, values). \<exists>ts. await_callback params = Some ts \<and> map cvalue_type values = ts \<and>
     callback_stores ts (result_storage ts) = Some ts \<and> awaited_directly ts = ts) callback_params"
  "awaited_in_tuple [FloatTy, FloatTy] = InPlace [FloatTy, FloatTy]"
  "awaited_in_tuple [MoveOnlyTy] = InOptional [MoveOnlyTy]"
  by (simp_all add: callback_params_def await_callback_def simulated_async_fn_void_def
      simulated_async_fn_def simulated_async_fn2_def simulated_async_fn_move_only_def Let_def
      callback_stores_def result_storage_def is_default_constructible_def awaited_directly_def
      awaited_in_tuple_def)

text \<open>In general: whatever is deduced can be stored and is what an awaiting task gets.\<close>

lemma callback_stores_deduced:
  "await_callback params = Some ts \<Longrightarrow> callback_stores ts (result_storage ts) = Some ts \<and> awaited_directly ts = ts"
  by (simp add: callback_stores_def result_storage_def awaited_directly_def)

section \<open>The customizer\<close>

record customizer =
  cz_result_ptr :: "nat option"
  cz_continuation :: "nat option"
  cz_continuation_executor :: "nat option"
  cz_done_count :: "nat option"
  cz_flags :: nat

definition cz_set_result_ptr :: "nat \<Rightarrow> customizer \<Rightarrow> customizer" where
  "cz_set_result_ptr ResultPtr z = z\<lparr>cz_result_ptr := Some ResultPtr\<rparr>"

definition cz_set_continuation :: "nat \<Rightarrow> customizer \<Rightarrow> customizer" where
  "cz_set_continuation Continuation z = z\<lparr>cz_continuation := Some Continuation\<rparr>"

definition set_continuation_executor :: "nat \<Rightarrow> customizer \<Rightarrow> customizer" where
  "set_continuation_executor ContExec z = z\<lparr>cz_continuation_executor := Some ContExec\<rparr>"

definition set_done_count :: "nat \<Rightarrow> customizer \<Rightarrow> customizer" where
  "set_done_count DoneCount z = z\<lparr>cz_done_count := Some DoneCount\<rparr>"

definition set_flags :: "nat \<Rightarrow> customizer \<Rightarrow> customizer" where
  "set_flags Flags z = z\<lparr>cz_flags := Flags\<rparr>"

text \<open>\<open>await_suspend\<close> of the awaiter fills in two fields and leaves the others as the constructor set them.\<close>

definition await_suspend_customizer :: "nat \<Rightarrow> nat \<Rightarrow> customizer \<Rightarrow> customizer" where
  "await_suspend_customizer Outer result z = z\<lparr>cz_continuation := Some Outer, cz_result_ptr := Some result\<rparr>"

text \<open>A call of a setter of the traits, for a group that prepares an awaitable before it initiates it.\<close>

datatype setter = SResultPtr nat | SContinuation nat | SContinuationExecutor nat | SDoneCount nat | SFlags nat

fun apply_setter :: "setter \<Rightarrow> customizer \<Rightarrow> customizer" where
  "apply_setter (SResultPtr p) z = cz_set_result_ptr p z"
| "apply_setter (SContinuation c) z = cz_set_continuation c z"
| "apply_setter (SContinuationExecutor e) z = set_continuation_executor e z"
| "apply_setter (SDoneCount d) z = set_done_count d z"
| "apply_setter (SFlags f) z = set_flags f z"

lemmas customizer_defs = cz_set_result_ptr_def cz_set_continuation_def set_continuation_executor_def
  set_done_count_def set_flags_def await_suspend_customizer_def

text \<open>
  Whatever order a group calls the five setters in and whatever the customizer held before, it ends up with the
  values of the group; and a direct await is the two setters that it needs.
\<close>

lemma group_prepares:
  assumes "distinct ss" and "set ss = {SResultPtr p, SContinuation c, SContinuationExecutor e, SDoneCount d, SFlags f}"
  shows "fold apply_setter ss z =
    \<lparr>cz_result_ptr = Some p, cz_continuation = Some c, cz_continuation_executor = Some e, cz_done_count = Some d,
     cz_flags = f\<rparr>"
proof -
  have comm: "apply_setter x \<circ> apply_setter y = apply_setter y \<circ> apply_setter x"
    if "x \<in> set ss" "y \<in> set ss" for x y
    using that unfolding assms(2) by (elim insertE emptyE; simp add: customizer_defs fun_eq_iff)
  let ?ts = "[SResultPtr p, SContinuation c, SContinuationExecutor e, SDoneCount d, SFlags f]"
  have "mset ss = mset ?ts"
    using assms by (intro set_eq_iff_mset_eq_distinct [THEN iffD1]) simp_all
  then have "fold apply_setter ss = fold apply_setter ?ts"
    by (intro fold_multiset_equiv) (use comm in auto)
  then show ?thesis by (cases z) (simp add: customizer_defs)
qed

lemma direct_await:
  "await_suspend_customizer Outer result z = cz_set_result_ptr result (cz_set_continuation Outer z)"
  by (simp add: customizer_defs)

end
