(* ===== verification/Shutdown_Signal.thy ===== *)
theory Shutdown_Signal
  imports Prelude "HOL-Library.Multiset"
begin

text \<open>
  \<open>asio/shutdown_signal.hpp\<close>: a handler that waits for \<open>SIGINT\<close> or \<open>SIGTERM\<close> and sets a global event, on which
  any number of coroutines can wait. The signal set of Asio and the event of the library are parameters.
\<close>

section \<open>The signal set and the event\<close>

text \<open>
  Waits are named by the index of their handler. \<open>ss_wait\<close> tells whether the wait completes at once;
  \<open>ss_deliver\<close>, at a signal, and \<open>ss_destroy\<close> return the waits that they complete.
\<close>

record 's signal_ops =
  ss_new :: 's
  ss_wait :: "nat \<Rightarrow> 's \<Rightarrow> bool \<times> 's"
  ss_deliver :: "'s \<Rightarrow> nat list \<times> 's"
  ss_destroy :: "'s \<Rightarrow> nat list"

text \<open>
  A set has pending waits and a number of signals that found no wait. A signal completes all pending waits; a
  signal that found none completes one later wait. Destruction completes the pending ones, as aborted.
\<close>

definition signal_laws :: "'s signal_ops \<Rightarrow> ('s \<Rightarrow> nat list) \<Rightarrow> ('s \<Rightarrow> nat) \<Rightarrow> bool" where
  "signal_laws SS pending queued \<longleftrightarrow>
     pending (ss_new SS) = [] \<and> queued (ss_new SS) = 0 \<and>
     (\<forall>i x. case ss_wait SS i x of (ready, x') \<Rightarrow>
        ready = (0 < queued x) \<and> queued x' = queued x - 1 \<and>
        pending x' = (if ready then pending x else pending x @ [i])) \<and>
     (\<forall>x. case ss_deliver SS x of (hit, x') \<Rightarrow>
        hit = pending x \<and> pending x' = [] \<and>
        queued x' = (if pending x = [] then queued x + 1 else queued x)) \<and>
     (\<forall>x. ss_destroy SS x = pending x)"

text \<open>An event is set or not; setting it resumes those that wait, and a wait on a set event does not suspend.\<close>

record 'e event_ops =
  ev_new :: 'e
  ev_set :: "'e \<Rightarrow> nat list \<times> 'e"
  ev_await :: "nat \<Rightarrow> 'e \<Rightarrow> bool \<times> 'e"
  ev_is_set :: "'e \<Rightarrow> bool"

definition event_laws :: "'e event_ops \<Rightarrow> ('e \<Rightarrow> nat list) \<Rightarrow> bool" where
  "event_laws EV waiters \<longleftrightarrow>
     waiters (ev_new EV) = [] \<and> \<not> ev_is_set EV (ev_new EV) \<and>
     (\<forall>e. case ev_set EV e of (resumed, e') \<Rightarrow> resumed = waiters e \<and> waiters e' = [] \<and> ev_is_set EV e') \<and>
     (\<forall>j e. case ev_await EV j e of (ready, e') \<Rightarrow>
        ready = ev_is_set EV e \<and> ev_is_set EV e' = ev_is_set EV e \<and>
        waiters e' = (if ready then waiters e else waiters e @ [j]))"

lemma signal_new: "signal_laws SS pending queued \<Longrightarrow> pending (ss_new SS) = [] \<and> queued (ss_new SS) = 0"
  by (simp add: signal_laws_def)

lemma signal_wait:
  "signal_laws SS pending queued \<Longrightarrow> ss_wait SS i x = (ready, x') \<Longrightarrow>
   ready = (0 < queued x) \<and> queued x' = queued x - 1 \<and>
   pending x' = (if ready then pending x else pending x @ [i])"
  unfolding signal_laws_def by (elim conjE allE [of _ i] allE [of _ x]) (simp only: case_prod_conv)

lemma signal_deliver:
  "signal_laws SS pending queued \<Longrightarrow> ss_deliver SS x = (hit, x') \<Longrightarrow>
   hit = pending x \<and> pending x' = [] \<and> queued x' = (if pending x = [] then queued x + 1 else queued x)"
  unfolding signal_laws_def by (elim conjE allE [of _ x]) (simp only: case_prod_conv)

lemma signal_destroy: "signal_laws SS pending queued \<Longrightarrow> ss_destroy SS x = pending x"
  by (simp add: signal_laws_def)

lemma event_new: "event_laws EV waiters \<Longrightarrow> waiters (ev_new EV) = [] \<and> \<not> ev_is_set EV (ev_new EV)"
  by (simp add: event_laws_def)

lemma event_set:
  "event_laws EV waiters \<Longrightarrow> ev_set EV e = (resumed, e') \<Longrightarrow>
   resumed = waiters e \<and> waiters e' = [] \<and> ev_is_set EV e'"
  unfolding event_laws_def by (elim conjE allE [of _ e]) (simp only: case_prod_conv)

lemma event_await:
  "event_laws EV waiters \<Longrightarrow> ev_await EV j e = (ready, e') \<Longrightarrow>
   ready = ev_is_set EV e \<and> ev_is_set EV e' = ev_is_set EV e \<and>
   waiters e' = (if ready then waiters e else waiters e @ [j])"
  unfolding event_laws_def by (elim conjE allE [of _ j] allE [of _ e]) (simp only: case_prod_conv)

section \<open>The handler\<close>

text \<open>The task that the installation posts: queued, waiting, with the result of its wait, returned.\<close>

datatype shandler = HPosted | HWaiting | HCompleted bool | HReturned

record ('s, 'e) shutdown =
  g_shutdown_signal :: "'s option"
  g_shutdown_event :: 'e
  handlers :: "shandler list"
  signalled :: nat           \<comment> \<open>signals delivered so far\<close>
  asked :: "nat list"        \<comment> \<open>coroutines that await the event or did\<close>
  went_on :: "nat list"      \<comment> \<open>those of them that were resumed or did not suspend\<close>

definition shutdown_start :: "'e event_ops \<Rightarrow> ('s, 'e) shutdown" where
  "shutdown_start EV = \<lparr>g_shutdown_signal = None, g_shutdown_event = ev_new EV, handlers = [], signalled = 0,
     asked = [], went_on = []\<rparr>"

text \<open>The handlers whose waits complete; the flag is the error.\<close>

definition complete_waits :: "bool \<Rightarrow> nat list \<Rightarrow> shandler list \<Rightarrow> shandler list" where
  "complete_waits err ws hs = fold (\<lambda>i hs. hs[i := HCompleted err]) ws hs"

text \<open>\<open>emplace\<close> destroys the set that was there; then the handler is posted.\<close>

definition install_signal_handler :: "'s signal_ops \<Rightarrow> ('s, 'e) shutdown \<Rightarrow> ('s, 'e) shutdown" where
  "install_signal_handler SS s =
     (let aborted = (case g_shutdown_signal s of None \<Rightarrow> [] | Some x \<Rightarrow> ss_destroy SS x)
      in s\<lparr>g_shutdown_signal := Some (ss_new SS),
           handlers := complete_waits True aborted (handlers s) @ [HPosted]\<rparr>)"

text \<open>The handler starts: it waits on the set that is there now.\<close>

definition handler_start :: "'s signal_ops \<Rightarrow> nat \<Rightarrow> ('s, 'e) shutdown \<Rightarrow> ('s, 'e) shutdown option" where
  "handler_start SS i s =
     (if i < length (handlers s) \<and> handlers s ! i = HPosted then
        (case g_shutdown_signal s of
           None \<Rightarrow> None
         | Some x \<Rightarrow> (case ss_wait SS i x of (ready, x') \<Rightarrow>
             Some (s\<lparr>g_shutdown_signal := Some x',
                     handlers := (handlers s)[i := if ready then HCompleted False else HWaiting]\<rparr>)))
      else None)"

text \<open>It is resumed: the result of the wait is discarded, and the event is set.\<close>

definition handler_resume :: "'e event_ops \<Rightarrow> nat \<Rightarrow> ('s, 'e) shutdown \<Rightarrow> ('s, 'e) shutdown option" where
  "handler_resume EV i s =
     (if i < length (handlers s) \<and> (handlers s ! i = HCompleted True \<or> handlers s ! i = HCompleted False) then
        (case ev_set EV (g_shutdown_event s) of (resumed, e') \<Rightarrow>
           Some (s\<lparr>g_shutdown_event := e', handlers := (handlers s)[i := HReturned],
                   went_on := went_on s @ resumed\<rparr>))
      else None)"

text \<open>A signal, once a set is registered; a coroutine that awaits the event.\<close>

definition deliver_signal :: "'s signal_ops \<Rightarrow> ('s, 'e) shutdown \<Rightarrow> ('s, 'e) shutdown option" where
  "deliver_signal SS s =
     (case g_shutdown_signal s of
        None \<Rightarrow> None
      | Some x \<Rightarrow> (case ss_deliver SS x of (hit, x') \<Rightarrow>
          Some (s\<lparr>g_shutdown_signal := Some x', handlers := complete_waits False hit (handlers s),
                  signalled := signalled s + 1\<rparr>)))"

definition await_event :: "'e event_ops \<Rightarrow> nat \<Rightarrow> ('s, 'e) shutdown \<Rightarrow> ('s, 'e) shutdown" where
  "await_event EV j s =
     (case ev_await EV j (g_shutdown_event s) of (ready, e') \<Rightarrow>
        s\<lparr>g_shutdown_event := e', asked := asked s @ [j],
          went_on := (if ready then went_on s @ [j] else went_on s)\<rparr>)"

inductive shutdown_run :: "'s signal_ops \<Rightarrow> 'e event_ops \<Rightarrow> ('s, 'e) shutdown \<Rightarrow> bool"
  for SS :: "'s signal_ops" and EV :: "'e event_ops" where
  Boot: "shutdown_run SS EV (shutdown_start EV)"
| Install: "shutdown_run SS EV s \<Longrightarrow> shutdown_run SS EV (install_signal_handler SS s)"
| Start: "shutdown_run SS EV s \<Longrightarrow> handler_start SS i s = Some t \<Longrightarrow> shutdown_run SS EV t"
| Resume: "shutdown_run SS EV s \<Longrightarrow> handler_resume EV i s = Some t \<Longrightarrow> shutdown_run SS EV t"
| Signal: "shutdown_run SS EV s \<Longrightarrow> deliver_signal SS s = Some t \<Longrightarrow> shutdown_run SS EV t"
| Await: "shutdown_run SS EV s \<Longrightarrow> shutdown_run SS EV (await_event EV j s)"

text \<open>No handler can take a step.\<close>

definition handlers_rest :: "'s signal_ops \<Rightarrow> 'e event_ops \<Rightarrow> ('s, 'e) shutdown \<Rightarrow> bool" where
  "handlers_rest SS EV s \<longleftrightarrow>
     list_all (\<lambda>i. handler_start SS i s = None \<and> handler_resume EV i s = None) [0..<length (handlers s)]"

section \<open>The event is set after a signal\<close>

text \<open>What holds as long as the handler has been installed at most once.\<close>

definition one_handler :: "'e event_ops \<Rightarrow> ('s \<Rightarrow> nat list) \<Rightarrow> ('s \<Rightarrow> nat) \<Rightarrow> ('e \<Rightarrow> nat list) \<Rightarrow>
    ('s, 'e) shutdown \<Rightarrow> bool" where
  "one_handler EV pending queued waiters s \<longleftrightarrow>
     (case handlers s of
        [] \<Rightarrow> g_shutdown_signal s = None \<and> signalled s = 0
      | h # _ \<Rightarrow> (case g_shutdown_signal s of
          None \<Rightarrow> False
        | Some x \<Rightarrow> (case h of
            HPosted \<Rightarrow> pending x = [] \<and> queued x = signalled s
          | HWaiting \<Rightarrow> pending x = [0] \<and> queued x = 0 \<and> signalled s = 0
          | HCompleted err \<Rightarrow> pending x = [] \<and> \<not> err \<and> 0 < signalled s
          | HReturned \<Rightarrow> pending x = [] \<and> 0 < signalled s)))"

text \<open>What always holds of the event and of those that await it.\<close>

definition event_ok :: "'e event_ops \<Rightarrow> ('e \<Rightarrow> nat list) \<Rightarrow> ('s, 'e) shutdown \<Rightarrow> bool" where
  "event_ok EV waiters s \<longleftrightarrow>
     ev_is_set EV (g_shutdown_event s) = (HReturned \<in> set (handlers s)) \<and>
     (ev_is_set EV (g_shutdown_event s) \<longrightarrow> waiters (g_shutdown_event s) = []) \<and>
     mset (asked s) = mset (went_on s) + mset (waiters (g_shutdown_event s)) \<and>
     (\<not> ev_is_set EV (g_shutdown_event s) \<longrightarrow> went_on s = [])"

text \<open>The waits of the set are those of the handlers that wait.\<close>

definition waits_ok :: "('s \<Rightarrow> nat list) \<Rightarrow> ('s, 'e) shutdown \<Rightarrow> bool" where
  "waits_ok pending s \<longleftrightarrow>
     (case g_shutdown_signal s of
        None \<Rightarrow> handlers s = []
      | Some x \<Rightarrow> set (pending x) = {i. i < length (handlers s) \<and> handlers s ! i = HWaiting})"

lemma complete_waits_nth:
  "length (complete_waits err ws hs) = length hs \<and>
   (i < length hs \<longrightarrow> complete_waits err ws hs ! i = (if i \<in> set ws then HCompleted err else hs ! i))"
  unfolding complete_waits_def
  by (induction ws arbitrary: hs) (auto simp: nth_list_update)

lemmas complete_waits_simps = complete_waits_nth [THEN conjunct1] complete_waits_nth [THEN conjunct2, rule_format]

lemma returned_iff:
  "length gs = length hs \<Longrightarrow> (\<And>i. i < length hs \<Longrightarrow> gs ! i = HReturned \<longleftrightarrow> hs ! i = HReturned) \<Longrightarrow>
   HReturned \<in> set gs \<longleftrightarrow> HReturned \<in> set hs"
  unfolding in_set_conv_nth by metis

lemma complete_waits_returned:
  "\<forall>i\<in>set ws. i < length hs \<and> hs ! i = HWaiting \<Longrightarrow>
   HReturned \<in> set (complete_waits err ws hs) \<longleftrightarrow> HReturned \<in> set hs"
  by (rule returned_iff) (auto simp: complete_waits_simps)

lemma update_returned:
  "i < length hs \<Longrightarrow> hs ! i \<noteq> HReturned \<Longrightarrow> h \<noteq> HReturned \<Longrightarrow>
   HReturned \<in> set (hs[i := h]) \<longleftrightarrow> HReturned \<in> set hs"
  by (rule returned_iff) (auto simp: nth_list_update)

lemma install_waits_ok:
  assumes "signal_laws SS pending queued" and "waits_ok pending s"
  shows "waits_ok pending (install_signal_handler SS s)"
    and "HReturned \<in> set (handlers (install_signal_handler SS s)) \<longleftrightarrow> HReturned \<in> set (handlers s)"
  using assms
  by (auto simp: waits_ok_def install_signal_handler_def Let_def signal_new signal_destroy complete_waits_simps
      complete_waits_returned nth_append less_Suc_eq split: option.splits)

lemma waiting_update:
  assumes "i < length hs" and "hs ! i \<noteq> HWaiting"
  shows "{j. j < length hs \<and> hs[i := h] ! j = HWaiting} =
    (if h = HWaiting then {i} else {}) \<union> {j. j < length hs \<and> hs ! j = HWaiting}"
  using assms by (auto simp: nth_list_update)

text \<open>The steps, with the parts of the state taken apart.\<close>

lemma handler_startE:
  assumes "handler_start SS i s = Some t"
  obtains x ready x' where "i < length (handlers s)" "handlers s ! i = HPosted" "g_shutdown_signal s = Some x"
    "ss_wait SS i x = (ready, x')"
    "t = s\<lparr>g_shutdown_signal := Some x',
      handlers := (handlers s)[i := if ready then HCompleted False else HWaiting]\<rparr>"
  using assms by (auto simp: handler_start_def split: if_split_asm option.split_asm prod.split_asm)

lemma deliver_signalE:
  assumes "deliver_signal SS s = Some t"
  obtains x hit x' where "g_shutdown_signal s = Some x" "ss_deliver SS x = (hit, x')"
    "t = s\<lparr>g_shutdown_signal := Some x', handlers := complete_waits False hit (handlers s),
      signalled := signalled s + 1\<rparr>"
  using assms by (auto simp: deliver_signal_def split: option.split_asm prod.split_asm)

lemma handler_resumeE:
  assumes "handler_resume EV i s = Some t"
  obtains err resumed e' where "i < length (handlers s)" "handlers s ! i = HCompleted err"
    "ev_set EV (g_shutdown_event s) = (resumed, e')"
    "t = s\<lparr>g_shutdown_event := e', handlers := (handlers s)[i := HReturned], went_on := went_on s @ resumed\<rparr>"
  using assms by (auto simp: handler_resume_def split: if_split_asm prod.split_asm)

lemma start_waits_ok:
  assumes "signal_laws SS pending queued" and "waits_ok pending s" and "handler_start SS i s = Some t"
  shows "waits_ok pending t" and "HReturned \<in> set (handlers t) \<longleftrightarrow> HReturned \<in> set (handlers s)"
proof -
  obtain x ready x' where i: "i < length (handlers s)" "handlers s ! i = HPosted" and x: "g_shutdown_signal s = Some x"
    and w: "ss_wait SS i x = (ready, x')"
    and t: "t = s\<lparr>g_shutdown_signal := Some x',
      handlers := (handlers s)[i := if ready then HCompleted False else HWaiting]\<rparr>"
    using assms(3) by (rule handler_startE)
  show "waits_ok pending t"
    using assms(2) signal_wait [OF assms(1) w] i x
    by (simp add: waits_ok_def t waiting_update)
  show "HReturned \<in> set (handlers t) \<longleftrightarrow> HReturned \<in> set (handlers s)"
    using i by (simp add: t update_returned)
qed

lemma deliver_waits_ok:
  assumes "signal_laws SS pending queued" and "waits_ok pending s" and "deliver_signal SS s = Some t"
  shows "waits_ok pending t" and "HReturned \<in> set (handlers t) \<longleftrightarrow> HReturned \<in> set (handlers s)"
proof -
  obtain x hit x' where x: "g_shutdown_signal s = Some x" and d: "ss_deliver SS x = (hit, x')"
    and t: "t = s\<lparr>g_shutdown_signal := Some x', handlers := complete_waits False hit (handlers s),
      signalled := signalled s + 1\<rparr>"
    using assms(3) by (rule deliver_signalE)
  have ws: "set hit = {i. i < length (handlers s) \<and> handlers s ! i = HWaiting}"
    using assms(2) signal_deliver [OF assms(1) d] x by (simp add: waits_ok_def)
  show "waits_ok pending t"
    using signal_deliver [OF assms(1) d] ws by (auto simp: waits_ok_def t complete_waits_simps)
  show "HReturned \<in> set (handlers t) \<longleftrightarrow> HReturned \<in> set (handlers s)"
    using ws by (simp add: t complete_waits_returned)
qed

lemma resume_waits_ok:
  assumes "waits_ok pending s" and "handler_resume EV i s = Some t"
  shows "waits_ok pending t" and "HReturned \<in> set (handlers t)"
proof -
  obtain err resumed e' where i: "i < length (handlers s)" "handlers s ! i = HCompleted err"
    and t: "t = s\<lparr>g_shutdown_event := e', handlers := (handlers s)[i := HReturned], went_on := went_on s @ resumed\<rparr>"
    using assms(2) by (rule handler_resumeE)
  show "waits_ok pending t"
    using assms(1) i
    by (cases "g_shutdown_signal s") (simp_all add: waits_ok_def t waiting_update)
  show "HReturned \<in> set (handlers t)" using i by (simp add: t set_update_memI)
qed

text \<open>The event is set exactly when a handler has returned, and then nobody waits for it any more.\<close>

lemma shutdown_event_ok:
  assumes ss: "signal_laws SS pending queued" and ev: "event_laws EV waiters" and run: "shutdown_run SS EV s"
  shows "waits_ok pending s \<and> event_ok EV waiters s"
  using run
proof induction
  case Boot
  show ?case using event_new [OF ev] by (simp add: waits_ok_def event_ok_def shutdown_start_def)
next
  case (Install s)
  then show ?case
    using install_waits_ok [OF ss, of s] by (simp add: event_ok_def) (simp add: install_signal_handler_def Let_def)
next
  case (Start s i t)
  then have "waits_ok pending t" "HReturned \<in> set (handlers t) \<longleftrightarrow> HReturned \<in> set (handlers s)"
    using start_waits_ok [OF ss] by blast+
  moreover from Start.hyps(2) have "g_shutdown_event t = g_shutdown_event s" "asked t = asked s" "went_on t = went_on s"
    by (auto elim!: handler_startE)
  ultimately show ?case using Start.IH by (simp add: event_ok_def)
next
  case (Resume s i t)
  then have w: "waits_ok pending t" "HReturned \<in> set (handlers t)" using resume_waits_ok by blast+
  obtain resumed e' where e: "ev_set EV (g_shutdown_event s) = (resumed, e')"
    and t: "g_shutdown_event t = e'" "asked t = asked s" "went_on t = went_on s @ resumed"
    using Resume.hyps(2) by (auto elim!: handler_resumeE)
  show ?case using event_set [OF ev e] w t Resume.IH by (simp add: event_ok_def)
next
  case (Signal s t)
  then have "waits_ok pending t" "HReturned \<in> set (handlers t) \<longleftrightarrow> HReturned \<in> set (handlers s)"
    using deliver_waits_ok [OF ss] by blast+
  moreover from Signal.hyps(2) have "g_shutdown_event t = g_shutdown_event s" "asked t = asked s" "went_on t = went_on s"
    by (auto elim!: deliver_signalE)
  ultimately show ?case using Signal.IH by (simp add: event_ok_def)
next
  case (Await s j)
  obtain ready e' where e: "ev_await EV j (g_shutdown_event s) = (ready, e')" by force
  show ?case
    using event_await [OF ev e] Await.IH
    by (auto simp: event_ok_def waits_ok_def await_event_def e split: option.splits)
qed

lemma handlers_grow: "length (handlers (install_signal_handler SS s)) = Suc (length (handlers s))"
  by (simp add: install_signal_handler_def Let_def complete_waits_simps)

lemma await_event_same:
  "handlers (await_event EV j s) = handlers s" "g_shutdown_signal (await_event EV j s) = g_shutdown_signal s"
  "signalled (await_event EV j s) = signalled s"
  by (simp_all add: await_event_def split: prod.split)

text \<open>With one installation the handler waits until there is a signal, and completes without error.\<close>

lemma shutdown_one_handler:
  assumes ss: "signal_laws SS pending queued" and ev: "event_laws EV waiters" and run: "shutdown_run SS EV s"
    and one: "length (handlers s) \<le> 1"
  shows "one_handler EV pending queued waiters s"
  using run one
proof induction
  case Boot
  show ?case by (simp add: one_handler_def shutdown_start_def)
next
  case (Install s)
  then have "handlers s = []" "one_handler EV pending queued waiters s" by (simp_all add: handlers_grow)
  then show ?case
    using signal_new [OF ss]
    by (simp add: one_handler_def install_signal_handler_def Let_def complete_waits_def)
next
  case (Start s i t)
  obtain x ready x' where i: "i < length (handlers s)" "handlers s ! i = HPosted" and x: "g_shutdown_signal s = Some x"
    and w: "ss_wait SS i x = (ready, x')"
    and t: "t = s\<lparr>g_shutdown_signal := Some x',
      handlers := (handlers s)[i := if ready then HCompleted False else HWaiting]\<rparr>"
    using Start.hyps(2) by (rule handler_startE)
  then have h: "handlers s = [HPosted]" "i = 0" using Start.prems by (auto simp: length_Suc_conv le_Suc_eq)
  then have "pending x = []" "queued x = signalled s" using Start x by (simp_all add: one_handler_def t)
  then show ?case using signal_wait [OF ss w] h by (auto simp: one_handler_def t)
next
  case (Resume s i t)
  obtain err resumed e' where i: "i < length (handlers s)" "handlers s ! i = HCompleted err"
    and t: "t = s\<lparr>g_shutdown_event := e', handlers := (handlers s)[i := HReturned], went_on := went_on s @ resumed\<rparr>"
    using Resume.hyps(2) by (rule handler_resumeE)
  then have h: "handlers s = [HCompleted err]" "i = 0" using Resume.prems by (auto simp: length_Suc_conv le_Suc_eq)
  then show ?case using Resume by (auto simp: one_handler_def t split: option.splits)
next
  case (Signal s t)
  obtain x hit x' where x: "g_shutdown_signal s = Some x" and d: "ss_deliver SS x = (hit, x')"
    and t: "t = s\<lparr>g_shutdown_signal := Some x', handlers := complete_waits False hit (handlers s),
      signalled := signalled s + 1\<rparr>"
    using Signal.hyps(2) by (rule deliver_signalE)
  have len: "length (handlers s) \<le> 1" using Signal.prems by (simp add: t complete_waits_simps)
  then have one: "one_handler EV pending queued waiters s" by (rule Signal.IH)
  then obtain h where h: "handlers s = [h]"
    using len x by (cases "handlers s") (auto simp: one_handler_def)
  show ?case
    using one signal_deliver [OF ss d] x
    by (cases h) (auto simp: one_handler_def t h complete_waits_def)
next
  case (Await s j)
  then show ?case unfolding one_handler_def await_event_same by blast
qed

text \<open>
  The contract in the comment of the header: with one call of \<open>install_signal_handler\<close>, nobody who awaits the
  event goes on before a signal, and once there was one and the handler has nothing left to do, the event is set
  and everybody who has awaited it, before or after, has gone on, once each.
\<close>

lemma shutdown_on_signal:
  assumes ss: "signal_laws SS pending queued" and ev: "event_laws EV waiters" and run: "shutdown_run SS EV s"
    and one: "length (handlers s) = 1"
  shows "ev_is_set EV (g_shutdown_event s) \<or> went_on s \<noteq> [] \<Longrightarrow> 0 < signalled s"
    and "handlers_rest SS EV s \<Longrightarrow> 0 < signalled s \<Longrightarrow>
      ev_is_set EV (g_shutdown_event s) \<and> mset (went_on s) = mset (asked s)"
proof -
  obtain h where h: "handlers s = [h]" using one by (auto simp: length_Suc_conv)
  have inv: "one_handler EV pending queued waiters s" using shutdown_one_handler [OF ss ev run] one by simp
  then obtain x where x: "g_shutdown_signal s = Some x" by (auto simp: one_handler_def h split: option.splits)
  have ok: "event_ok EV waiters s" using shutdown_event_ok [OF ss ev run] by blast
  show "0 < signalled s" if "ev_is_set EV (g_shutdown_event s) \<or> went_on s \<noteq> []"
    using that inv ok by (auto simp: one_handler_def event_ok_def h x)
  show "ev_is_set EV (g_shutdown_event s) \<and> mset (went_on s) = mset (asked s)"
    if rest: "handlers_rest SS EV s" and signal: "0 < signalled s"
  proof -
    have "h \<noteq> HPosted" "h \<noteq> HCompleted True" "h \<noteq> HCompleted False"
      using rest by (auto simp: handlers_rest_def handler_start_def handler_resume_def h x split: prod.splits)
    moreover have "h \<noteq> HWaiting" using inv signal by (auto simp: one_handler_def h x)
    ultimately have "h = HReturned" by (cases h) simp_all
    then show ?thesis using ok by (simp add: event_ok_def h)
  qed
qed

section \<open>A library, and a second installation\<close>

definition table_signals :: "(nat list \<times> nat) signal_ops" where
  "table_signals =
     \<lparr>ss_new = ([], 0),
      ss_wait = (\<lambda>i (ws, n). if 0 < n then (True, (ws, n - 1)) else (False, (ws @ [i], n))),
      ss_deliver = (\<lambda>(ws, n). (ws, ([], if ws = [] then n + 1 else n))),
      ss_destroy = fst\<rparr>"

definition table_event :: "(nat list \<times> bool) event_ops" where
  "table_event =
     \<lparr>ev_new = ([], False), ev_set = (\<lambda>(ws, b). (ws, ([], True))),
      ev_await = (\<lambda>j (ws, b). if b then (True, (ws, b)) else (False, (ws @ [j], b))),
      ev_is_set = snd\<rparr>"

lemma table_signals_laws: "signal_laws table_signals fst snd"
  by (auto simp: signal_laws_def table_signals_def)

lemma table_event_laws: "event_laws table_event fst"
  by (auto simp: event_laws_def table_event_def)

lemmas shutdown_steps = shutdown_start_def install_signal_handler_def handler_start_def handler_resume_def
  deliver_signal_def await_event_def complete_waits_def table_signals_def table_event_def Let_def

text \<open>
  The handler discards the error of its wait. A second call of \<open>install_signal_handler\<close> destroys the set that the
  first handler waits on, so that handler is resumed with an error and sets the event: a coroutine that awaits
  the shutdown goes on without any signal.
\<close>

lemma second_handler_shuts_down:
  "\<exists>s. shutdown_run table_signals table_event s \<and> ev_is_set table_event (g_shutdown_event s) \<and>
     signalled s = 0 \<and> went_on s = [7] \<and> length (handlers s) = 2"
proof -
  let ?SS = table_signals and ?EV = table_event
  let ?a = "await_event ?EV 7 (install_signal_handler ?SS (shutdown_start ?EV))"
  let ?b = "?a\<lparr>g_shutdown_signal := Some ([0], 0), handlers := [HWaiting]\<rparr>"
  let ?c = "install_signal_handler ?SS ?b"
  let ?d = "?c\<lparr>g_shutdown_event := ([], True), handlers := [HReturned, HPosted], went_on := [7]\<rparr>"
  have "shutdown_run ?SS ?EV ?a"
    by (rule shutdown_run.Await [OF shutdown_run.Install [OF shutdown_run.Boot]])
  moreover have "handler_start ?SS 0 ?a = Some ?b" by (simp add: shutdown_steps)
  ultimately have "shutdown_run ?SS ?EV ?b" by (rule shutdown_run.Start)
  then have "shutdown_run ?SS ?EV ?c" by (rule shutdown_run.Install)
  moreover have "handler_resume ?EV 0 ?c = Some ?d" by (simp add: shutdown_steps)
  ultimately have "shutdown_run ?SS ?EV ?d" by (rule shutdown_run.Resume)
  then show ?thesis by (intro exI [of _ ?d]) (simp add: shutdown_steps)
qed

text \<open>Once the handler has returned it takes no more signals; they are kept in the set.\<close>

lemma later_signals_ignored:
  assumes "signal_laws SS pending queued" and "event_laws EV waiters" and "shutdown_run SS EV s"
    and "handlers s = [HReturned]" and "deliver_signal SS s = Some t"
  shows "handlers t = [HReturned] \<and> went_on t = went_on s \<and> g_shutdown_event t = g_shutdown_event s"
proof -
  have one: "one_handler EV pending queued waiters s"
    using shutdown_one_handler [OF assms(1,2,3)] assms(4) by simp
  obtain x hit x' where x: "g_shutdown_signal s = Some x" and d: "ss_deliver SS x = (hit, x')"
    and t: "t = s\<lparr>g_shutdown_signal := Some x', handlers := complete_waits False hit (handlers s),
      signalled := signalled s + 1\<rparr>"
    using assms(5) by (rule deliver_signalE)
  have "hit = []" using one assms(4) signal_deliver [OF assms(1) d] by (simp add: one_handler_def x)
  then show ?thesis using assms(4) by (simp add: t complete_waits_def)
qed

end
