(* ===== verification/Executor_Config.thy ===== *)
theory Executor_Config
  imports Hwloc_Servers Hybrid Prelude
begin

text \<open>
  How the \<open>main\<close> functions set up the executors that they use: the calls on the executors in program order,
  and what is run on them. With \<open>hwloc\<close> is meant a build with \<open>TMC_USE_HWLOC\<close>.
\<close>

section \<open>Calls\<close>

text \<open>The global executors, and those that are local variables of the benchmarks.\<close>

datatype executor = CpuEx | AsioEx | ProdEx | ConsEx | Producer_ex | Exc | Excst | Exasio

datatype 'n config =
    AddGroups "nat list"             \<comment> \<open>\<open>add_partition\<close> with group indexes\<close>
  | AddCores "nat list"              \<comment> \<open>with core indexes\<close>
  | AddKind cpu_kind nat nat         \<comment> \<open>with a kind of core, and its range of priorities\<close>
  | SetThreads 'n | SetPriorities nat | SetSpins nat | SetStrategy | InitHook | TeardownHook

text \<open>
  \<open>Submit\<close> is work for an executor with its priority; \<open>AsyncMain\<close> initialises the CPU executor if nothing
  has done so, and runs \<open>main\<close>'s coroutine there.
\<close>

datatype 'n call = Configure executor "'n config" | InitOf executor | AsyncMain | Submit executor nat

text \<open>
  The order the calls have to be in: an executor is configured before it is initialised, initialised once,
  and used only after that, with priorities below its number of priorities, which is 1 unless set.
  The Asio executors have no priorities.
\<close>

definition has_priorities :: "executor \<Rightarrow> bool" where
  "has_priorities e \<longleftrightarrow> e \<noteq> AsioEx \<and> e \<noteq> Exasio"

fun well_used :: "executor set \<Rightarrow> (executor \<Rightarrow> nat) \<Rightarrow> 'n call list \<Rightarrow> bool" where
  "well_used running prios [] = True"
| "well_used running prios (Configure e c # cs) =
     (e \<notin> running \<and> well_used running (case c of SetPriorities n \<Rightarrow> prios(e := n) | _ \<Rightarrow> prios) cs)"
| "well_used running prios (InitOf e # cs) = (e \<notin> running \<and> well_used (insert e running) prios cs)"
| "well_used running prios (AsyncMain # cs) = well_used (insert CpuEx running) prios cs"
| "well_used running prios (Submit e p # cs) =
     (e \<in> running \<and> (has_priorities e \<longrightarrow> p < prios e) \<and> well_used running prios cs)"

definition well_configured :: "'n call list \<Rightarrow> bool" where
  "well_configured cs = well_used {} (\<lambda>_. 1) cs"

section \<open>The programs\<close>

definition http_server_executors :: "bool \<Rightarrow> nat list \<Rightarrow> 'w::len word call list option" where
  "http_server_executors hwloc groups =
     map_option (\<lambda>pinning. pinning @
         [InitOf AsioEx, InitOf CpuEx, AsyncMain, Submit CpuEx 0, Submit AsioEx 0])
       (if hwloc then
          (case groups of
             [] \<Rightarrow> None
           | cores # _ \<Rightarrow> Some [Configure AsioEx (AddGroups [0]), Configure CpuEx (AddGroups [0]),
               Configure CpuEx (SetThreads (of_nat cores - 1))])
        else Some [])"

definition http_skynet_executors :: "'n call list" where
  "http_skynet_executors =
     [Configure CpuEx (SetPriorities 2), InitOf CpuEx, InitOf AsioEx, AsyncMain, Submit CpuEx 1, Submit CpuEx 0,
      Submit AsioEx 0]"

text \<open>The producer's executor for one producer and for several, and that of the consumer.\<close>

definition queue_bench_producers :: "bool \<Rightarrow> nat \<Rightarrow> nat call list" where
  "queue_bench_producers hwloc PRODUCER_COUNT =
     (if PRODUCER_COUNT = 1
      then (if hwloc then [Configure ProdEx (AddCores [1])] else []) @ [InitOf ProdEx]
      else (if hwloc then [Configure ProdEx (AddCores [1..<PRODUCER_COUNT + 1])] else []) @
        [Configure ProdEx (SetThreads PRODUCER_COUNT), InitOf ProdEx])"

definition queue_bench_consumers :: "bool \<Rightarrow> nat call list" where
  "queue_bench_consumers hwloc = (if hwloc then [Configure ConsEx (AddCores [0])] else []) @ [InitOf ConsEx]"

definition queue_bench_executors :: "bool \<Rightarrow> nat \<Rightarrow> nat call list" where
  "queue_bench_executors hwloc PRODUCER_COUNT =
     queue_bench_producers hwloc PRODUCER_COUNT @ [Submit ProdEx 0] @
     queue_bench_consumers hwloc @ [Submit ConsEx 0, Submit ProdEx 0]"

definition pin_to_group0 :: "bool \<Rightarrow> executor \<Rightarrow> nat call list" where
  "pin_to_group0 hwloc e = (if hwloc then [Configure e (AddGroups [0])] else [])"

definition roundtrip_executors :: "bool \<Rightarrow> nat call list" where
  "roundtrip_executors hwloc =
     pin_to_group0 hwloc Producer_ex @ [Configure Producer_ex (SetSpins 50), InitOf Producer_ex, Submit Producer_ex 0] @
     pin_to_group0 hwloc Exc @ [Configure Exc (SetSpins 50), Configure Exc (SetThreads 1), InitOf Exc] @
     pin_to_group0 hwloc Excst @ [Configure Excst (SetSpins 50), InitOf Excst] @
     pin_to_group0 hwloc Exasio @ [InitOf Exasio] @
     [Submit Exc 0, Submit Excst 0, Submit Exasio 0, Submit Producer_ex 0]"

definition hybrid_executors :: "bool \<Rightarrow> nat call list" where
  "hybrid_executors hybrid =
     (if hybrid then map (\<lambda>(kind, lo, hi). Configure CpuEx (AddKind kind lo hi)) partitions else []) @
     [Configure CpuEx (SetPriorities priority_count), Configure CpuEx InitHook, InitOf CpuEx,
      Submit CpuEx 0, Submit CpuEx 1, Submit CpuEx 2]"

definition prio_executors :: "nat list \<Rightarrow> nat call list" where
  "prio_executors rands =
     [InitOf AsioEx, Configure CpuEx (SetThreads 2), Configure CpuEx (SetPriorities 16), InitOf CpuEx, AsyncMain] @
     concat (map (\<lambda>r. [Submit CpuEx (r mod 16), Submit AsioEx (r mod 16)]) rands)"

definition delay_executors :: "nat call list" where
  "delay_executors =
     [Configure CpuEx InitHook, Configure CpuEx TeardownHook, Configure AsioEx InitHook,
      Configure AsioEx TeardownHook, InitOf AsioEx, AsyncMain, Submit AsioEx 0, Submit CpuEx 0]"

definition external_awaitable_executors :: "nat call list" where
  "external_awaitable_executors =
     [Configure CpuEx InitHook, Configure CpuEx (SetPriorities 2), InitOf CpuEx, Submit CpuEx 1, Submit CpuEx 0]"

definition external_executor_executors :: "nat call list" where
  "external_executor_executors = [Configure CpuEx InitHook, InitOf CpuEx, Submit CpuEx 0, Submit CpuEx 0]"

definition skynet_executors :: "nat call list" where
  "skynet_executors = [Configure CpuEx SetStrategy, InitOf CpuEx, AsyncMain, Submit CpuEx 0]"

text \<open>Those that only initialise: \<open>chan_bench.cpp\<close>; \<open>sync.cpp\<close> and \<open>external_coro.cpp\<close>; the programs with timers.\<close>

definition chan_bench_executors :: "nat call list" where
  "chan_bench_executors = [InitOf CpuEx, AsyncMain, Submit CpuEx 0]"

definition blocking_executors :: "nat call list" where
  "blocking_executors = [InitOf CpuEx, Submit CpuEx 0]"

definition timer_executors :: "nat call list" where
  "timer_executors = [InitOf AsioEx, AsyncMain, Submit AsioEx 0, Submit CpuEx 0]"

section \<open>Every executor is configured, initialised and used in this order\<close>

lemmas config_defs = well_configured_def http_skynet_executors_def queue_bench_executors_def
  queue_bench_producers_def queue_bench_consumers_def roundtrip_executors_def pin_to_group0_def
  hybrid_executors_def partitions_def priority_count_def delay_executors_def external_awaitable_executors_def
  external_executor_executors_def skynet_executors_def chan_bench_executors_def blocking_executors_def
  timer_executors_def has_priorities_def

lemma programs_well_configured:
  "well_configured (http_skynet_executors :: nat call list)"
  "well_configured (queue_bench_executors hwloc n)"
  "well_configured (roundtrip_executors hwloc)"
  "well_configured (hybrid_executors hybrid)"
  "list_all well_configured [delay_executors, external_awaitable_executors, external_executor_executors,
     skynet_executors, chan_bench_executors, blocking_executors, timer_executors]"
  by (simp_all add: config_defs)

lemma http_server_well_configured:
  "http_server_executors hwloc groups = Some cs \<Longrightarrow> well_configured cs"
  by (auto simp: http_server_executors_def config_defs split: if_splits list.splits)

text \<open>Random priorities are in range because of the remainder.\<close>

lemma prio_well_configured: "well_configured (prio_executors rands)"
proof -
  have used: "well_used running prios (concat (map (\<lambda>r. [Submit CpuEx (r mod 16), Submit AsioEx (r mod 16)]) rands))"
    if "CpuEx \<in> running" "AsioEx \<in> running" "prios CpuEx = 16" for running prios
    using that by (induction rands) (simp_all add: has_priorities_def)
  show ?thesis by (simp add: prio_executors_def well_configured_def used)
qed

section \<open>Where the executors run\<close>

text \<open>
  \<open>http_server\<close>: one core of the group is left for Asio. A topology without groups makes \<open>topo.groups[0]\<close>
  undefined; a group with one core leaves none for the CPU executor.
\<close>

lemma http_server_threads:
  assumes "0 < cores" and "cores < 2 ^ LENGTH('w::len)"
  shows "\<exists>n cs. http_server_executors True (cores # gs) = Some cs \<and>
     Configure CpuEx (SetThreads (n :: 'w word)) \<in> set cs \<and> unat n + 1 = cores"
proof (intro exI conjI)
  show "http_server_executors True (cores # gs) = Some
     [Configure AsioEx (AddGroups [0]), Configure CpuEx (AddGroups [0]),
      Configure CpuEx (SetThreads (of_nat cores - 1)),
      InitOf AsioEx, InitOf CpuEx, AsyncMain, Submit CpuEx 0, Submit AsioEx 0]"
    by (simp add: http_server_executors_def)
  show "Configure CpuEx (SetThreads (of_nat cores - 1 :: 'w word)) \<in> set
     [Configure AsioEx (AddGroups [0]), Configure CpuEx (AddGroups [0]),
      Configure CpuEx (SetThreads (of_nat cores - 1)),
      InitOf AsioEx, InitOf CpuEx, AsyncMain, Submit CpuEx 0, Submit AsioEx 0]"
    by simp
  obtain m where m: "cores = Suc m" using assms(1) by (cases cores) auto
  then have "of_nat cores - (1 :: 'w word) = of_nat m" and "m < 2 ^ LENGTH('w)" using assms(2) by simp_all
  then show "unat (of_nat cores - 1 :: 'w word) + 1 = cores"
    by (simp only: m) (simp add: unsigned_of_nat take_bit_nat_eq_self)
qed

lemma http_server_no_groups: "http_server_executors True [] = None"
  by (simp add: http_server_executors_def)

text \<open>
  \<open>queue_bench\<close>: the producers get as many cores as there are of them, all different and none of them the core of
  the consumer.
\<close>

lemma queue_bench_cores:
  assumes "0 < n" and "Configure e (AddCores cores) \<in> set (queue_bench_executors True n)"
  shows "e = ProdEx \<and> length cores = n \<and> distinct cores \<and> 0 \<notin> set cores \<or> e = ConsEx \<and> cores = [0]"
  using assms by (auto simp: config_defs split: if_splits)

text \<open>
  The calls of \<open>asio_server_per_cache.cpp\<close>, on the two executors of one worker. A process that was started with
  a cache index initialises its CPU executor twice.
\<close>

fun worker_call :: "'w word ex_call \<Rightarrow> 'w::len word call" where
  "worker_call (AsioPartition i) = Configure AsioEx (AddGroups [unat i])"
| "worker_call AsioInit = InitOf AsioEx"
| "worker_call (CpuPartition i) = Configure CpuEx (AddGroups [unat i])"
| "worker_call (CpuThreads n) = Configure CpuEx (SetThreads n)"
| "worker_call CpuInit = InitOf CpuEx"

lemma per_cache_configured:
  assumes "configure_executors groups i = Some calls"
  shows "well_configured (map worker_call calls)" and "\<not> well_configured (map worker_call (calls @ [CpuInit]))"
  using assms by (auto simp: configure_executors_def well_configured_def split: if_splits)

end
