(* ===== verification/Clock.thy ===== *)
theory Clock
  imports Timeout Format
begin

text \<open>
  Time stamps and durations: the conversions with which the programs turn two readings of
  \<open>high_resolution_clock\<close> into a \<open>size_t\<close>, and the lines that \<open>asio/mux_timeout.cpp\<close> and \<open>asio/select.cpp\<close> print for
  the events of \<open>Timeout\<close>. Readings are in nanoseconds, the tick of that clock in the common libraries.
\<close>

section \<open>Durations\<close>

text \<open>\<open>duration_cast\<close> to a unit of so many ticks truncates towards zero; \<open>static_cast<size_t>\<close> wraps.\<close>

definition duration_cast :: "int \<Rightarrow> int \<Rightarrow> int" where
  "duration_cast ticks d = sgn d * (\<bar>d\<bar> div ticks)"

definition execDur :: "int \<Rightarrow> int \<Rightarrow> 'w::len word" where
  "execDur startTime endTime = word_of_int (duration_cast 1000 (endTime - startTime))"

definition duration_us :: "int \<Rightarrow> int \<Rightarrow> 'w::len word" where
  "duration_us startTime endTime = word_of_int (duration_cast 1000 (endTime - startTime))"

definition run_bench_durMs :: "int \<Rightarrow> int \<Rightarrow> 'w::len word" where
  "run_bench_durMs startTime endTime = word_of_int (duration_cast 1000000 (endTime - startTime))"

text \<open>The number of whole units that have passed, if the clock has not been set back and the type holds it.\<close>

lemma duration_forward:
  assumes "s \<le> e" and "0 < k" and "(e - s) div k < 2 ^ LENGTH('w::len)"
  shows "uint (word_of_int (duration_cast k (e - s)) :: 'w word) = (e - s) div k"
proof -
  have "duration_cast k (e - s) = (e - s) div k"
    using assms(1) by (cases "e = s") (simp_all add: duration_cast_def)
  moreover have "0 \<le> (e - s) div k" using assms(1,2) by (simp add: pos_imp_zdiv_nonneg_iff)
  ultimately show ?thesis using assms(3) by (simp add: unsigned_of_int take_bit_int_eq_self)
qed

lemma durations_exact:
  assumes "s \<le> e" and "e - s < 1000 * 2 ^ LENGTH('w::len)"
  shows "uint (execDur s e :: 'w word) = (e - s) div 1000"
    and "uint (duration_us s e :: 'w word) = (e - s) div 1000"
    and "uint (run_bench_durMs s e :: 'w word) = (e - s) div 1000000"
proof -
  have us: "(e - s) div 1000 < 2 ^ LENGTH('w)" using assms(2) by (simp add: div_less_iff_less_mult mult.commute)
  have "(e - s) div 1000000 \<le> (e - s) div 1000" using assms(1) by (intro zdiv_mono2) simp_all
  then have ms: "(e - s) div 1000000 < 2 ^ LENGTH('w)" using us by simp
  show "uint (execDur s e :: 'w word) = (e - s) div 1000" "uint (duration_us s e :: 'w word) = (e - s) div 1000"
    unfolding execDur_def duration_us_def by (rule duration_forward [OF assms(1) _ us]; simp)+
  show "uint (run_bench_durMs s e :: 'w word) = (e - s) div 1000000"
    unfolding run_bench_durMs_def by (rule duration_forward [OF assms(1) _ ms]) simp
qed

text \<open>
  \<open>high_resolution_clock\<close> may be the system clock, which can be set back between two readings; by less than a
  unit it makes no difference, by a unit or more the duration is close to the largest \<open>size_t\<close>.
\<close>

lemma clock_set_back:
  assumes "e < s" and "(s - e) div 1000 \<le> 2 ^ LENGTH('w::len)"
  shows "uint (execDur s e :: 'w word) =
    (if s - e < 1000 then 0 else 2 ^ LENGTH('w) - (s - e) div 1000)"
proof -
  let ?n = "(s - e) div 1000"
  have cast: "duration_cast 1000 (e - s) = - ?n" using assms(1) by (simp add: duration_cast_def)
  show ?thesis
  proof (cases "s - e < 1000")
    case True
    then have "?n = 0" using assms(1) by simp
    then show ?thesis using True by (simp add: execDur_def cast)
  next
    case False
    then have n: "1 \<le> ?n" by linarith
    have "(- ?n) mod 2 ^ LENGTH('w) = (2 ^ LENGTH('w) - ?n) mod 2 ^ LENGTH('w)" by (simp add: mod_diff_left_eq)
    also have "\<dots> = 2 ^ LENGTH('w) - ?n" using n assms(2) by (intro mod_pos_pos_trivial) simp_all
    finally show ?thesis using False unfolding execDur_def cast uint_word_of_int by simp
  qed
qed

section \<open>The lines of the two programs with timeouts\<close>

definition log_event_timestamp :: "string \<Rightarrow> int \<Rightarrow> int \<Rightarrow> string" where
  "log_event_timestamp event startTime now =
     (let duration = (word_of_int (duration_cast 1000 (now - startTime)) :: 64 word)
      in event @ '' at '' @ to_string (unat duration) @ '' us'')"

definition select_log_event_timestamp :: "string \<Rightarrow> int \<Rightarrow> int \<Rightarrow> string" where
  "select_log_event_timestamp event startTime now =
     (let duration = (word_of_int (duration_cast 1000 (now - startTime)) :: 64 word)
      in event @ '' at '' @ to_string (unat duration) @ '' us'')"

text \<open>An event of the log, with the time that is printed with it, if any.\<close>

definition printf_d :: "int \<Rightarrow> string" where
  "printf_d i = (if i < 0 then ''-'' @ to_string (nat (- i)) else to_string (nat i))"

fun event_line :: "(int \<Rightarrow> string) \<Rightarrow> int \<Rightarrow> event \<times> int \<Rightarrow> string" where
  "event_line msg startTime (Completed, t) = log_event_timestamp ''operation completed'' startTime t"
| "event_line msg startTime (Canceled, t) = log_event_timestamp ''operation canceled'' startTime t"
| "event_line msg startTime (Unexpected v, t) =
     ''an unexpected error occurred: '' @ printf_d v @ '' | '' @ msg v"
| "event_line msg startTime (TimeoutOccurred, t) = log_event_timestamp ''timeout occurred'' startTime t"
| "event_line msg startTime (CancellationSignaled, t) = log_event_timestamp ''cancellation signaled'' startTime t"
| "event_line msg startTime (TimedOut, t) = select_log_event_timestamp ''operation timed out'' startTime t"
| "event_line msg startTime (Blank, t) = []"
| "event_line msg startTime (Exit n, t) = []"

text \<open>The two copies of \<open>log_error_code\<close>, as what they print.\<close>

definition log_error_line :: "(int \<Rightarrow> string) \<Rightarrow> int \<Rightarrow> int \<Rightarrow> int \<Rightarrow> int \<Rightarrow> string" where
  "log_error_line msg aborted err startTime now =
     (if err = 0 then log_event_timestamp ''operation completed'' startTime now
      else if err = aborted then log_event_timestamp ''operation canceled'' startTime now
      else ''an unexpected error occurred: '' @ printf_d err @ '' | '' @ msg err)"

definition select_log_error_line :: "(int \<Rightarrow> string) \<Rightarrow> int \<Rightarrow> int \<Rightarrow> int \<Rightarrow> int \<Rightarrow> string" where
  "select_log_error_line msg aborted err startTime now =
     (if err = 0 then select_log_event_timestamp ''operation completed'' startTime now
      else if err = aborted then select_log_event_timestamp ''operation canceled'' startTime now
      else ''an unexpected error occurred: '' @ printf_d err @ '' | '' @ msg err)"

lemma error_lines:
  "map (\<lambda>e. event_line msg startTime (e, now)) (log_error_code aborted err) =
     [log_error_line msg aborted err startTime now]"
  "map (\<lambda>e. event_line msg startTime (e, now)) (select_log_error_code aborted err) =
     [select_log_error_line msg aborted err startTime now]"
  by (simp_all add: log_error_code_def select_log_error_code_def log_error_line_def select_log_error_line_def
      log_event_timestamp_def select_log_event_timestamp_def)

lemma stamped_line:
  assumes "startTime \<le> now" and "now - startTime < 1000 * 2 ^ 64"
  shows "log_event_timestamp event startTime now =
    event @ '' at '' @ to_string (nat ((now - startTime) div 1000)) @ '' us''"
proof -
  have "uint (execDur startTime now :: 64 word) = (now - startTime) div 1000"
    using durations_exact(1) [where 'w = 64, OF assms(1)] assms(2) by simp
  then show ?thesis by (simp add: log_event_timestamp_def execDur_def Let_def flip: nat_uint_eq)
qed

text \<open>
  An iteration of \<open>mux_timeout.cpp\<close> with the clock in microseconds: the timeout carries the time at which its task
  ended, which may be earlier than that of a line before it.
\<close>

lemma mux_timeout_lines:
  "map (event_line msg 0) [(TimeoutOccurred, 100123456), (CancellationSignaled, 100130000), (Canceled, 100150999)] =
     [''timeout occurred at 100123 us'', ''cancellation signaled at 100130 us'', ''operation canceled at 100150 us'']"
  "map (event_line msg 0) [(Completed, 100200000), (TimeoutOccurred, 100100000), (CancellationSignaled, 100300000)] =
     [''operation completed at 100200 us'', ''timeout occurred at 100100 us'', ''cancellation signaled at 100300 us'']"
  by (simp_all add: stamped_line to_string.simps char_of_def bit_Suc_0_iff)

end
