(* ===== verification/Spec2Isabelle.thy ===== *)
theory Spec2Isabelle
  imports Pipeline_Types Pipeline_Fifo_App Format Skynet Spawn_Iterator Chan_Bench Queue_Bench
    Roundtrip_Bench Braid External_Demo External_Awaitable External_Coro Callback Http_Servers
    Hwloc_Servers Hybrid Sync_Program Batch_Processor Select External_Spawn
    Delay Priorities Alignment Bench_Report Topo_Print Timer_Mem Program_Output
    Listening Callback_Traits Shutdown_Signal Executor_Config Clock
begin

text \<open>
  A verification development for the example programs of TooManyCooks (\<open>src/examples\<close>), a C++20
  coroutine library. The library itself is a submodule that is not part of the repository. Its
  primitives (channels, semaphores, queues, braids, \<open>mux_tuple\<close>, \<open>select\<close>, \<open>spawn_many\<close> on an
  iterator) are therefore parameters of the definitions that use them, and what it documents about them is
  the hypothesis \<open>\<dots>_laws\<close> of the theorems. Each such predicate comes with a concrete instance that
  satisfies it and that the witnesses use.

  How concurrency is modelled. A program is a record of its shared state and of the points at which its
  coroutines or threads are suspended, with a step function \<open>agent \<Rightarrow> state \<Rightarrow> state option\<close>: one agent runs to its
  next suspension point (or, for threads, performs one atomic operation); \<open>None\<close> says that it cannot run.
  \<open>run_steps\<close> runs a schedule, a list of agents, and \<open>stuck\<close> says that no agent can run. A theorem
  about all schedules is a theorem about all interleavings and all timings: timers and socket operations
  complete when the schedule says so (in \<open>Select\<close>, where durations decide, no earlier than a clock and no later than a
  latency allow). Liveness is stated without fairness: the steps are bounded by
  an explicit number, and a state in which nothing can run is a final one. The locales
  \<open>invariant_system\<close> and \<open>terminating_system\<close> of \<open>Prelude\<close> prove the facts about schedules once; each component
  interprets them on its step function. No fuel is used: loops are steps of a schedule, and
  functions that compute (\<open>comma_loop\<close>, \<open>read_all\<close>, \<open>to_string\<close>) have termination proofs.

  The theories, and the files under \<open>src/examples\<close> that they model:

  \<^item> \<open>Prelude\<close>: schedules, their locales, lemmas on lists and sums. \<open>Tmc\<close>: channel, semaphore and
    single-producer queue of the library. \<open>Mux\<close>: \<open>mux_tuple\<close> and the unbounded queue.

  \<^item> \<open>pipeline.hpp\<close>, \<open>pipeline.cpp\<close>: \<open>Pipeline\<close> has the workers, the tasks that close the channels, the
    constructors and the producer; \<open>Pipeline_Inv\<close> the invariant (conservation of the
    elements, the bound on each channel, closed channels); \<open>Pipeline_Correct\<close> the properties: every
    element comes out exactly once, the program ends, back pressure, no post to a closed channel.
    \<open>Pipeline_App\<close> instantiates them with the stages of the program, on floating point numbers
    (\<open>Fp\<close>: rounding to 24 and 53 bits), and \<open>Pipeline_Types\<close> shows that every channel carries values of its
    type.

  \<^item> \<open>pipeline_fifo.hpp\<close>, \<open>pipeline_fifo.cpp\<close>: \<open>Pipeline_Fifo\<close> (workers that fork tasks and pass their
    handles on, the inline and the parallel end stage), \<open>Pipeline_Fifo_Inv\<close> and
    \<open>Pipeline_Fifo_Keep\<close> (the invariant and its preservation), \<open>Pipeline_Fifo_Gate\<close> (the handles of forked tasks, queued or
    being awaited, and the tasks in flight), \<open>Pipeline_Fifo_Correct\<close> (results in the order
    of the inputs, termination, the gate on parallelism, the internal queue never fills),
    \<open>Pipeline_Fifo_App\<close> (the program).

  \<^item> \<open>skynet.cpp\<close>, \<open>fib.cpp\<close>: \<open>Fork_Join\<close> is the tree of coroutine frames of a recursive fork-join program, with
    a locale for the contract of such a program; \<open>Skynet\<close> interprets it for both and proves
    their results on machine words.

  \<^item> \<open>spawn_iterator.cpp\<close>: \<open>Spawn_Iterator\<close>, the ways to spawn tasks from an iterator with the assertions of
    the file, including the overflow that begins at 31 tasks.

  \<^item> The benchmarks \<open>chan_bench.cpp\<close>, \<open>queue_bench.cpp\<close>, \<open>exec_st_roundtrip_bench.cpp\<close>: \<open>Work_Split\<close> (the
    division of the elements, a locale interpreted for all three), \<open>Chan_Bench\<close>, \<open>Queue_Bench\<close>,
    \<open>Roundtrip_Bench\<close> (no configuration prints \<open>FAIL\<close>, every element is consumed exactly
    once; a run with the polling consumer is, without its idle polls, a run with the other one), \<open>Format\<close> (the printed numbers) and \<open>Bench_Report\<close> (the sweeps and everything that is printed about
    them, with the error of the rates that are computed in \<open>double\<close>).

  \<^item> \<open>braid.cpp\<close>: \<open>Braid\<close>, the six examples as scripts over a braid; no increment is lost.

  \<^item> \<open>external/\<close>: \<open>External_Executor\<close> (a thread pool with a mutex and a condition variable, whose notifications
    can be lost in the model if the code lets them, and its adapter; a spurious wake-up would only run the test of
    \<open>wait\<close> once more, by lemma \<open>spurious_wakeup\<close>), \<open>External_Awaitable\<close> (the race of three
    threads of control for the life of an object), \<open>External_Coro\<close> (coroutine frames in a heap with
    symmetric transfer; use after destruction would be a fault of the model; the awaiter of the void type, which
    no program uses, loses its task), \<open>Callback\<close> (awaiting functions that take a callback, each
    statement of the awaiter, of the setters and of the callbacks a step of its own), \<open>Callback_Traits\<close>
    (the deduction of their result types, and the customizer). \<open>External_Demo\<close> is the program \<open>external_executor.cpp\<close>: \<open>main\<close>, the thread of the
    pool and the threads of the other executor together, up to the destruction of the pool, after which a last
    notification can still come; \<open>External_Spawn\<close> the second test of
    \<open>external_awaitable.cpp\<close>, with its use of a dead flag. \<open>Thread_Names\<close> has what the threads are called.

  \<^item> \<open>sync.cpp\<close>, \<open>hwloc/hybrid_executor.cpp\<close>: \<open>Blocking\<close> is a thread that posts work to an executor and waits for
    futures; \<open>Sync_Program\<close> and \<open>Hybrid\<close> run the two programs on it.

  \<^item> \<open>asio/http_server.cpp\<close>, \<open>asio/http_skynet.cpp\<close>, \<open>hwloc/asio_thread_per_core.cpp\<close>,
    \<open>hwloc/asio_server_per_cache.cpp\<close>: \<open>Http_Framing\<close> (the bytes of the responses and a client that parses
    them), \<open>Http\<close> (handlers, accept loops, processes; a read delivers a piece of the bytes that a client sends, not a
    request), \<open>Http_Correct\<close> (the locales \<open>responder\<close>, \<open>waiter\<close> and
    \<open>server\<close>: what a process relies on from its handler and from its way of waiting),
    \<open>Http_Servers\<close> and \<open>Hwloc_Servers\<close> (their interpretations and the properties). \<open>Listening\<close> is the set-up
    of the acceptors of all four over a kernel given by laws, with the errors of \<open>bind\<close> when a port is not shared; the
    processes start from the accept loops, that is after this set-up has succeeded.

  \<^item> \<open>asio/shutdown_signal.hpp\<close>: \<open>Shutdown_Signal\<close>. With one installation nobody goes on before a signal and
    everybody after it; a second installation sets the event without any signal.

  \<^item> \<open>asio/batch_processor.cpp\<close>: \<open>Batch_Processor\<close>. \<open>asio/mux_timeout.cpp\<close>: \<open>Timeout\<close>.
    \<open>asio/select.cpp\<close>: \<open>Select\<close>, two timers and a coroutine on a machine with a latency, which decides who wins unless it is
    small. The printed lines of both are in \<open>Clock\<close>.

  \<^item> Across the programs: \<open>Executor_Config\<close> has the calls with which the \<open>main\<close> functions set up executors (each one
    configured, initialised once and used only then, with priorities in range; where they are pinned), \<open>Clock\<close>
    the conversion of clock readings into the durations that the programs print.

  \<^item> The smaller programs: \<open>Delay\<close> (\<open>asio/delay.cpp\<close>, with its error branches), \<open>Timer_Mem\<close>
    (\<open>asio/timer_mem_bench.cpp\<close>: both implementations wait for all of the timers), \<open>Priorities\<close> (\<open>asio/prio.cpp\<close>: no
    check fails), \<open>Alignment\<close> (\<open>alignment.cpp\<close>: two lines for each misaligned frame), \<open>Topo_Print\<close>
    (\<open>hwloc/topo.cpp\<close>). \<open>Program_Output\<close> has the \<open>main\<close> functions of \<open>fib.cpp\<close>, \<open>skynet.cpp\<close> and the pipeline
    programs with what they print.

  How the parts interact: \<open>http_skynet.cpp\<close> runs the fork-join tree of \<open>Fork_Join\<close> inside each
  connection handler, and its theorem uses the facts of \<open>Skynet\<close>; both pipelines run the same kind
  of stages against the library's channels and queues; the benchmarks share \<open>Work_Split\<close> and
  \<open>Format\<close>, and \<open>Bench_Report\<close> prints what they check; the servers share their locales;
  \<open>External_Demo\<close> composes the pool and the adapter of \<open>External_Executor\<close> with the rest of its program, and the
  programs that tell where they run share \<open>Thread_Names\<close>.

  Sizes and bounds. \<open>size_t\<close> is a word of any length where the result depends on wrap-around
  (\<open>'w word\<close>; theorems name 32 and 64 bits where the code does), and a natural number where it
  counts things that exist (elements, workers, tasks). \<open>int\<close> values are integers, with the range written out
  where the code can leave it (\<open>Spawn_Iterator\<close>, \<open>External_Coro\<close>). The numbers of stages, workers, producers,
  elements, connections and limits are arbitrary unless a program fixes them. Undefined behaviour (division by
  zero, out-of-range conversion, signed overflow, an index out of range, use after destruction) is \<open>None\<close> or
  a fault flag.

  Not modelled: what the library does inside (scheduling, work stealing, priorities, memory orders), since
  its source is not there, nor the wrapper task that it puts around an awaitable it does not know (\<open>External_Coro\<close> counts the
  resumptions of the frames of the program only); the clock, whose readings are arguments; the performance that the choice of processors
  and executors is about (the calls that make it are in \<open>Executor_Config\<close>, \<open>Hwloc_Servers\<close> and \<open>Hybrid\<close>).
  \<open>standalone_compilation.cpp\<close> holds preprocessor definitions. The tests under \<open>src/tests\<close> test the library.
\<close>

end
